(* ===== verification/Prelude.thy ===== *)
theory Prelude
  imports "HOL-Library.Word"
begin

text \<open>
  Shared vocabulary of the development: the machine integer types of the Rust code as words,
  Rust's saturating arithmetic, the little-endian byte codec of the standard library, and the
  generic facts about lists, options and words that the component theories use.
\<close>

named_theorems sat_arith \<open>unat characterisations of the saturating word operations\<close>
named_theorems inv_intros \<open>one preservation lemma per operation of a component\<close>

section \<open>Fallible computations\<close>

text \<open>A \<open>Result<T, E>\<close> is a sum with the error on the left; \<open>bind_res\<close> is the \<open>?\<close> operator.\<close>

type_synonym ('e, 'a) result = "'e + 'a"

definition bind_res :: "'e + 'a \<Rightarrow> ('a \<Rightarrow> 'e + 'b) \<Rightarrow> 'e + 'b" where
  "bind_res r f = (case r of Inl e \<Rightarrow> Inl e | Inr a \<Rightarrow> f a)"

lemma bind_res_simps [simp]: "bind_res (Inl e) f = Inl e" "bind_res (Inr a) f = f a"
  by (simp_all add: bind_res_def)

lemma bind_res_Inr_iff: "bind_res r f = Inr b \<longleftrightarrow> (\<exists>a. r = Inr a \<and> f a = Inr b)"
  by (auto simp: bind_res_def split: sum.splits)

lemma bind_res_Inl_iff:
  "bind_res r f = Inl e \<longleftrightarrow> r = Inl e \<or> (\<exists>a. r = Inr a \<and> f a = Inl e)"
  by (auto simp: bind_res_def split: sum.splits)

section \<open>Machine integers\<close>

type_synonym u8 = "8 word"
type_synonym u16 = "16 word"
type_synonym u32 = "32 word"
type_synonym u64 = "64 word"
type_synonym usize = "64 word"
type_synonym i64 = "64 word"
type_synonym bytes = "8 word list"

text \<open>\<open>saturating_add\<close>, \<open>saturating_sub\<close> and \<open>saturating_mul\<close> of Rust's unsigned integers: the
  largest word is \<open>- 1\<close>.\<close>

definition sat_add :: "'a::len word \<Rightarrow> 'a word \<Rightarrow> 'a word" where
  "sat_add a b = (if unat a + unat b < 2 ^ LENGTH('a) then a + b else - 1)"

definition sat_sub :: "'a::len word \<Rightarrow> 'a word \<Rightarrow> 'a word" where
  "sat_sub a b = (if b \<le> a then a - b else 0)"

definition sat_mul :: "'a::len word \<Rightarrow> 'a word \<Rightarrow> 'a word" where
  "sat_mul a b = (if unat a * unat b < 2 ^ LENGTH('a) then a * b else - 1)"

text \<open>\<open>saturating_add\<close> of the signed integers, on the two's complement reading of a word.\<close>

definition ssat_add :: "i64 \<Rightarrow> i64 \<Rightarrow> i64" where
  "ssat_add a b = (let s = sint a + sint b in
     if s > 2 ^ 63 - 1 then word_of_int (2 ^ 63 - 1)
     else if s < - (2 ^ 63) then word_of_int (- (2 ^ 63))
     else word_of_int s)"

text \<open>\<open>div_ceil\<close> of the unsigned integers (\<open>b\<close> non-zero).\<close>

definition div_ceil :: "'a::len word \<Rightarrow> 'a word \<Rightarrow> 'a word" where
  "div_ceil a b = (if a mod b = 0 then a div b else a div b + 1)"

lemma unat_max_word: "unat (- 1 :: 'a::len word) = 2 ^ LENGTH('a) - 1"
  by (simp add: unsigned_minus_1_eq_mask mask_eq_exp_minus_1)

lemma unat_sat_add [sat_arith]:
  fixes a b :: "'a::len word"
  shows "unat (sat_add a b) = min (unat a + unat b) (2 ^ LENGTH('a) - 1)"
  by (auto simp: sat_add_def unat_max_word unat_add_lem [THEN iffD1])

lemma unat_sat_sub [sat_arith]: "unat (sat_sub a b) = unat a - unat b"
  by (auto simp: sat_sub_def unat_sub word_le_nat_alt)

lemma unat_sat_mul [sat_arith]:
  fixes a b :: "'a::len word"
  shows "unat (sat_mul a b) = min (unat a * unat b) (2 ^ LENGTH('a) - 1)"
  by (auto simp: sat_mul_def unat_max_word unat_mult_lem [THEN iffD1])

lemma unat_min [sat_arith]: "unat (min a b) = min (unat a) (unat b)"
  by (simp add: min_def word_le_nat_alt)

lemma unat_max [sat_arith]: "unat (max a b) = max (unat a) (unat b)"
  by (simp add: max_def word_le_nat_alt)

lemma unat_div_ceil [sat_arith]:
  fixes a b :: "'a::len word"
  assumes "b \<noteq> 0"
  shows "unat (div_ceil a b) = (unat a + unat b - 1) div unat b"
proof -
  from assms have pos: "0 < unat b" by (simp add: unat_gt_0)
  define q r where "q = unat a div unat b" and "r = unat a mod unat b"
  have a: "unat a = q * unat b + r" and r: "r < unat b"
    using pos by (simp_all add: q_def r_def)
  have small: "q + 1 < 2 ^ LENGTH('a)" if "r \<noteq> 0"
  proof -
    have "unat b > 1" using that r by simp
    then have "q * 2 \<le> q * unat b" by simp
    then have "q + 1 \<le> unat a" using a that by (cases "q = 0") linarith+
    then show ?thesis using unsigned_less [of a, where 'a = nat] by linarith
  qed
  have ceil: "(unat a + unat b - 1) div unat b = (if r = 0 then q else q + 1)"
  proof (cases "r = 0")
    case True
    then have "unat a + unat b - 1 = (unat b - 1) + q * unat b" using a pos by simp
    then have "(unat a + unat b - 1) div unat b = q + (unat b - 1) div unat b"
      using pos by (simp only: div_mult_self1)
    then show ?thesis using True pos by simp
  next
    case False
    then have "unat a + unat b - 1 = (r - 1) + (q + 1) * unat b" using a pos by simp
    then have "(unat a + unat b - 1) div unat b = q + 1 + (r - 1) div unat b"
      using pos by (simp only: div_mult_self1)
    then show ?thesis using False pos r by simp
  qed
  have z: "a mod b = 0 \<longleftrightarrow> r = 0"
    by (simp add: r_def unat_eq_zero flip: unat_mod_distrib)
  show ?thesis
    using small unfolding ceil div_ceil_def z
    by (auto simp: q_def unat_div_distrib unat_word_ariths)
qed

lemma unat_le_max: "unat (w :: 'a::len word) \<le> 2 ^ LENGTH('a) - 1"
  using unsigned_less [of w, where 'a = nat] by (simp add: less_eq_Suc_le le_diff_conv2)

lemma unat_ucast_up:
  assumes "LENGTH('a) \<le> LENGTH('b)"
  shows "unat (ucast (w :: 'a::len word) :: 'b::len word) = unat w"
proof -
  have "unat w < 2 ^ LENGTH('a)" by (rule unsigned_less)
  also have "\<dots> \<le> (2 :: nat) ^ LENGTH('b)" using assms by simp
  finally show ?thesis by (simp add: unsigned_ucast_eq take_bit_nat_eq_self_iff)
qed

lemma ucast_up_eq_0:
  "LENGTH('a) \<le> LENGTH('b) \<Longrightarrow> (ucast (w :: 'a::len word) :: 'b::len word) = 0 \<longleftrightarrow> w = 0"
  using unat_ucast_up [where 'a = 'a and 'b = 'b, of w]
  by (metis unat_eq_zero)

lemma unat_uminus: "(w :: 'a::len word) \<noteq> 0 \<Longrightarrow> unat (- w) = 2 ^ LENGTH('a) - unat w"
proof -
  assume "w \<noteq> 0"
  then have w: "0 < unat w" "unat w < 2 ^ LENGTH('a)"
    using unsigned_less [of w, where 'a = nat] by (simp_all add: unat_gt_0)
  have "of_nat (2 ^ LENGTH('a) - unat w) = (0 - w :: 'a word)"
    using w(2) by (subst of_nat_diff) (simp_all add: less_imp_le)
  then have "- w = of_nat (2 ^ LENGTH('a) - unat w)" by simp
  then have "unat (- w) = (2 ^ LENGTH('a) - unat w) mod 2 ^ LENGTH('a)" by (simp only: unat_of_nat)
  then show ?thesis using w by simp
qed

lemma unat_drop_bit: "unat (drop_bit k w) = unat w div 2 ^ k"
  by (simp only: unsigned_drop_bit_eq) (simp add: drop_bit_eq_div take_bit_nat_eq_self)

lemma sat_neutral [simp]:
  "sat_add a 0 = a" "sat_add 0 a = a" "sat_sub a a = 0" "sat_sub a 0 = a"
  "sat_mul 0 a = 0" "sat_mul a 0 = 0"
  by (auto simp: sat_add_def sat_sub_def sat_mul_def)

lemma sint_ssat_add:
  "sint (ssat_add a b) = max (- (2 ^ 63)) (min (2 ^ 63 - 1) (sint a + sint b))"
proof -
  have self: "sint (word_of_int s :: i64) = s" if "- (2 ^ 63) \<le> s" "s \<le> 2 ^ 63 - 1" for s
    using that by (simp add: sint_sbintrunc' signed_take_bit_int_eq_self)
  show ?thesis
    using self [of "2 ^ 63 - 1"] self [of "- (2 ^ 63)"] self [of "sint a + sint b"]
    unfolding ssat_add_def Let_def by (simp split: if_splits)
qed

lemma ssat_add_0 [simp]: "ssat_add a 0 = a"
  using sint_greater_eq [of a] sint_less [of a] by (simp add: ssat_add_def Let_def)

section \<open>Little-endian byte codec\<close>

text \<open>\<open>u64::to_le_bytes\<close> and \<open>u64::from_le_bytes\<close>, for any number of bytes.\<close>

fun to_le :: "nat \<Rightarrow> u64 \<Rightarrow> bytes" where
  "to_le 0 w = []"
| "to_le (Suc n) w = ucast w # to_le n (drop_bit 8 w)"

fun from_le :: "bytes \<Rightarrow> u64" where
  "from_le [] = 0"
| "from_le (b # bs) = or (ucast b) (push_bit 8 (from_le bs))"

lemma length_to_le [simp]: "length (to_le n w) = n"
  by (induction n arbitrary: w) auto

lemma from_le_to_le: "from_le (to_le n w) = take_bit (8 * n) w"
proof (induction n arbitrary: w)
  case 0
  then show ?case by simp
next
  case (Suc n)
  show ?case
    by (rule bit_eqI) (auto simp: Suc bit_simps)
qed

lemma bit_from_le: "bit (from_le bs) n \<Longrightarrow> n < 8 * length bs"
proof (induction bs arbitrary: n)
  case (Cons b bs)
  then consider "bit b n" | "8 \<le> n" "bit (from_le bs) (n - 8)"
    by (auto simp: bit_simps)
  then show ?case
    by cases (use Cons.IH [of "n - 8"] in \<open>auto dest!: bit_imp_le_length\<close>)
qed simp

lemma to_le_from_le: "length bs \<le> 8 \<Longrightarrow> to_le (length bs) (from_le bs) = bs"
proof (induction bs)
  case Nil
  then show ?case by simp
next
  case (Cons b bs)
  let ?w = "from_le bs"
  have lt: "length bs < 8" using Cons.prems by simp
  have low: "ucast (or (ucast b) (push_bit 8 ?w)) = b"
    by (rule bit_eqI) (auto simp: bit_simps)
  have high: "drop_bit 8 (or (ucast b) (push_bit 8 ?w)) = ?w"
    by (rule bit_eqI) (use lt in \<open>auto simp: bit_simps dest: bit_imp_le_length bit_from_le\<close>)
  show ?case using Cons by (simp add: low high del: drop_bit_or)
qed

lemma from_le_to_le_8 [simp]: "from_le (to_le 8 w) = w"
  by (simp add: from_le_to_le take_bit_word_eq_self)

section \<open>Bijections on words\<close>

text \<open>Steps that hash finalizers are made of: a right shift folded in by exclusive or, a product
  with an odd constant (given with its inverse), and a rotation.\<close>

lemma xorshift_inj:
  fixes x y :: "'a::len word"
  assumes "0 < n" "xor x (drop_bit n x) = xor y (drop_bit n y)"
  shows "x = y"
proof -
  let ?d = "xor x y"
  have step: "bit ?d k \<longleftrightarrow> bit ?d (k + n)" for k
    using arg_cong [OF assms(2), of "\<lambda>w. bit w k"] bit_imp_le_length [of x] bit_imp_le_length [of y]
    by (auto simp: bit_simps add.commute)
  have run: "bit ?d k \<longleftrightarrow> bit ?d (k + n * j)" for k j
  proof (induction j)
    case (Suc j)
    then show ?case using step [of "k + n * j"] by (simp add: algebra_simps)
  qed simp
  have "\<not> bit ?d k" for k
  proof
    assume "bit ?d k"
    then have "k + n * LENGTH('a) < LENGTH('a)"
      using run [of k "LENGTH('a)"] bit_imp_le_length [of ?d] by simp
    moreover have "LENGTH('a) \<le> n * LENGTH('a)" using assms(1) by simp
    ultimately show False by linarith
  qed
  then show ?thesis by (intro bit_eqI) (auto simp: bit_simps)
qed

lemma odd_mult_inj:
  fixes a b x y :: "'a::len word"
  assumes "b * a = 1" "x * a = y * a"
  shows "x = y"
  using assms by (metis mult.assoc mult.commute mult_1_left)

lemma inj_word_surj: "inj (f :: 'a::len word \<Rightarrow> 'a word) \<Longrightarrow> surj f"
  by (rule finite_UNIV_inj_surj) simp_all

section \<open>Counting in lists\<close>

lemma count_list_map_inj:
  "inj_on f (insert x (set xs)) \<Longrightarrow> count_list (map f xs) (f x) = count_list xs x"
  by (induction xs) (auto simp: inj_on_def)

lemma count_list_rotate: "count_list (rotate n xs) y = count_list xs y"
proof -
  have "count_list (rotate n xs) y = count_list (take (n mod length xs) xs @ drop (n mod length xs) xs) y"
    by (simp only: rotate_drop_take count_list_append add.commute)
  then show ?thesis by simp
qed

lemma rotate_conv_map: "rotate n xs = map (\<lambda>j. xs ! ((n + j) mod length xs)) [0..<length xs]"
  by (intro nth_equalityI) (auto simp: nth_rotate)

section \<open>Sums over finite maps\<close>

text \<open>The total of a measure over the entries of a map, and how one update changes it.\<close>

definition total_over :: "('k \<Rightarrow> 'v \<Rightarrow> nat) \<Rightarrow> ('k \<Rightarrow> 'v option) \<Rightarrow> nat" where
  "total_over f m = (\<Sum>k\<in>dom m. f k (the (m k)))"

definition at_key :: "('k \<Rightarrow> 'v \<Rightarrow> nat) \<Rightarrow> ('k \<Rightarrow> 'v option) \<Rightarrow> 'k \<Rightarrow> nat" where
  "at_key f m k = (case m k of None \<Rightarrow> 0 | Some v \<Rightarrow> f k v)"

lemma total_over_remove:
  assumes "finite (dom m)"
  shows "total_over f m = at_key f m k + total_over f (m(k := None))"
proof (cases "k \<in> dom m")
  case True
  have "total_over f m = f k (the (m k)) + (\<Sum>x\<in>dom m - {k}. f x (the (m x)))"
    unfolding total_over_def by (rule sum.remove [OF assms True])
  moreover have "(\<Sum>x\<in>dom m - {k}. f x (the (m x))) = total_over f (m(k := None))"
    unfolding total_over_def by (intro sum.cong) auto
  ultimately show ?thesis using True by (auto simp: at_key_def)
next
  case False
  then have "m(k := None) = m" by (auto simp: fun_upd_idem domIff)
  then show ?thesis using False by (simp add: at_key_def domIff)
qed

lemma total_over_update:
  assumes "finite (dom m)"
  shows "int (total_over f (m(k \<mapsto> v))) = int (total_over f m) + int (f k v) - int (at_key f m k)"
  using total_over_remove [of "m(k \<mapsto> v)" f k] total_over_remove [OF assms, of f k] assms
  by (simp add: at_key_def)

lemma at_key_le_total_over: "finite (dom m) \<Longrightarrow> at_key f m k \<le> total_over f m"
  using total_over_remove [of m f k] by simp

lemma total_over_empty [simp]: "total_over f Map.empty = 0"
  by (simp add: total_over_def)

end
