(* ===== verification/Net.thy ===== *)
theory Net
  imports Prelude
begin

text \<open>
  The IP addresses of the Rust standard library (\<open>std::net\<close>), which the rate limiter, the Maglev
  key and the outbound policy read: an IPv4 address is its 32 bits, an IPv6 address its 128 bits,
  both with the most significant octet first.
\<close>

datatype IpAddr = V4 u32 | V6 "128 word"

definition v4_octets :: "u32 \<Rightarrow> bytes" where
  "v4_octets a = map (\<lambda>i. ucast (drop_bit (8 * (3 - i)) a)) [0..<4]"

definition v6_octets :: "128 word \<Rightarrow> bytes" where
  "v6_octets a = map (\<lambda>i. ucast (drop_bit (8 * (15 - i)) a)) [0..<16]"

definition v6_segments :: "128 word \<Rightarrow> u16 list" where
  "v6_segments a = map (\<lambda>i. ucast (drop_bit (16 * (7 - i)) a)) [0..<8]"

fun octets :: "IpAddr \<Rightarrow> bytes" where
  "octets (V4 a) = v4_octets a"
| "octets (V6 a) = v6_octets a"

text \<open>\<open>Ipv6Addr::to_ipv4_mapped\<close>: the addresses \<open>::ffff:a.b.c.d\<close>.\<close>

definition to_ipv4_mapped :: "128 word \<Rightarrow> u32 option" where
  "to_ipv4_mapped v6 = (if drop_bit 32 v6 = 0xFFFF then Some (ucast v6) else None)"

text \<open>An address with all its octets equal is equal.\<close>

lemma word_eq_by_octets:
  fixes a b :: "'a::len word"
  assumes "LENGTH('a) = 8 * Suc k"
    and "\<forall>i\<le>k. (ucast (drop_bit (8 * (k - i)) a) :: u8) = ucast (drop_bit (8 * (k - i)) b)"
  shows "a = b"
proof (rule bit_eqI)
  fix n assume n: "possible_bit TYPE('a word) n"
  let ?j = "n div 8"
  have "n < 8 * Suc k" using n assms(1) by simp
  then have j: "?j \<le> k" by (simp add: less_mult_imp_div_less)
  then have "(ucast (drop_bit (8 * ?j) a) :: u8) = ucast (drop_bit (8 * ?j) b)"
    using assms(2) [rule_format, of "k - ?j"] by simp
  then have "bit (ucast (drop_bit (8 * ?j) a) :: u8) (n mod 8) = bit (ucast (drop_bit (8 * ?j) b) :: u8) (n mod 8)"
    by simp
  moreover have "8 * ?j + n mod 8 = n" by simp
  ultimately show "bit a n = bit b n" by (simp add: bit_simps)
qed

lemma v4_octets_inj: "v4_octets a = v4_octets b \<longleftrightarrow> a = b"
proof
  assume "v4_octets a = v4_octets b"
  then show "a = b"
    by (intro word_eq_by_octets [where k = 3]) (auto simp: v4_octets_def)
qed simp

lemma v6_octets_inj: "v6_octets a = v6_octets b \<longleftrightarrow> a = b"
proof
  assume "v6_octets a = v6_octets b"
  then show "a = b"
    by (intro word_eq_by_octets [where k = 15]) (auto simp: v6_octets_def)
qed simp

lemma octets_length [simp]: "length (v4_octets a) = 4" "length (v6_octets b) = 16"
  by (simp_all add: v4_octets_def v6_octets_def)

lemma octets_family: "v4_octets a \<noteq> v6_octets b"
proof
  assume "v4_octets a = v6_octets b"
  from arg_cong [OF this, of length] show False by simp
qed

lemma octets_inj: "octets a = octets b \<longleftrightarrow> a = b"
  using octets_family octets_family [symmetric]
  by (cases a; cases b) (auto simp: v4_octets_inj v6_octets_inj)

end
