(* ===== verification/Strings.thy ===== *)
theory Strings
  imports Prelude "HOL-Library.Sublist"
begin

text \<open>
  The operations of Rust's \<open>str\<close> that the program uses, on strings as lists of bytes: ASCII case,
  splitting and joining at a character, prefixes. The facts here are what the parsers of paths,
  authorities and header lists rest on.
\<close>

section \<open>ASCII case\<close>

definition lower_char :: "char \<Rightarrow> char" where
  "lower_char c = (let n = of_char c :: nat in if 65 \<le> n \<and> n \<le> 90 then char_of (n + 32) else c)"

definition upper_char :: "char \<Rightarrow> char" where
  "upper_char c = (let n = of_char c :: nat in if 97 \<le> n \<and> n \<le> 122 then char_of (n - 32) else c)"

definition ascii_lower :: "string \<Rightarrow> string" where
  "ascii_lower s = map lower_char s"

definition ascii_upper :: "string \<Rightarrow> string" where
  "ascii_upper s = map upper_char s"

definition eq_ignore_case :: "string \<Rightarrow> string \<Rightarrow> bool" where
  "eq_ignore_case a b \<longleftrightarrow> ascii_lower a = ascii_lower b"

lemma lower_char_idem [simp]: "lower_char (lower_char c) = lower_char c"
proof -
  have "of_char (char_of (n + 32) :: char) = n + 32" if "n \<le> 90" for n :: nat
    using that by (simp add: take_bit_nat_eq_self_iff)
  then show ?thesis by (simp add: lower_char_def Let_def)
qed

lemma ascii_lower_idem [simp]: "ascii_lower (ascii_lower s) = ascii_lower s"
  by (simp add: ascii_lower_def)

lemma ascii_lower_Nil [simp]: "ascii_lower s = [] \<longleftrightarrow> s = []"
  by (simp add: ascii_lower_def)

lemma length_ascii_lower [simp]: "length (ascii_lower s) = length s"
  by (simp add: ascii_lower_def)

lemma eq_ignore_case_refl [simp]: "eq_ignore_case a a"
  by (simp add: eq_ignore_case_def)

lemma eq_ignore_case_sym: "eq_ignore_case a b \<Longrightarrow> eq_ignore_case b a"
  by (simp add: eq_ignore_case_def)

lemma eq_ignore_case_trans: "eq_ignore_case a b \<Longrightarrow> eq_ignore_case b c \<Longrightarrow> eq_ignore_case a c"
  by (simp add: eq_ignore_case_def)

section \<open>Splitting and joining\<close>

text \<open>\<open>str::split\<close> at one character, \<open>str::split_once\<close>, and \<open>join\<close> with a one-character separator.\<close>

fun split_at :: "char \<Rightarrow> string \<Rightarrow> string list" where
  "split_at c [] = [[]]"
| "split_at c (x # xs) =
     (if x = c then [] # split_at c xs
      else (case split_at c xs of [] \<Rightarrow> [[x]] | w # ws \<Rightarrow> (x # w) # ws))"

definition split_once :: "char \<Rightarrow> string \<Rightarrow> (string \<times> string) option" where
  "split_once c s =
     (if c \<in> set s then Some (takeWhile (\<lambda>x. x \<noteq> c) s, tl (dropWhile (\<lambda>x. x \<noteq> c) s)) else None)"

fun join_with :: "char \<Rightarrow> string list \<Rightarrow> string" where
  "join_with c [] = []"
| "join_with c [w] = w"
| "join_with c (w # ws) = w @ c # join_with c ws"

definition strip_prefix :: "string \<Rightarrow> string \<Rightarrow> string option" where
  "strip_prefix p s = (if prefix p s then Some (drop (length p) s) else None)"

lemma split_at_not_Nil [simp]: "split_at c s \<noteq> []"
  by (induction s) (auto split: list.splits)

lemma join_with_Cons: "ws \<noteq> [] \<Longrightarrow> join_with c (w # ws) = w @ c # join_with c ws"
  by (cases ws) simp_all

lemma join_with_append:
  "us \<noteq> [] \<Longrightarrow> ws \<noteq> [] \<Longrightarrow> join_with c (us @ ws) = join_with c us @ c # join_with c ws"
proof (induction us)
  case (Cons u us)
  then show ?case by (cases "us = []") (simp_all add: join_with_Cons)
qed simp

lemma join_split [simp]: "join_with c (split_at c s) = s"
proof (induction s)
  case (Cons x xs)
  show ?case
  proof (cases "split_at c xs")
    case (Cons w ws)
    then show ?thesis using Cons.IH by (cases ws) (auto simp: join_with_Cons)
  qed simp
qed simp

lemma split_at_free: "c \<notin> set s \<Longrightarrow> split_at c s = [s]"
  by (induction s) auto

lemma split_at_append_sep: "split_at c (a @ c # b) = split_at c a @ split_at c b"
  by (induction a) (auto split: list.splits)

lemma split_at_set: "w \<in> set (split_at c s) \<Longrightarrow> c \<notin> set w \<and> set w \<subseteq> set s"
proof (induction s arbitrary: w)
  case (Cons x xs)
  obtain v vs where v: "split_at c xs = v # vs" by (cases "split_at c xs") simp_all
  then have "c \<notin> set v" "set v \<subseteq> set xs" using Cons.IH [of v] by auto
  then show ?case using Cons.prems Cons.IH [of w] v by (auto split: if_splits)
qed simp

lemma split_join:
  "ws \<noteq> [] \<Longrightarrow> \<forall>w\<in>set ws. c \<notin> set w \<Longrightarrow> split_at c (join_with c ws) = ws"
proof (induction ws rule: join_with.induct)
  case (3 c w v vs)
  then show ?case by (simp add: split_at_append_sep split_at_free)
qed (simp_all add: split_at_free)

lemma set_join_with: "set (join_with c ws) \<subseteq> insert c (\<Union> (set ` set ws))"
  by (induction ws rule: join_with.induct) auto

lemma split_once_Some_iff:
  "split_once c s = Some (a, b) \<longleftrightarrow> s = a @ c # b \<and> c \<notin> set a"
proof
  assume h: "split_once c s = Some (a, b)"
  then have mem: "c \<in> set s" and a: "a = takeWhile (\<lambda>x. x \<noteq> c) s" and b: "b = tl (dropWhile (\<lambda>x. x \<noteq> c) s)"
    by (auto simp: split_once_def split: if_splits)
  from mem have "dropWhile (\<lambda>x. x \<noteq> c) s \<noteq> []" "hd (dropWhile (\<lambda>x. x \<noteq> c) s) = c"
    using hd_dropWhile [of "\<lambda>x. x \<noteq> c" s] by auto
  then have "dropWhile (\<lambda>x. x \<noteq> c) s = c # b" using b by (metis list.collapse)
  then show "s = a @ c # b \<and> c \<notin> set a"
    unfolding a by (metis (mono_tags, lifting) set_takeWhileD takeWhile_dropWhile_id)
next
  assume "s = a @ c # b \<and> c \<notin> set a"
  then show "split_once c s = Some (a, b)"
    by (induction a arbitrary: s) (auto simp: split_once_def)
qed

lemma split_once_None_iff: "split_once c s = None \<longleftrightarrow> c \<notin> set s"
  by (simp add: split_once_def)

text \<open>A list of segments starts with the segments of \<open>p\<close> exactly when the string is \<open>p\<close> or goes on
  after \<open>p\<close> with a separator.\<close>

lemma prefix_split_at:
  "prefix (split_at c p) (split_at c s) \<longleftrightarrow> s = p \<or> (\<exists>t. s = p @ c # t)"
proof
  assume "prefix (split_at c p) (split_at c s)"
  then obtain ws where ws: "split_at c s = split_at c p @ ws" by (auto simp: prefix_def)
  have "s = join_with c (split_at c p @ ws)" by (simp flip: ws)
  then show "s = p \<or> (\<exists>t. s = p @ c # t)"
    by (cases "ws = []") (simp_all add: join_with_append)
next
  assume "s = p \<or> (\<exists>t. s = p @ c # t)"
  then show "prefix (split_at c p) (split_at c s)" by (auto simp: split_at_append_sep)
qed

end
