(* ===== verification/Outbound.thy ===== *)
theory Outbound
  imports Net Strings
begin

text \<open>
  The outbound HTTP capability of a filter, \<open>host/src/outbound.rs\<close> and
  \<open>host/src/outbound_http.rs\<close>: the operator's allowlist, the classification of resolved addresses
  (the SSRF guard) and the connector that resolves a name, vets every address, and dials the first.
  CIDR parsing belongs to the \<open>ipnet\<close> crate; a parsed network is its address and prefix length.
\<close>

section \<open>The policy\<close>

datatype Scheme = SchemeHttp | SchemeHttps

fun scheme_default_port :: "Scheme \<Rightarrow> u16" where
  "scheme_default_port SchemeHttp = 80"
| "scheme_default_port SchemeHttps = 443"

record AllowEntry =
  allow_scheme :: Scheme
  allow_host :: string
  allow_port :: u16

datatype AddrVerdict = Allowed | BlockedReserved | BlockedPrivate

datatype IpNet = Net4 u32 nat | Net6 "128 word" nat

definition same_prefix :: "nat \<Rightarrow> 'a::len word \<Rightarrow> 'a word \<Rightarrow> bool" where
  "same_prefix len a b \<longleftrightarrow> drop_bit (LENGTH('a) - len) a = drop_bit (LENGTH('a) - len) b"

fun net_contains :: "IpNet \<Rightarrow> IpAddr \<Rightarrow> bool" where
  "net_contains (Net4 net len) (V4 a) = same_prefix len a net"
| "net_contains (Net6 net len) (V6 a) = same_prefix len a net"
| "net_contains _ _ = False"

record OutboundPolicy =
  op_allow :: "AllowEntry list"
  op_allow_private :: "IpNet list"
  op_connect_timeout :: u64
  op_total_timeout :: u64
  op_max_response_bytes :: u64
  op_max_concurrent :: u32

definition policy_allows :: "OutboundPolicy \<Rightarrow> Scheme \<Rightarrow> string \<Rightarrow> u16 \<Rightarrow> bool" where
  "policy_allows p scheme host port \<longleftrightarrow>
     (\<exists>e\<in>set (op_allow p). allow_scheme e = scheme \<and> allow_port e = port \<and> eq_ignore_case (allow_host e) host)"

text \<open>\<open>Ipv4Addr\<close> and \<open>Ipv6Addr\<close> predicates of the standard library, by octets and segments.\<close>

definition v4_is_documentation :: "u32 \<Rightarrow> bool" where
  "v4_is_documentation a \<longleftrightarrow> take 3 (v4_octets a) \<in> {[192, 0, 2], [198, 51, 100], [203, 0, 113]}"

definition v4_is_private :: "u32 \<Rightarrow> bool" where
  "v4_is_private a \<longleftrightarrow>
     (let oct = v4_octets a
      in oct ! 0 = 10 \<or> oct ! 0 = 172 \<and> 16 \<le> oct ! 1 \<and> oct ! 1 \<le> 31 \<or> oct ! 0 = 192 \<and> oct ! 1 = 168)"

definition v4_always_blocked :: "u32 \<Rightarrow> bool" where
  "v4_always_blocked a \<longleftrightarrow>
     (let oct = v4_octets a
      in oct ! 0 = 127
       \<or> oct ! 0 = 169 \<and> oct ! 1 = 254
       \<or> a = 0xFFFFFFFF
       \<or> 224 \<le> oct ! 0 \<and> oct ! 0 \<le> 239
       \<or> v4_is_documentation a
       \<or> oct ! 0 = 0
       \<or> oct ! 0 = 100 \<and> and (oct ! 1) 0xc0 = 0x40
       \<or> oct ! 0 = 192 \<and> oct ! 1 = 0 \<and> oct ! 2 = 0
       \<or> oct ! 0 = 198 \<and> and (oct ! 1) 0xfe = 18
       \<or> and (oct ! 0) 0xf0 = 240)"

definition v6_always_blocked :: "128 word \<Rightarrow> bool" where
  "v6_always_blocked a \<longleftrightarrow>
     (let seg = v6_segments a
      in a = 1
       \<or> a = 0
       \<or> and (seg ! 0) 0xff00 = 0xff00
       \<or> and (seg ! 0) 0xffc0 = 0xfe80
       \<or> seg ! 0 = 0x2001 \<and> seg ! 1 = 0x0db8
       \<or> seg ! 0 = 0x2001 \<and> seg ! 1 = 0
       \<or> seg ! 0 = 0x0064 \<and> seg ! 1 = 0xff9b
       \<or> seg ! 0 = 0x0100 \<and> list_all (\<lambda>s. s = 0) (take 3 (drop 1 seg)))"

fun is_always_blocked :: "IpAddr \<Rightarrow> bool" where
  "is_always_blocked (V4 a) = v4_always_blocked a"
| "is_always_blocked (V6 a) = v6_always_blocked a"

fun is_private :: "IpAddr \<Rightarrow> bool" where
  "is_private (V4 a) = v4_is_private a"
| "is_private (V6 a) = (and (v6_segments a ! 0) 0xfe00 = 0xfc00)"

fun canonicalize :: "IpAddr \<Rightarrow> IpAddr" where
  "canonicalize (V6 v6) =
     (case to_ipv4_mapped v6 of
        Some v4 \<Rightarrow> V4 v4
      | None \<Rightarrow>
          (let seg = v6_segments v6 in
           if list_all (\<lambda>s. s = 0) (take 6 seg) \<and> v6 \<noteq> 1 \<and> v6 \<noteq> 0
           then V4 (or (push_bit 16 (ucast (seg ! 6))) (ucast (seg ! 7)))
           else V6 v6))"
| "canonicalize (V4 a) = V4 a"

definition classify :: "IpAddr \<Rightarrow> IpNet list \<Rightarrow> AddrVerdict" where
  "classify ip allow_private =
     (let canonical = canonicalize ip in
      if is_always_blocked canonical then BlockedReserved
      else if is_private canonical
      then if list_ex (\<lambda>net. net_contains net canonical) allow_private then Allowed else BlockedPrivate
      else Allowed)"

section \<open>The connector\<close>

type_synonym SocketAddr = "IpAddr \<times> u16"

datatype ErrorCode =
  HttpRequestUriInvalid
| HttpRequestDenied
| ConnectionLimitReached
| DnsError
| DestinationIpProhibited
| ConnectionTimeout
| ConnectionRefused
| TlsProtocolError
| HyperError string

text \<open>What the connector reads of a guest's request: the parsed authority (host, port, and its text if
  that is a valid header value), the \<open>Host\<close> header and the path with its query.\<close>

record OutRequest =
  out_authority :: "(string \<times> u16 option \<times> string option) option"
  out_host :: "string option"
  out_path :: "string option"

definition authority_of :: "OutRequest \<Rightarrow> bool \<Rightarrow> (string \<times> u16) option" where
  "authority_of request use_tls =
     (case out_authority request of
        None \<Rightarrow> None
      | Some (host, port, _) \<Rightarrow>
          if host = [] then None
          else Some (host, case port of Some p \<Rightarrow> p | None \<Rightarrow> if use_tls then 443 else 80))"

text \<open>The network and the libraries, as the outcome of each awaited operation: a failed one is \<open>Inl\<close>,
  with \<open>None\<close> for an elapsed timeout. Each network operation leaves an event.\<close>

datatype net_event =
  Resolved string u16
| Dialled SocketAddr u64
| TlsTo string
| Handshake
| Sent OutRequest

record 'b network =
  net_resolve :: "string \<Rightarrow> u16 \<Rightarrow> unit + SocketAddr list"
  net_connect :: "SocketAddr \<Rightarrow> u64 \<Rightarrow> unit option + unit"
  net_client_config :: bool
  net_server_name :: "string \<Rightarrow> bool"
  net_tls :: "string \<Rightarrow> unit option + unit"
  net_handshake :: "string option + unit"
  net_uri_ok :: "string \<Rightarrow> bool"
  net_send :: "OutRequest \<Rightarrow> string + 'b"

definition set_host :: "OutRequest \<Rightarrow> OutRequest" where
  "set_host request =
     (case (out_host request, out_authority request) of
        (None, Some (_, _, Some txt)) \<Rightarrow> request\<lparr>out_host := Some txt\<rparr>
      | _ \<Rightarrow> request)"

definition tls_connect :: "'b network \<Rightarrow> string \<Rightarrow> net_event list \<times> (ErrorCode + unit)" where
  "tls_connect net host =
     (if \<not> net_client_config net then ([], Inl TlsProtocolError)
      else if \<not> net_server_name net host then ([], Inl DnsError)
      else ([TlsTo host],
            case net_tls net host of
              Inl None \<Rightarrow> Inl ConnectionTimeout
            | Inl (Some _) \<Rightarrow> Inl TlsProtocolError
            | Inr _ \<Rightarrow> Inr ()))"

definition handshake :: "'b network \<Rightarrow> net_event list \<times> (ErrorCode + unit)" where
  "handshake net =
     ([Handshake],
      case net_handshake net of
        Inl None \<Rightarrow> Inl ConnectionTimeout
      | Inl (Some e) \<Rightarrow> Inl (HyperError e)
      | Inr _ \<Rightarrow> Inr ())"

definition origin_form :: "OutRequest \<Rightarrow> string \<Rightarrow> OutRequest" where
  "origin_form request path = request\<lparr>out_authority := None, out_path := Some path\<rparr>"

definition send_on :: "'b network \<Rightarrow> u64 \<Rightarrow> OutRequest \<Rightarrow> net_event list \<times> (ErrorCode + 'b \<times> u64)" where
  "send_on net max_response_bytes request =
     (let path = (case out_path request of Some p \<Rightarrow> p | None \<Rightarrow> ''/'') in
      if \<not> net_uri_ok net path then ([], Inl HttpRequestUriInvalid)
      else let request = origin_form request path
           in ([Sent request],
               case net_send net request of
                 Inl e \<Rightarrow> Inl (HyperError e)
               | Inr body \<Rightarrow> Inr (body, max_response_bytes)))"

text \<open>Sequencing of fallible steps that leave events: Rust's \<open>?\<close> after an \<open>await\<close>.\<close>

definition and_then ::
    "net_event list \<times> (ErrorCode + 'a) \<Rightarrow> ('a \<Rightarrow> net_event list \<times> (ErrorCode + 'c)) \<Rightarrow> net_event list \<times> (ErrorCode + 'c)" where
  "and_then m f =
     (case snd m of
        Inl code \<Rightarrow> (fst m, Inl code)
      | Inr x \<Rightarrow> (fst m @ fst (f x), snd (f x)))"

definition connect_and_send ::
    "'b network \<Rightarrow> SocketAddr \<Rightarrow> string \<Rightarrow> bool \<Rightarrow> u64 \<Rightarrow> u64 \<Rightarrow> OutRequest \<Rightarrow> net_event list \<times> (ErrorCode + 'b \<times> u64)" where
  "connect_and_send net addr host use_tls connect_timeout max_response_bytes request =
     and_then ([Dialled addr connect_timeout],
               case net_connect net addr connect_timeout of
                 Inl None \<Rightarrow> Inl ConnectionTimeout
               | Inl (Some _) \<Rightarrow> Inl ConnectionRefused
               | Inr _ \<Rightarrow> Inr ())
       (\<lambda>_. and_then (if use_tls then tls_connect net host else ([], Inr ()))
       (\<lambda>_. and_then (handshake net)
       (\<lambda>_. send_on net max_response_bytes (set_host request))))"

definition all_addresses_allowed :: "SocketAddr list \<Rightarrow> OutboundPolicy \<Rightarrow> bool" where
  "all_addresses_allowed addrs p \<longleftrightarrow> list_all (\<lambda>addr. classify (fst addr) (op_allow_private p) = Allowed) addrs"

definition resolve_and_connect ::
    "'b network \<Rightarrow> string \<Rightarrow> u16 \<Rightarrow> OutboundPolicy \<Rightarrow> bool \<Rightarrow> u64 \<Rightarrow> u64 \<Rightarrow> OutRequest \<Rightarrow> net_event list \<times> (ErrorCode + 'b \<times> u64)" where
  "resolve_and_connect net host port p use_tls connect_timeout max_response_bytes request =
     (let ev = [Resolved host port] in
      case net_resolve net host port of
        Inl _ \<Rightarrow> (ev, Inl DnsError)
      | Inr [] \<Rightarrow> (ev, Inl DnsError)
      | Inr (first_addr # rest) \<Rightarrow>
          if \<not> all_addresses_allowed (first_addr # rest) p then (ev, Inl DestinationIpProhibited)
          else and_then (ev, Inr ())
                 (\<lambda>_. connect_and_send net first_addr host use_tls connect_timeout max_response_bytes request))"

text \<open>The state a filter's calls share: the policy and the semaphore's free permits. A call either
  fails at once or takes a permit, which it holds until its task ends. The total deadline may cut
  the task after any number of its events.\<close>

record OutboundState =
  os_policy :: OutboundPolicy
  os_permits :: nat

definition OutboundState_new :: "OutboundPolicy \<Rightarrow> OutboundState" where
  "OutboundState_new p = \<lparr>os_policy = p, os_permits = unat (op_max_concurrent p)\<rparr>"

definition deny_all :: OutboundState where
  "deny_all =
     \<lparr>os_policy = \<lparr>op_allow = [], op_allow_private = [], op_connect_timeout = 1000, op_total_timeout = 1000,
                   op_max_response_bytes = 1, op_max_concurrent = 1\<rparr>,
      os_permits = 1\<rparr>"

datatype dispatched = ReadyErr ErrorCode | Pending string u16

definition dispatch :: "OutboundState \<Rightarrow> OutRequest \<Rightarrow> bool \<Rightarrow> OutboundState \<times> dispatched" where
  "dispatch st request use_tls =
     (let scheme = (if use_tls then SchemeHttps else SchemeHttp) in
      case authority_of request use_tls of
        None \<Rightarrow> (st, ReadyErr HttpRequestUriInvalid)
      | Some (host, port) \<Rightarrow>
          if \<not> policy_allows (os_policy st) scheme host port then (st, ReadyErr HttpRequestDenied)
          else if os_permits st = 0 then (st, ReadyErr ConnectionLimitReached)
          else (st\<lparr>os_permits := os_permits st - 1\<rparr>, Pending host port))"

definition run_task ::
    "'b network \<Rightarrow> nat option \<Rightarrow> OutboundPolicy \<Rightarrow> string \<Rightarrow> u16 \<Rightarrow> bool \<Rightarrow> OutRequest \<Rightarrow> net_event list \<times> (ErrorCode + 'b \<times> u64)" where
  "run_task net stop p host port use_tls request =
     (let (ev, res) = resolve_and_connect net host port p use_tls (op_connect_timeout p) (op_max_response_bytes p) request
      in case stop of None \<Rightarrow> (ev, res) | Some n \<Rightarrow> (take n ev, Inl ConnectionTimeout))"

text \<open>A whole call: the hook's answer, or the task's events and its result.\<close>

definition send_request ::
    "'b network \<Rightarrow> nat option \<Rightarrow> OutboundState \<Rightarrow> OutRequest \<Rightarrow> bool \<Rightarrow> OutboundState \<times> net_event list \<times> (ErrorCode + 'b \<times> u64)" where
  "send_request net stop st request use_tls =
     (case dispatch st request use_tls of
        (st', ReadyErr code) \<Rightarrow> (st', [], Inl code)
      | (st', Pending host port) \<Rightarrow> (st', run_task net stop (os_policy st) host port use_tls request))"

definition task_done :: "OutboundState \<Rightarrow> OutboundState" where
  "task_done st = st\<lparr>os_permits := os_permits st + 1\<rparr>"

section \<open>The guard as a table of networks\<close>

text \<open>The blocked ranges in CIDR form, as the comments of the predicates name them.\<close>

definition reserved4 :: "IpNet list" where
  "reserved4 =
     [Net4 0x7F000000 8, Net4 0xA9FE0000 16, Net4 0xE0000000 4, Net4 0xC0000200 24, Net4 0xC6336400 24,
      Net4 0xCB007100 24, Net4 0 8, Net4 0x64400000 10, Net4 0xC0000000 24, Net4 0xC6120000 15, Net4 0xF0000000 4]"

definition private4 :: "IpNet list" where
  "private4 = [Net4 0x0A000000 8, Net4 0xAC100000 12, Net4 0xC0A80000 16]"

definition reserved6 :: "IpNet list" where
  "reserved6 =
     [Net6 1 128, Net6 0 128, Net6 (push_bit 112 0xFF00) 8, Net6 (push_bit 112 0xFE80) 10,
      Net6 (push_bit 96 0x20010DB8) 32, Net6 (push_bit 96 0x20010000) 32, Net6 (push_bit 96 0x0064FF9B) 32,
      Net6 (push_bit 112 0x0100) 64]"

definition private6 :: "IpNet list" where
  "private6 = [Net6 (push_bit 112 0xFC00) 7]"

lemma mod_block: "K > 0 \<Longrightarrow> x mod (K * M) div K = x div K mod (M::nat)"
  by (simp add: mod_mult2_eq)

lemma block_split:
  fixes K M :: nat
  assumes "K > 0" "c2 < M"
  shows "x div (K * M) = c1 \<and> x mod (K * M) div K = c2 \<longleftrightarrow> x div K = c1 * M + c2"
proof -
  have "x div K = c1 * M + c2 \<longleftrightarrow> x div K div M = c1 \<and> x div K mod M = c2"
    using assms(2) by auto
  then show ?thesis using assms by (simp add: mod_block div_mult2_eq)
qed

lemma high_bits:
  fixes x y :: "'a::len word"
  assumes "take_bit k y = 0"
  shows "and x (not (mask k)) = y \<longleftrightarrow> drop_bit k x = drop_bit k y"
proof
  assume *: "and x (not (mask k)) = y"
  show "drop_bit k x = drop_bit k y"
    unfolding * [symmetric] by (rule bit_eqI) (auto simp: bit_simps dest: bit_imp_le_length)
next
  assume *: "drop_bit k x = drop_bit k y"
  show "and x (not (mask k)) = y"
  proof (rule bit_eqI)
    fix n
    have low: "n < k \<Longrightarrow> \<not> bit y n"
      using arg_cong [OF assms, of "\<lambda>w. bit w n"] by (simp add: bit_take_bit_iff)
    have high: "k \<le> n \<Longrightarrow> bit x n = bit y n"
      using arg_cong [OF *, of "\<lambda>w. bit w (n - k)"] by (simp add: bit_drop_bit_eq)
    show "bit (and x (not (mask k))) n = bit y n"
      using low high bit_imp_le_length[of y n] by (cases "n < k") (auto simp: bit_simps)
  qed
qed

lemma same_prefix_nat:
  "same_prefix len a b \<longleftrightarrow> unat a div 2 ^ (LENGTH('a) - len) = unat b div 2 ^ (LENGTH('a) - len)"
  for a b :: "'a::len word"
  by (simp add: same_prefix_def word_unat_eq_iff unat_drop_bit)

lemma u8_masks: "(0xc0 :: u8) = not (mask 6)" "(0xfe :: u8) = not (mask 1)" "(0xf0 :: u8) = not (mask 4)"
  by code_simp+

lemma u8_high:
  "and x 0xc0 = (0x40::u8) \<longleftrightarrow> unat x div 64 = 1"
  "and x 0xfe = (18::u8) \<longleftrightarrow> unat x div 2 = 9"
  "and x 0xf0 = (240::u8) \<longleftrightarrow> unat x div 16 = 15"
  using high_bits [of 6 "0x40::u8" x] high_bits [of 1 "18::u8" x] high_bits [of 4 "240::u8" x]
  by (simp_all only: u8_masks [symmetric]) (simp_all add: word_unat_eq_iff unat_drop_bit)

lemma v4_octet_nat:
  "unat (v4_octets a ! 0) = unat a div 256 div 65536"
  "unat (v4_octets a ! 1) = unat a div 256 div 256 mod 256"
  "unat (v4_octets a ! Suc 0) = unat a div 256 div 256 mod 256"
  "unat (v4_octets a ! 2) = unat a div 256 mod 256"
proof -
  have "unat a < 2 ^ 32" using unsigned_less [of a] by simp
  then have "unat a div 16777216 < 256" by (simp add: less_mult_imp_div_less)
  then show "unat (v4_octets a ! 0) = unat a div 256 div 65536"
    by (simp add: v4_octets_def unsigned_ucast_eq take_bit_eq_mod unat_drop_bit div_mult2_eq [symmetric])
qed (simp_all add: v4_octets_def unsigned_ucast_eq take_bit_eq_mod unat_drop_bit div_mult2_eq [symmetric])

text \<open>Consecutive octets as one prefix number.\<close>

lemma octet_pair:
  fixes y :: nat
  assumes "256 = K * M" "K > 0" "q < M"
  shows "y div 65536 = p \<and> y div 256 mod 256 div K = q \<longleftrightarrow> y div 256 div K = p * M + q"
proof -
  have "y div 65536 = y div 256 div (K * M)" 
    by (simp only: div_mult2_eq [symmetric] assms(1) [symmetric]) simp
  then show ?thesis using block_split [OF assms(2,3), of "y div 256" p] assms(1) by simp
qed

lemma octet_triple:
  fixes y :: nat
  assumes "q < 256" "r < 256"
  shows "y div 65536 = p \<and> y div 256 mod 256 = q \<and> y mod 256 = r \<longleftrightarrow> y = p * 65536 + q * 256 + r"
  using octet_pair [of 1 256 q y p] block_split [of 1 r 256 y "p * 256 + q"] assms by (auto simp: algebra_simps)

lemma nat_ranges:
  "(16 \<le> x \<and> x \<le> 31) = (x div 16 = (1::nat))" "(224 \<le> x \<and> x \<le> 239) = (x div 16 = (14::nat))"
  by presburger+
lemma v4_always_blocked_cidr: "v4_always_blocked a \<longleftrightarrow> list_ex (\<lambda>n. net_contains n (V4 a)) reserved4"
proof -
  define y where "y = unat a div 256"
  have o: "\<And>c. v4_octets a ! 0 = c \<longleftrightarrow> y div 65536 = unat c" "\<And>c. v4_octets a ! 1 = c \<longleftrightarrow> y div 256 mod 256 = unat c"
    "\<And>c. v4_octets a ! Suc 0 = c \<longleftrightarrow> y div 256 mod 256 = unat c"
    "\<And>c. v4_octets a ! 2 = c \<longleftrightarrow> y mod 256 = unat c"
    by (simp_all only: word_unat_eq_iff v4_octet_nat y_def)
  have t: "take 3 (v4_octets a) = [p, q, r] \<longleftrightarrow> v4_octets a ! 0 = p \<and> v4_octets a ! 1 = q \<and> v4_octets a ! 2 = r" for p q r
    by (simp add: v4_octets_def upt_rec)
  have d: "unat a div 16777216 = y div 65536" "unat a div 65536 = y div 256" "unat a div 256 = y"
    "unat a div 4194304 = y div 256 div 64" "unat a div 131072 = y div 256 div 2" "unat a div 268435456 = y div 65536 div 16"
    by (simp_all add: y_def div_mult2_eq [symmetric])
  have bc: "a = 0xFFFFFFFF \<Longrightarrow> y div 65536 div 16 = 15" by (simp add: y_def)
  show ?thesis
    unfolding v4_always_blocked_def v4_is_documentation_def Let_def
    using bc
    by (simp add: t o u8_high word_le_nat_alt v4_octet_nat y_def [symmetric] nat_ranges reserved4_def same_prefix_nat d
        octet_pair [of 1 256, simplified] octet_pair [of 64 4, simplified] octet_pair [of 2 128, simplified] octet_triple
        cong: conj_cong) blast
qed

lemma v4_is_private_cidr: "v4_is_private a \<longleftrightarrow> list_ex (\<lambda>n. net_contains n (V4 a)) private4"
proof -
  define y where "y = unat a div 256"
  have o: "\<And>c. v4_octets a ! 0 = c \<longleftrightarrow> y div 65536 = unat c" "\<And>c. v4_octets a ! Suc 0 = c \<longleftrightarrow> y div 256 mod 256 = unat c"
    by (simp_all only: word_unat_eq_iff v4_octet_nat y_def)
  have d: "unat a div 16777216 = y div 65536" "unat a div 65536 = y div 256" "unat a div 1048576 = y div 256 div 16"
    by (simp_all add: y_def div_mult2_eq [symmetric])
  show ?thesis
    by (simp add: v4_is_private_def o word_le_nat_alt v4_octet_nat y_def [symmetric] nat_ranges private4_def same_prefix_nat d
        octet_pair [of 1 256, simplified] octet_pair [of 16 16, simplified] cong: conj_cong)
qed

lemma u16_masks: "(0xff00 :: u16) = not (mask 8)" "(0xffc0 :: u16) = not (mask 6)" "(0xfe00 :: u16) = not (mask 9)"
  by code_simp+

lemma u16_high:
  "and x 0xff00 = (0xff00::u16) \<longleftrightarrow> unat x div 256 = 255"
  "and x 0xffc0 = (0xfe80::u16) \<longleftrightarrow> unat x div 64 = 0x3fa"
  "and x 0xfe00 = (0xfc00::u16) \<longleftrightarrow> unat x div 512 = 0x7e"
  using high_bits [of 8 "0xff00::u16" x] high_bits [of 6 "0xfe80::u16" x] high_bits [of 9 "0xfc00::u16" x]
  by (simp_all only: u16_masks [symmetric]) (simp_all add: word_unat_eq_iff unat_drop_bit)

lemma v6_segment_nat:
  defines "S \<equiv> (65536::nat)"
  shows "unat (v6_segments a ! 0) = unat a div 2 ^ 64 div (S * S * S)"
    "unat (v6_segments a ! Suc 0) = unat a div 2 ^ 64 div (S * S) mod S"
    "unat (v6_segments a ! 2) = unat a div 2 ^ 64 div S mod S"
    "unat (v6_segments a ! 3) = unat a div 2 ^ 64 mod S"
proof -
  have "unat a < 2 ^ 128" using unsigned_less [of a] by simp
  then have "unat a div 2 ^ 112 < 65536" by (simp add: less_mult_imp_div_less)
  then show "unat (v6_segments a ! 0) = unat a div 2 ^ 64 div (S * S * S)"
    by (simp add: S_def v6_segments_def unsigned_ucast_eq take_bit_eq_mod unat_drop_bit div_mult2_eq [symmetric])
qed (simp_all add: S_def v6_segments_def unsigned_ucast_eq take_bit_eq_mod unat_drop_bit div_mult2_eq [symmetric])

lemma segment_pair:
  fixes y :: nat
  assumes "q < 65536"
  shows "y div 281474976710656 = p \<and> y div 4294967296 mod 65536 = q \<longleftrightarrow> y div 4294967296 = p * 65536 + q"
  using block_split [of 1 q 65536 "y div 4294967296" p] assms by (simp add: div_mult2_eq [symmetric])

lemma segment_quad:
  fixes y :: nat
  shows "y div 281474976710656 = p \<and> y div 4294967296 mod 65536 = 0 \<and> y div 65536 mod 65536 = 0 \<and> y mod 65536 = 0
           \<longleftrightarrow> y = p * 281474976710656"
proof -
  have "y div 65536 mod 65536 = 0 \<and> y mod 65536 = 0 \<longleftrightarrow> y mod 4294967296 = 0"
    using mod_mult2_eq [of y 65536 65536] by auto
  moreover have "y div 281474976710656 = p \<and> y div 4294967296 mod 65536 = 0 \<longleftrightarrow> y div 4294967296 = p * 65536"
    using segment_pair [of 0 y p] by simp
  moreover have "y div 4294967296 = p * 65536 \<and> y mod 4294967296 = 0 \<longleftrightarrow> y = p * 281474976710656"
    using block_split [of 1 0 4294967296 y "p * 65536"] by (simp add: mult.commute)
  ultimately show ?thesis by metis
qed

lemma same_prefix_full: "same_prefix LENGTH('a) a b \<longleftrightarrow> a = b" for a b :: "'a::len word"
  by (simp add: same_prefix_def)

lemma v6_always_blocked_cidr: "v6_always_blocked a \<longleftrightarrow> list_ex (\<lambda>n. net_contains n (V6 a)) reserved6"
proof -
  define y where "y = unat a div 2 ^ 64"
  have o: "\<And>c. v6_segments a ! 0 = c \<longleftrightarrow> y div 281474976710656 = unat c"
    "\<And>c. v6_segments a ! Suc 0 = c \<longleftrightarrow> y div 4294967296 mod 65536 = unat c"
    "\<And>c. v6_segments a ! 2 = c \<longleftrightarrow> y div 65536 mod 65536 = unat c"
    "\<And>c. v6_segments a ! 3 = c \<longleftrightarrow> y mod 65536 = unat c"
    using v6_segment_nat [of a] by (simp_all add: word_unat_eq_iff y_def)
  have h: "unat (v6_segments a ! 0) = y div 281474976710656"
    using v6_segment_nat(1) [of a] by (simp add: y_def)
  have q: "list_all (\<lambda>s. s = 0) (take 3 (drop (Suc 0) (v6_segments a))) \<longleftrightarrow>
      v6_segments a ! Suc 0 = 0 \<and> v6_segments a ! 2 = 0 \<and> v6_segments a ! 3 = 0"
    by (simp add: v6_segments_def upt_rec)
  have p: "same_prefix 8 a (push_bit 112 0xFF00) \<longleftrightarrow> y div 281474976710656 div 256 = 255"
    "same_prefix 10 a (push_bit 112 0xFE80) \<longleftrightarrow> y div 281474976710656 div 64 = 0x3fa"
    "same_prefix 32 a (push_bit 96 0x20010DB8) \<longleftrightarrow> y div 4294967296 = 0x20010DB8"
    "same_prefix 32 a (push_bit 96 0x20010000) \<longleftrightarrow> y div 4294967296 = 0x20010000"
    "same_prefix 32 a (push_bit 96 0x0064FF9B) \<longleftrightarrow> y div 4294967296 = 0x0064FF9B"
    "same_prefix 64 a (push_bit 112 0x0100) \<longleftrightarrow> y = 256 * 281474976710656"
    by (simp_all add: same_prefix_nat y_def div_mult2_eq [symmetric])
  have f: "same_prefix 128 a c \<longleftrightarrow> a = c" for c
    using same_prefix_full [of a c] by simp
  show ?thesis
    unfolding v6_always_blocked_def Let_def
    by (simp add: o h q f u16_high reserved6_def p [simplified] segment_pair segment_quad cong: conj_cong)
qed

lemma v6_private_cidr: "and (v6_segments a ! 0) 0xfe00 = 0xfc00 \<longleftrightarrow> list_ex (\<lambda>n. net_contains n (V6 a)) private6"
  using v6_segment_nat(1) [of a]
  by (simp add: u16_high private6_def same_prefix_nat div_mult2_eq [symmetric])

text \<open>An IPv4 address wrapped in IPv6: \<open>::ffff:a.b.c.d\<close>, or \<open>::a.b.c.d\<close> but for \<open>::\<close> and \<open>::1\<close>.\<close>

lemma canonicalize_V6:
  "canonicalize (V6 a) =
     (if drop_bit 32 a = 0xFFFF \<or> drop_bit 32 a = 0 \<and> a \<noteq> 0 \<and> a \<noteq> 1 then V4 (ucast a) else V6 a)"
proof -
  have "list_all (\<lambda>s. s = 0) (take 6 (v6_segments a)) \<longleftrightarrow> drop_bit 32 a = 0"
  proof
    assume *: "list_all (\<lambda>s. s = 0) (take 6 (v6_segments a))"
    show "drop_bit 32 a = 0"
    proof (rule bit_eqI)
      fix n assume "possible_bit TYPE(128 word) n"
      have "bit a (32 + n) \<Longrightarrow> False"
      proof -
        assume b: "bit a (32 + n)"
        then have "n < 96" using bit_imp_le_length by fastforce
        then have "n div 16 < 6" by (simp add: less_mult_imp_div_less)
        then have "v6_segments a ! (5 - n div 16) = 0"
          using * by (auto simp: list_all_length v6_segments_def)
        then have "(ucast (drop_bit (16 * (2 + n div 16)) a) :: u16) = 0"
          using \<open>n div 16 < 6\<close> nth_upt [of 0 "5 - n div 16" 8] by (simp add: v6_segments_def)
        then have "\<not> bit (ucast (drop_bit (16 * (2 + n div 16)) a) :: u16) (n mod 16)" by simp
        moreover have "16 * (2 + n div 16) + n mod 16 = 32 + n" by simp
        ultimately show False using b by (simp add: bit_simps del: distrib_left_numeral mult_Suc_right)
      qed
      then show "bit (drop_bit 32 a) n = bit (0::128 word) n" by (auto simp: bit_simps)
    qed
  next
    assume *: "drop_bit 32 a = 0"
    have "drop_bit (16 * (7 - i)) a = 0" if "i < 6" for i
    proof -
      have "drop_bit (16 * (7 - i)) a = drop_bit (16 * (5 - i)) (drop_bit 32 a)"
        using that by (simp add: drop_bit_drop_bit algebra_simps)
      then show ?thesis using * by simp
    qed
    then show "list_all (\<lambda>s. s = 0) (take 6 (v6_segments a))" by (simp add: list_all_length v6_segments_def)
  qed
  moreover have "or (push_bit 16 (ucast (v6_segments a ! 6))) (ucast (v6_segments a ! 7)) = (ucast a :: u32)"
    by (rule bit_eqI) (auto simp: v6_segments_def bit_simps)
  ultimately show ?thesis by (simp add: to_ipv4_mapped_def Let_def)
qed

lemma is_always_blocked_cidr:
  "is_always_blocked ip \<longleftrightarrow> list_ex (\<lambda>n. net_contains n ip) (reserved4 @ reserved6)"
  by (cases ip) (simp_all add: v4_always_blocked_cidr v6_always_blocked_cidr, simp_all add: reserved4_def reserved6_def)

lemma is_private_cidr:
  "is_private ip \<longleftrightarrow> list_ex (\<lambda>n. net_contains n ip) (private4 @ private6)"
  by (cases ip) (simp_all add: v4_is_private_cidr v6_private_cidr, simp_all add: private4_def private6_def)

text \<open>The guard's verdict, read off the table of networks after unwrapping an embedded IPv4 address.\<close>

definition unwrapped :: "IpAddr \<Rightarrow> IpAddr" where
  "unwrapped ip =
     (case ip of
        V4 a \<Rightarrow> V4 a
      | V6 a \<Rightarrow> if drop_bit 32 a = 0xFFFF \<or> drop_bit 32 a = 0 \<and> a \<noteq> 0 \<and> a \<noteq> 1 then V4 (ucast a) else V6 a)"

definition in_nets :: "IpNet list \<Rightarrow> IpAddr \<Rightarrow> bool" where
  "in_nets nets ip \<longleftrightarrow> list_ex (\<lambda>n. net_contains n ip) nets"

definition ssrf_safe :: "IpNet list \<Rightarrow> IpAddr \<Rightarrow> bool" where
  "ssrf_safe opted ip \<longleftrightarrow>
     (let a = unwrapped ip
      in \<not> in_nets (reserved4 @ reserved6) a \<and> (in_nets (private4 @ private6) a \<longrightarrow> in_nets opted a))"

lemma canonicalize_unwrapped: "canonicalize ip = unwrapped ip"
  by (cases ip) (simp_all add: canonicalize_V6 unwrapped_def del: canonicalize.simps(1))

lemma classify_Allowed_iff: "classify ip opted = Allowed \<longleftrightarrow> ssrf_safe opted ip"
  by (simp add: classify_def ssrf_safe_def in_nets_def canonicalize_unwrapped is_always_blocked_cidr is_private_cidr Let_def)

section \<open>What the connector may reach\<close>

lemma and_then_events: "set (fst (and_then m f)) \<subseteq> set (fst m) \<union> (\<Union>x. set (fst (f x)))"
  by (auto simp: and_then_def split: sum.splits)

lemma connect_and_send_dials:
  "Dialled a t \<in> set (fst (connect_and_send net addr host use_tls ct mb request)) \<Longrightarrow> a = addr \<and> t = ct"
  by (auto simp: connect_and_send_def and_then_def tls_connect_def handshake_def send_on_def Let_def
      split: sum.splits if_splits option.splits)

lemma connect_and_send_tls:
  "TlsTo h \<in> set (fst (connect_and_send net addr host use_tls ct mb request)) \<Longrightarrow> h = host \<and> use_tls"
  by (auto simp: connect_and_send_def and_then_def tls_connect_def handshake_def send_on_def Let_def
      split: sum.splits if_splits option.splits)

lemma connect_and_send_result:
  "snd (connect_and_send net addr host use_tls ct mb request) = Inr (body, cap') \<Longrightarrow>
     cap' = mb \<and> Dialled addr ct \<in> set (fst (connect_and_send net addr host use_tls ct mb request))"
  by (auto simp: connect_and_send_def and_then_def tls_connect_def handshake_def send_on_def Let_def
      split: sum.splits if_splits option.splits)

lemma connect_and_send_sends:
  "Sent r \<in> set (fst (connect_and_send net addr host use_tls ct mb request)) \<Longrightarrow> out_authority r = None"
  by (auto simp: connect_and_send_def and_then_def tls_connect_def handshake_def send_on_def origin_form_def Let_def
      split: sum.splits if_splits option.splits)

lemma resolve_and_connect_dials:
  assumes "Dialled addr t \<in> set (fst (resolve_and_connect net host port p use_tls ct mb request))"
  shows "\<exists>rest. net_resolve net host port = Inr (addr # rest) \<and> all_addresses_allowed (addr # rest) p \<and> t = ct"
  using assms
  by (auto simp: resolve_and_connect_def and_then_def Let_def dest: connect_and_send_dials
      split: sum.splits list.splits if_splits)

lemma resolve_and_connect_tls:
  "TlsTo h \<in> set (fst (resolve_and_connect net host port p use_tls ct mb request)) \<Longrightarrow> h = host \<and> use_tls"
  by (auto simp: resolve_and_connect_def and_then_def Let_def dest: connect_and_send_tls
      split: sum.splits list.splits if_splits)

lemma resolve_and_connect_result:
  assumes "snd (resolve_and_connect net host port p use_tls ct mb request) = Inr (body, cap')"
  shows "cap' = mb \<and> (\<exists>addr. Dialled addr ct \<in> set (fst (resolve_and_connect net host port p use_tls ct mb request)))"
  using assms
  by (auto simp: resolve_and_connect_def and_then_def Let_def dest: connect_and_send_result
      split: sum.splits list.splits if_splits)

lemma send_request_task:
  assumes "send_request net stop st request use_tls = (st', ev, res)" "ev \<noteq> [] \<or> (\<exists>r. res = Inr r)"
  obtains host port where
    "authority_of request use_tls = Some (host, port)"
    "policy_allows (os_policy st) (if use_tls then SchemeHttps else SchemeHttp) host port"
    "run_task net stop (os_policy st) host port use_tls request = (ev, res)"
  using assms by (auto simp: send_request_def dispatch_def Let_def split: option.splits if_splits prod.splits)

lemma run_task_events:
  assumes "run_task net stop p host port use_tls request = (ev, res)"
  shows "set ev \<subseteq> set (fst (resolve_and_connect net host port p use_tls (op_connect_timeout p) (op_max_response_bytes p) request))"
    and "res = Inr r \<Longrightarrow> resolve_and_connect net host port p use_tls (op_connect_timeout p) (op_max_response_bytes p) request = (ev, res)"
  using assms set_take_subset by (fastforce simp: run_task_def split: prod.splits option.splits)+

section \<open>Properties\<close>

lemma send_request_vetted:
  assumes "send_request net stop st request use_tls = (st', ev, res)"
  defines "scheme \<equiv> if use_tls then SchemeHttps else SchemeHttp"
  shows "Dialled addr t \<in> set ev \<longrightarrow>
      (\<exists>host port rest.
         authority_of request use_tls = Some (host, port) \<and> policy_allows (os_policy st) scheme host port \<and>
         net_resolve net host port = Inr (addr # rest) \<and> t = op_connect_timeout (os_policy st) \<and>
         list_all (\<lambda>a. ssrf_safe (op_allow_private (os_policy st)) (fst a)) (addr # rest))"
    and "TlsTo h \<in> set ev \<longrightarrow> (\<exists>port. authority_of request use_tls = Some (h, port))"
    and "res = Inr (body, cap') \<longrightarrow>
      cap' = op_max_response_bytes (os_policy st) \<and> (\<exists>addr t. Dialled addr t \<in> set ev)"
    and "(\<forall>host port. authority_of request use_tls = Some (host, port) \<longrightarrow> \<not> policy_allows (os_policy st) scheme host port)
      \<longrightarrow> ev = [] \<and> st' = st"
proof (goal_cases)
  case 1
  show ?case
  proof
    assume d: "Dialled addr t \<in> set ev"
    then have "ev \<noteq> [] \<or> (\<exists>r. res = Inr r)" by auto
    from send_request_task [OF assms(1) this] obtain host port where
      a: "authority_of request use_tls = Some (host, port)" "policy_allows (os_policy st) scheme host port"
      and r: "run_task net stop (os_policy st) host port use_tls request = (ev, res)"
      unfolding scheme_def by metis
    with resolve_and_connect_dials [OF subsetD [OF run_task_events(1) [OF r] d]] a
    show "\<exists>host port rest.
         authority_of request use_tls = Some (host, port) \<and> policy_allows (os_policy st) scheme host port \<and>
         net_resolve net host port = Inr (addr # rest) \<and> t = op_connect_timeout (os_policy st) \<and>
         list_all (\<lambda>a. ssrf_safe (op_allow_private (os_policy st)) (fst a)) (addr # rest)"
      by (auto simp: all_addresses_allowed_def classify_Allowed_iff)
  qed
next
  case 2
  show ?case
    using send_request_task [OF assms(1)] run_task_events(1) resolve_and_connect_tls
    by (metis empty_iff empty_set subsetD)
next
  case 3
  show ?case
    using send_request_task [OF assms(1)] run_task_events(2) resolve_and_connect_result
    by (metis fst_conv snd_conv)
next
  case 4
  show ?case
    using assms(1) unfolding scheme_def
    by (auto simp: send_request_def dispatch_def Let_def split: option.splits if_splits)
qed

text \<open>C2: The SSRF guard, for every network and at whatever point the deadline cuts the call. An address
  is dialled only for a destination on the operator's allowlist, it is the first the name resolved
  to, and no resolved address (unwrapped if it embeds an IPv4 one) lies in a reserved network, or in
  a private one the operator did not opt into; TLS is verified against the requested host; a response
  comes only from a dialled address and carries the policy's cap on its body. A destination that is
  not listed causes no network activity.\<close>

theorem outbound_vetted:
  assumes "send_request net stop st request use_tls = (st', ev, res)"
  shows "(\<forall>addr t. Dialled addr t \<in> set ev \<longrightarrow>
      (\<exists>host port rest.
         authority_of request use_tls = Some (host, port) \<and>
         policy_allows (os_policy st) (if use_tls then SchemeHttps else SchemeHttp) host port \<and>
         net_resolve net host port = Inr (addr # rest) \<and> t = op_connect_timeout (os_policy st) \<and>
         list_all (\<lambda>a. ssrf_safe (op_allow_private (os_policy st)) (fst a)) (addr # rest))) \<and>
    (\<forall>h. TlsTo h \<in> set ev \<longrightarrow> (\<exists>port. authority_of request use_tls = Some (h, port))) \<and>
    (\<forall>body cap'. res = Inr (body, cap') \<longrightarrow>
      cap' = op_max_response_bytes (os_policy st) \<and> (\<exists>addr t. Dialled addr t \<in> set ev)) \<and>
    ((\<forall>host port. authority_of request use_tls = Some (host, port) \<longrightarrow>
        \<not> policy_allows (os_policy st) (if use_tls then SchemeHttps else SchemeHttp) host port)
      \<longrightarrow> ev = [] \<and> st' = st)"
  using send_request_vetted [OF assms] by (intro conjI allI)

definition example_policy :: OutboundPolicy where
  "example_policy =
     \<lparr>op_allow = [\<lparr>allow_scheme = SchemeHttps, allow_host = ''idp.example'', allow_port = 443\<rparr>],
      op_allow_private = [], op_connect_timeout = 2000, op_total_timeout = 5000, op_max_response_bytes = 65536,
      op_max_concurrent = 2\<rparr>"

definition example_network :: "SocketAddr list \<Rightarrow> bytes network" where
  "example_network addrs =
     \<lparr>net_resolve = (\<lambda>_ _. Inr addrs), net_connect = (\<lambda>_ _. Inr ()), net_client_config = True,
      net_server_name = (\<lambda>_. True), net_tls = (\<lambda>_. Inr ()), net_handshake = Inr (), net_uri_ok = (\<lambda>_. True),
      net_send = (\<lambda>_. Inr [1, 2, 3])\<rparr>"

definition example_request :: OutRequest where
  "example_request =
     \<lparr>out_authority = Some (''IDP.example'', None, Some ''IDP.example''), out_host = None, out_path = Some ''/jwks''\<rparr>"

theorem outbound_vetted_witness:
  "(\<exists>ev. send_request (example_network [(V4 0x5DB8D822, 443)]) None (OutboundState_new example_policy) example_request True
     = ((OutboundState_new example_policy)\<lparr>os_permits := 1\<rparr>, ev, Inr ([1, 2, 3], 65536)) \<and>
     (\<exists>addr t. Dialled addr t \<in> set ev)) \<and>
   snd (snd (send_request (example_network [(V4 0x5DB8D822, 443), (V6 (push_bit 32 0xFFFF + 0xA9FEA9FE), 443)]) None
     (OutboundState_new example_policy) example_request True)) = Inl DestinationIpProhibited"
proof -
  let ?call = "send_request (example_network [(V4 0x5DB8D822, 443)]) None (OutboundState_new example_policy) example_request True"
  have st: "fst ?call = (OutboundState_new example_policy)\<lparr>os_permits := 1\<rparr>" by code_simp
  have res: "snd (snd ?call) = Inr ([1, 2, 3], 65536)" by code_simp
  have call: "?call = ((OutboundState_new example_policy)\<lparr>os_permits := 1\<rparr>, fst (snd ?call), Inr ([1, 2, 3], 65536))"
    using st res by (metis prod.collapse)
  moreover have "\<exists>addr t. Dialled addr t \<in> set (fst (snd ?call))"
    using outbound_vetted [OF call] by blast
  moreover have "snd (snd (send_request (example_network [(V4 0x5DB8D822, 443), (V6 (push_bit 32 0xFFFF + 0xA9FEA9FE), 443)]) None
     (OutboundState_new example_policy) example_request True)) = Inl DestinationIpProhibited"
    by code_simp
  ultimately show ?thesis by blast
qed

text \<open>An IPv4 address can also be wrapped by 6to4 (\<open>2002::/16\<close>), which is not in the table: the wrapped
  loopback address \<open>2002:7f00:1::\<close> passes the guard.\<close>

theorem sixtofour_passes: "classify (V6 (push_bit 80 0x20027F000001)) [] = Allowed"
  by code_simp

text \<open>The calls a filter makes over time: a request is sent, or a task ends and drops its permit.\<close>

datatype out_op = SendOp OutRequest bool | EndOp

fun out_step :: "OutboundState \<times> nat \<Rightarrow> out_op \<Rightarrow> OutboundState \<times> nat" where
  "out_step (st, n) (SendOp r use_tls) =
     (case dispatch st r use_tls of (st', Pending _ _) \<Rightarrow> (st', Suc n) | (st', ReadyErr _) \<Rightarrow> (st', n))"
| "out_step (st, n) EndOp = (if n = 0 then (st, n) else (task_done st, n - 1))"

lemma out_step_inv:
  assumes "os_policy st = p \<and> n + os_permits st = unat (op_max_concurrent p)"
  shows "case out_step (st, n) op of (st, n) \<Rightarrow> os_policy st = p \<and> n + os_permits st = unat (op_max_concurrent p)"
  using assms
  by (cases op) (auto simp: dispatch_def task_done_def Let_def split: option.splits)

lemma out_run_inv:
  assumes "os_policy st = p \<and> n + os_permits st = unat (op_max_concurrent p)"
  shows "case foldl out_step (st, n) ops of (st, n) \<Rightarrow> os_policy st = p \<and> n + os_permits st = unat (op_max_concurrent p)"
  using assms
proof (induction ops arbitrary: st n)
  case (Cons op ops)
  then show ?case using out_step_inv [OF Cons.prems, of op] by (cases "out_step (st, n) op") auto
qed simp

text \<open>However a filter's calls interleave, the calls in flight and the free permits add up to the
  policy's \<open>max_concurrent\<close>, and a listed destination is refused for the limit exactly when that many
  calls are in flight.\<close>

theorem outbound_concurrency:
  "case foldl out_step (OutboundState_new p, 0) ops of (st, n) \<Rightarrow>
     n + os_permits st = unat (op_max_concurrent p) \<and>
     (snd (dispatch st request use_tls) = ReadyErr ConnectionLimitReached \<longleftrightarrow>
        n = unat (op_max_concurrent p) \<and>
        (\<exists>host port. authority_of request use_tls = Some (host, port) \<and>
           policy_allows p (if use_tls then SchemeHttps else SchemeHttp) host port))"
proof -
  have "case foldl out_step (OutboundState_new p, 0) ops of (st, n) \<Rightarrow>
      os_policy st = p \<and> n + os_permits st = unat (op_max_concurrent p)"
    by (rule out_run_inv) (simp add: OutboundState_new_def)
  then show ?thesis
    by (auto simp: dispatch_def Let_def split: option.splits if_splits)
qed

end
