(* ===== verification/HostBackend.thy ===== *)
theory HostBackend
  imports Prelude
begin

text \<open>
  The host-held state backend, \<open>host/src/backend.rs\<close>: the token-bucket arithmetic, the byte
  codecs of counters and buckets, the \<open>KvBackend\<close> trait as a record of functions on an explicit
  store, and its two implementations. \<open>MemoryBackend\<close> keeps a map from keys to values; the locks
  are non-poisoning and every method holds the lock for its whole body, so each method is one
  atomic function on the map. \<open>RedbBackend\<close> runs each method as a transaction of the redb
  database, which is a parameter of the model.
\<close>

section \<open>The token bucket\<close>

record Bucket =
  capacity :: u64
  refill_tokens :: u64
  refill_interval_ms :: u64

record Acquire =
  allowed :: bool
  remaining :: u64
  retry_after_ms :: u64

definition no_refill :: "Bucket \<Rightarrow> bool" where
  "no_refill spec \<longleftrightarrow> refill_interval_ms spec = 0 \<or> refill_tokens spec = 0"

definition refill_state :: "(u64 \<times> u64) option \<Rightarrow> Bucket \<Rightarrow> u64 \<Rightarrow> u64 \<times> u64" where
  "refill_state state spec now_ms =
     (case state of
        None \<Rightarrow> (capacity spec, now_ms)
      | Some (tokens, lst) \<Rightarrow>
          if no_refill spec then (min tokens (capacity spec), lst)
          else
            let intervals = sat_sub now_ms lst div refill_interval_ms spec;
                refilled = min (sat_add tokens (sat_mul intervals (refill_tokens spec)))
                               (capacity spec);
                advanced = sat_add lst (sat_mul intervals (refill_interval_ms spec))
            in (refilled, advanced))"

definition apply_bucket ::
  "(u64 \<times> u64) option \<Rightarrow> u64 \<Rightarrow> Bucket \<Rightarrow> u64 \<Rightarrow> (u64 \<times> u64) \<times> Acquire" where
  "apply_bucket state cost spec now_ms =
     (let (tokens, last_refill) = refill_state state spec now_ms in
      if cost \<le> tokens then
        let rem = tokens - cost in
        ((rem, last_refill), \<lparr>allowed = True, remaining = rem, retry_after_ms = 0\<rparr>)
      else
        let retry =
          (if no_refill spec then - 1
           else sat_mul (div_ceil (cost - tokens) (refill_tokens spec))
                  (refill_interval_ms spec))
        in ((tokens, last_refill),
            \<lparr>allowed = False, remaining = tokens, retry_after_ms = retry\<rparr>))"

section \<open>Byte codecs\<close>

definition decode_i64 :: "bytes \<Rightarrow> i64" where
  "decode_i64 bs = (let n = min (length bs) 8 in from_le (take n bs @ replicate (8 - n) 0))"

definition decode_bucket :: "bytes \<Rightarrow> (u64 \<times> u64) option" where
  "decode_bucket bs =
     (if length bs \<noteq> 16 then None
      else Some (from_le (take 8 bs), from_le (take 8 (drop 8 bs))))"

definition encode_bucket :: "u64 \<times> u64 \<Rightarrow> bytes" where
  "encode_bucket st = to_le 8 (fst st) @ to_le 8 (snd st)"

definition bucket_input :: "bytes option \<Rightarrow> u64 \<Rightarrow> (u64 \<times> u64) option" where
  "bucket_input raw now_ms =
     map_option (\<lambda>bs. case decode_bucket bs of None \<Rightarrow> (0, now_ms) | Some st \<Rightarrow> st) raw"

section \<open>The trait and the in-memory implementation\<close>

record 's KvBackend =
  kv_get :: "'s \<Rightarrow> bytes \<Rightarrow> bytes option"
  kv_set :: "'s \<Rightarrow> bytes \<Rightarrow> bytes \<Rightarrow> 's"
  kv_delete :: "'s \<Rightarrow> bytes \<Rightarrow> 's"
  kv_increment :: "'s \<Rightarrow> bytes \<Rightarrow> i64 \<Rightarrow> 's \<times> i64"
  kv_try_acquire :: "'s \<Rightarrow> bytes \<Rightarrow> u64 \<Rightarrow> Bucket \<Rightarrow> u64 \<Rightarrow> 's \<times> Acquire"

type_synonym mem_map = "bytes \<Rightarrow> bytes option"

definition mem_get :: "mem_map \<Rightarrow> bytes \<Rightarrow> bytes option" where
  "mem_get m key = m key"

definition mem_set :: "mem_map \<Rightarrow> bytes \<Rightarrow> bytes \<Rightarrow> mem_map" where
  "mem_set m key val = m(key \<mapsto> val)"

definition mem_delete :: "mem_map \<Rightarrow> bytes \<Rightarrow> mem_map" where
  "mem_delete m key = m(key := None)"

definition mem_increment :: "mem_map \<Rightarrow> bytes \<Rightarrow> i64 \<Rightarrow> mem_map \<times> i64" where
  "mem_increment m key delta =
     (let cur = decode_i64 (case m key of None \<Rightarrow> [] | Some bs \<Rightarrow> bs) in
      if delta = 0 then (m, cur)
      else let next = ssat_add cur delta in (m(key \<mapsto> to_le 8 next), next))"

definition mem_try_acquire ::
  "mem_map \<Rightarrow> bytes \<Rightarrow> u64 \<Rightarrow> Bucket \<Rightarrow> u64 \<Rightarrow> mem_map \<times> Acquire" where
  "mem_try_acquire m key cost spec now_ms =
     (let prev = bucket_input (m key) now_ms;
          (next, result) = apply_bucket prev cost spec now_ms
      in (m(key \<mapsto> encode_bucket next), result))"

definition MemoryBackend :: "mem_map KvBackend" where
  "MemoryBackend = \<lparr>kv_get = mem_get, kv_set = mem_set, kv_delete = mem_delete,
     kv_increment = mem_increment, kv_try_acquire = mem_try_acquire\<rparr>"

section \<open>The redb implementation\<close>

text \<open>The redb database, as the functions of its API that the backend calls. A write transaction
  that is not committed is aborted when it is dropped, so only \<open>commit\<close> returns a new database.\<close>

datatype 'e TableError = TableDoesNotExist | OtherTableError 'e

record ('db, 'r, 'w, 't, 'e) redb =
  begin_read :: "'db \<Rightarrow> 'e + 'r"
  open_read_table :: "'r \<Rightarrow> 'e TableError + 't"
  begin_write :: "'db \<Rightarrow> 'e + 'w"
  set_durability_none :: "'w \<Rightarrow> 'e + 'w"
  open_write_table :: "'w \<Rightarrow> 'e + 't"
  table_get :: "'t \<Rightarrow> bytes \<Rightarrow> 'e + bytes option"
  table_insert :: "'t \<Rightarrow> bytes \<Rightarrow> bytes \<Rightarrow> 'e + 't"
  table_remove :: "'t \<Rightarrow> bytes \<Rightarrow> 'e + 't"
  commit :: "'db \<Rightarrow> 'w \<Rightarrow> 't \<Rightarrow> 'db \<times> ('e + unit)"

definition get_inner :: "('db, 'r, 'w, 't, 'e) redb \<Rightarrow> 'db \<Rightarrow> bytes \<Rightarrow> 'e + bytes option" where
  "get_inner R db key = bind_res (begin_read R db) (\<lambda>rtxn.
     case open_read_table R rtxn of
       Inr table \<Rightarrow> table_get R table key
     | Inl TableDoesNotExist \<Rightarrow> Inr None
     | Inl (OtherTableError e) \<Rightarrow> Inl e)"

text \<open>Commit the result of a write transaction, or leave the database as it was.\<close>

definition finish_write ::
  "('db, 'r, 'w, 't, 'e) redb \<Rightarrow> 'db \<Rightarrow> 'e + ('w \<times> 't \<times> 'a) \<Rightarrow> 'db \<times> ('e + 'a)" where
  "finish_write R db body =
     (case body of
        Inl e \<Rightarrow> (db, Inl e)
      | Inr (wtxn, table, a) \<Rightarrow>
          (case commit R db wtxn table of
             (db', Inl e) \<Rightarrow> (db', Inl e)
           | (db', Inr _) \<Rightarrow> (db', Inr a)))"

definition set_inner ::
  "('db, 'r, 'w, 't, 'e) redb \<Rightarrow> 'db \<Rightarrow> bytes \<Rightarrow> bytes \<Rightarrow> 'db \<times> ('e + unit)" where
  "set_inner R db key val = finish_write R db (
     bind_res (begin_write R db) (\<lambda>wtxn.
     bind_res (open_write_table R wtxn) (\<lambda>table.
     bind_res (table_insert R table key val) (\<lambda>table'.
     Inr (wtxn, table', ())))))"

definition delete_inner ::
  "('db, 'r, 'w, 't, 'e) redb \<Rightarrow> 'db \<Rightarrow> bytes \<Rightarrow> 'db \<times> ('e + unit)" where
  "delete_inner R db key = finish_write R db (
     bind_res (begin_write R db) (\<lambda>wtxn.
     bind_res (open_write_table R wtxn) (\<lambda>table.
     bind_res (table_remove R table key) (\<lambda>table'.
     Inr (wtxn, table', ())))))"

definition increment_inner ::
  "('db, 'r, 'w, 't, 'e) redb \<Rightarrow> 'db \<Rightarrow> bytes \<Rightarrow> i64 \<Rightarrow> 'db \<times> ('e + i64)" where
  "increment_inner R db key delta = finish_write R db (
     bind_res (begin_write R db) (\<lambda>wtxn0.
     bind_res (set_durability_none R wtxn0) (\<lambda>wtxn.
     bind_res (open_write_table R wtxn) (\<lambda>table.
     bind_res (table_get R table key) (\<lambda>g.
     let cur = (case g of None \<Rightarrow> 0 | Some bs \<Rightarrow> decode_i64 bs);
         next = ssat_add cur delta
     in bind_res (table_insert R table key (to_le 8 next)) (\<lambda>table'.
        Inr (wtxn, table', next)))))))"

definition try_acquire_inner ::
  "('db, 'r, 'w, 't, 'e) redb \<Rightarrow> 'db \<Rightarrow> bytes \<Rightarrow> u64 \<Rightarrow> Bucket \<Rightarrow> u64 \<Rightarrow> 'db \<times> ('e + Acquire)" where
  "try_acquire_inner R db key cost spec now_ms = finish_write R db (
     bind_res (begin_write R db) (\<lambda>wtxn0.
     bind_res (set_durability_none R wtxn0) (\<lambda>wtxn.
     bind_res (open_write_table R wtxn) (\<lambda>table.
     bind_res (table_get R table key) (\<lambda>g.
     let (next, result) = apply_bucket (bucket_input g now_ms) cost spec now_ms
     in bind_res (table_insert R table key (encode_bucket next)) (\<lambda>table'.
        Inr (wtxn, table', result)))))))"

definition redb_get :: "('db, 'r, 'w, 't, 'e) redb \<Rightarrow> 'db \<Rightarrow> bytes \<Rightarrow> bytes option" where
  "redb_get R db key = (case get_inner R db key of Inr v \<Rightarrow> v | Inl e \<Rightarrow> None)"

definition redb_increment ::
  "('db, 'r, 'w, 't, 'e) redb \<Rightarrow> 'db \<Rightarrow> bytes \<Rightarrow> i64 \<Rightarrow> 'db \<times> i64" where
  "redb_increment R db key delta =
     (let (db', r) =
        (if delta = 0
         then (db, bind_res (get_inner R db key)
                (\<lambda>opt. Inr (decode_i64 (case opt of None \<Rightarrow> [] | Some bs \<Rightarrow> bs))))
         else increment_inner R db key delta)
      in (db', case r of Inr v \<Rightarrow> v | Inl e \<Rightarrow> 0))"

definition redb_try_acquire ::
  "('db, 'r, 'w, 't, 'e) redb \<Rightarrow> 'db \<Rightarrow> bytes \<Rightarrow> u64 \<Rightarrow> Bucket \<Rightarrow> u64 \<Rightarrow> 'db \<times> Acquire" where
  "redb_try_acquire R db key cost spec now_ms =
     (case try_acquire_inner R db key cost spec now_ms of
        (db', Inr r) \<Rightarrow> (db', r)
      | (db', Inl e) \<Rightarrow> (db', \<lparr>allowed = False, remaining = 0,
                            retry_after_ms = refill_interval_ms spec\<rparr>))"

definition RedbBackend :: "('db, 'r, 'w, 't, 'e) redb \<Rightarrow> 'db KvBackend" where
  "RedbBackend R = \<lparr>kv_get = redb_get R,
     kv_set = (\<lambda>db key val. fst (set_inner R db key val)),
     kv_delete = (\<lambda>db key. fst (delete_inner R db key)),
     kv_increment = redb_increment R, kv_try_acquire = redb_try_acquire R\<rparr>"

section \<open>Facts about the token bucket\<close>

text \<open>The refill step over the natural numbers: how many whole intervals have elapsed, and what
  that leaves in the bucket.\<close>

definition elapsed :: "Bucket \<Rightarrow> u64 \<Rightarrow> u64 \<Rightarrow> nat" where
  "elapsed spec lst now_ms = (unat now_ms - unat lst) div unat (refill_interval_ms spec)"

lemma refill_state_Some:
  assumes "\<not> no_refill spec"
  shows "unat (fst (refill_state (Some (t, l)) spec now_ms)) =
           min (unat t + elapsed spec l now_ms * unat (refill_tokens spec)) (unat (capacity spec))"
    and "unat (snd (refill_state (Some (t, l)) spec now_ms)) =
           unat l + elapsed spec l now_ms * unat (refill_interval_ms spec)"
proof -
  let ?i = "elapsed spec l now_ms"
  have iv: "unat (sat_sub now_ms l div refill_interval_ms spec) = ?i"
    by (simp add: elapsed_def unat_div_distrib unat_sat_sub)
  have cap: "unat (capacity spec) \<le> 2 ^ 64 - 1"
    using unat_le_max [of "capacity spec"] by simp
  show "unat (fst (refill_state (Some (t, l)) spec now_ms)) =
           min (unat t + ?i * unat (refill_tokens spec)) (unat (capacity spec))"
    using assms cap by (simp add: refill_state_def Let_def sat_arith iv)
  have "?i * unat (refill_interval_ms spec) \<le> unat now_ms - unat l"
    by (simp add: elapsed_def)
  then have "unat l + ?i * unat (refill_interval_ms spec) \<le> max (unat l) (unat now_ms)"
    by linarith
  also have "\<dots> \<le> 2 ^ 64 - 1"
    using unat_le_max [of l] unat_le_max [of now_ms] by simp
  finally have "unat l + ?i * unat (refill_interval_ms spec) \<le> 2 ^ 64 - 1" .
  then show "unat (snd (refill_state (Some (t, l)) spec now_ms)) =
           unat l + ?i * unat (refill_interval_ms spec)"
    using assms by (simp add: refill_state_def Let_def sat_arith iv)
qed

lemma refill_le_capacity: "fst (refill_state st spec now_ms) \<le> capacity spec"
  by (auto simp: refill_state_def Let_def split: option.splits)

lemma apply_bucket_state:
  "fst (apply_bucket st cost spec now_ms) =
     (if cost \<le> fst (refill_state st spec now_ms)
      then (fst (refill_state st spec now_ms) - cost, snd (refill_state st spec now_ms))
      else refill_state st spec now_ms)"
  by (auto simp: apply_bucket_def Let_def split: prod.splits)

lemma apply_bucket_outcome:
  "allowed (snd (apply_bucket st cost spec now_ms)) \<longleftrightarrow> cost \<le> fst (refill_state st spec now_ms)"
  "remaining (snd (apply_bucket st cost spec now_ms)) = fst (fst (apply_bucket st cost spec now_ms))"
  by (auto simp: apply_bucket_def Let_def split: prod.splits)

lemma apply_bucket_retry:
  "retry_after_ms (snd (apply_bucket st cost spec now_ms)) =
     (if cost \<le> fst (refill_state st spec now_ms) then 0
      else if no_refill spec then - 1
      else sat_mul (div_ceil (cost - fst (refill_state st spec now_ms)) (refill_tokens spec))
             (refill_interval_ms spec))"
  by (auto simp: apply_bucket_def Let_def split: prod.splits)

lemmas apply_bucket_simps = apply_bucket_state apply_bucket_outcome apply_bucket_retry

lemma apply_bucket_le_capacity: "fst (fst (apply_bucket st cost spec now_ms)) \<le> capacity spec"
  using refill_le_capacity [of st spec now_ms]
  by (auto simp: apply_bucket_state word_le_nat_alt unat_sub)

lemma apply_bucket_conserves:
  assumes "\<not> no_refill spec" "apply_bucket (Some (t, l)) cost spec now_ms = ((t', l'), a)"
  shows "unat t' + (if allowed a then unat cost else 0)
           \<le> unat t + elapsed spec l now_ms * unat (refill_tokens spec)"
    and "unat l' = unat l + elapsed spec l now_ms * unat (refill_interval_ms spec)"
proof -
  have eq: "(t', l') = fst (apply_bucket (Some (t, l)) cost spec now_ms)"
    "a = snd (apply_bucket (Some (t, l)) cost spec now_ms)" using assms by simp_all
  show "unat t' + (if allowed a then unat cost else 0)
           \<le> unat t + elapsed spec l now_ms * unat (refill_tokens spec)"
    using eq refill_state_Some(1) [OF assms(1), of t l now_ms]
    by (auto simp: apply_bucket_simps word_le_nat_alt unat_sub split: if_splits
        dest: arg_cong [of _ _ fst])
  show "unat l' = unat l + elapsed spec l now_ms * unat (refill_interval_ms spec)"
    using eq refill_state_Some(2) [OF assms(1), of t l now_ms]
    by (auto simp: apply_bucket_simps split: if_splits dest: arg_cong [of _ _ snd])
qed

text \<open>A sequence of acquires, each a cost and a clock reading, on one bucket: the final state and
  the tokens granted in all.\<close>

fun bucket_run ::
  "(u64 \<times> u64) option \<Rightarrow> Bucket \<Rightarrow> (u64 \<times> u64) list \<Rightarrow> nat" where
  "bucket_run st spec [] = 0"
| "bucket_run st spec ((cost, now_ms) # cs) =
     (let (st', a) = apply_bucket st cost spec now_ms in
      (if allowed a then unat cost else 0) + bucket_run (Some st') spec cs)"

lemma elapsed_split:
  assumes "unat now_ms \<le> N" "0 < unat (refill_interval_ms spec)"
  shows "(N - (unat l + elapsed spec l now_ms * unat (refill_interval_ms spec)))
            div unat (refill_interval_ms spec) + elapsed spec l now_ms
         = (N - unat l) div unat (refill_interval_ms spec)"
proof -
  let ?iv = "unat (refill_interval_ms spec)" and ?i = "elapsed spec l now_ms"
  have le: "?i * ?iv \<le> unat now_ms - unat l" by (simp add: elapsed_def)
  then have "?i * ?iv \<le> N - unat l" using assms(1) by linarith
  then have "N - unat l = (N - (unat l + ?i * ?iv)) + ?i * ?iv" by simp
  then show ?thesis using assms(2) by (metis div_mult_self1 not_less0 add.commute)
qed

lemma bucket_run_bound:
  assumes "\<not> no_refill spec" "\<forall>(c, n) \<in> set cs. unat n \<le> N"
  shows "bucket_run (Some (t, l)) spec cs
           \<le> unat t + unat (refill_tokens spec) * ((N - unat l) div unat (refill_interval_ms spec))"
  using assms(2)
proof (induction cs arbitrary: t l)
  case (Cons c cs)
  obtain cost now_ms where c: "c = (cost, now_ms)" by force
  obtain t' l' a where ab: "apply_bucket (Some (t, l)) cost spec now_ms = ((t', l'), a)"
    by (metis prod.collapse)
  let ?iv = "unat (refill_interval_ms spec)" and ?r = "unat (refill_tokens spec)"
  let ?g = "if allowed a then unat cost else 0"
  have pos: "0 < ?iv" using assms(1) by (simp add: no_refill_def unat_gt_0)
  have "?g + bucket_run (Some (t', l')) spec cs
         \<le> ?g + unat t' + ?r * ((N - unat l') div ?iv)"
    using Cons by (simp add: c)
  also have "\<dots> \<le> unat t + ?r * (elapsed spec l now_ms + (N - unat l') div ?iv)"
    using apply_bucket_conserves(1) [OF assms(1) ab] by (simp add: algebra_simps)
  also have "elapsed spec l now_ms + (N - unat l') div ?iv = (N - unat l) div ?iv"
    using elapsed_split [of now_ms N spec l] pos Cons.prems
    by (simp add: c apply_bucket_conserves(2) [OF assms(1) ab])
  finally show ?case by (simp add: c ab)
qed simp

lemma bucket_run_no_refill:
  assumes "no_refill spec"
  shows "bucket_run (Some (t, l)) spec cs \<le> unat (min t (capacity spec))"
proof (induction cs arbitrary: t l)
  case (Cons c cs)
  obtain cost now_ms where c: "c = (cost, now_ms)" by force
  obtain t' l' a where ab: "apply_bucket (Some (t, l)) cost spec now_ms = ((t', l'), a)"
    by (metis prod.collapse)
  have "unat t' + (if allowed a then unat cost else 0) \<le> unat (min t (capacity spec))"
    using ab assms
    by (auto simp: apply_bucket_def refill_state_def Let_def word_le_nat_alt unat_sub
        split: if_splits)
  then show ?case using Cons [of t' l'] by (auto simp: c ab unat_min)
qed simp

lemma bucket_run_None:
  "bucket_run None spec ((cost, now_ms) # cs)
     = bucket_run (Some (capacity spec, now_ms)) spec ((cost, now_ms) # cs)"
  by (cases "no_refill spec") (auto simp: apply_bucket_def refill_state_def Let_def)

lemma bucket_run_fresh_bound:
  assumes "\<not> no_refill spec" "\<forall>(c, n) \<in> set cs. unat n \<le> N" "cs \<noteq> []"
  shows "bucket_run None spec cs \<le> unat (capacity spec) +
           unat (refill_tokens spec) * ((N - unat (snd (hd cs))) div unat (refill_interval_ms spec))"
proof -
  obtain c n cs' where cs: "cs = (c, n) # cs'" using assms(3) by (cases cs) auto
  show ?thesis
    unfolding cs bucket_run_None using bucket_run_bound [OF assms(1), of cs N] assms(2) cs by simp
qed

text \<open>A denied call leaves a state from which the wait it names is exactly what is missing.\<close>

lemma ceil_mult_bounds:
  fixes n r :: nat
  assumes "0 < r" "0 < n"
  shows "n \<le> (n + r - 1) div r * r" "((n + r - 1) div r - 1) * r < n"
proof -
  let ?q = "(n + r - 1) div r"
  have eq: "?q * r + (n + r - 1) mod r = n + r - 1" by simp
  have lt: "(n + r - 1) mod r < r" using assms(1) by simp
  show "n \<le> ?q * r" using eq lt by linarith
  have "?q * r \<le> n + r - 1" using eq by linarith
  then have "?q * r - r < n" using assms by linarith
  then show "(?q - 1) * r < n" by (simp add: diff_mult_distrib)
qed

lemma denied_state:
  assumes "apply_bucket st cost spec now_ms = ((t', l'), a)" "\<not> allowed a"
  shows "t' < cost" "(t', l') = refill_state st spec now_ms"
    and "retry_after_ms a = (if no_refill spec then - 1
           else sat_mul (div_ceil (cost - t') (refill_tokens spec)) (refill_interval_ms spec))"
  using assms by (auto simp: apply_bucket_def Let_def split: prod.splits if_splits)

lemma denied_wait:
  assumes "apply_bucket st cost spec now_ms = ((t', l'), a)" "\<not> allowed a"
    and "retry_after_ms a \<noteq> - 1"
  obtains k where "\<not> no_refill spec" "0 < k"
    "unat (retry_after_ms a) = k * unat (refill_interval_ms spec)"
    "unat cost \<le> unat t' + k * unat (refill_tokens spec)"
    "unat t' + (k - 1) * unat (refill_tokens spec) < unat cost"
proof -
  note d = denied_state [OF assms(1,2)]
  let ?r = "unat (refill_tokens spec)" and ?n = "unat (cost - t')"
  let ?k = "(?n + ?r - 1) div ?r"
  have nr: "\<not> no_refill spec" using d(3) assms(3) by auto
  then have r: "0 < ?r" by (simp add: no_refill_def unat_gt_0)
  have n: "?n = unat cost - unat t'" "0 < ?n"
    using d(1) by (simp_all add: unat_sub word_less_nat_alt word_le_nat_alt)
  have k: "unat (div_ceil (cost - t') (refill_tokens spec)) = ?k"
    by (rule unat_div_ceil) (use nr in \<open>simp add: no_refill_def\<close>)
  have "unat (retry_after_ms a) \<noteq> 2 ^ 64 - 1"
    using assms(3) unat_max_word [where 'a = 64] by (auto simp: word_unat_eq_iff)
  then have "unat (retry_after_ms a) = ?k * unat (refill_interval_ms spec)"
    using d(3) nr by (simp add: unat_sat_mul k min_def split: if_splits)
  moreover note ceil_mult_bounds [OF r n(2)]
  moreover have "0 < ?k" using r n(2) by (simp add: div_greater_zero_iff)
  ultimately show ?thesis using that [of ?k] nr n by linarith
qed

lemma refill_clock:
  assumes "\<not> no_refill spec" "case st of None \<Rightarrow> True | Some (t, l) \<Rightarrow> l \<le> now_ms"
  shows "unat (snd (refill_state st spec now_ms)) \<le> unat now_ms"
    and "unat now_ms < unat (snd (refill_state st spec now_ms)) + unat (refill_interval_ms spec)"
proof -
  have pos: "0 < unat (refill_interval_ms spec)"
    using assms(1) by (simp add: no_refill_def unat_gt_0)
  have "(unat n - unat l) div i * i \<le> unat n - unat l" "unat n - unat l < (unat n - unat l) div i * i + i"
    if "0 < i" for i and n l :: u64
    using dividend_less_div_times [OF that, of "unat n - unat l"] by (simp_all add: add.commute)
  note dv = this [OF pos]
  have "unat (snd (refill_state st spec now_ms)) \<le> unat now_ms \<and>
      unat now_ms < unat (snd (refill_state st spec now_ms)) + unat (refill_interval_ms spec)"
  proof (cases st)
    case None
    then show ?thesis using pos by (simp add: refill_state_def)
  next
    case (Some tl)
    obtain t l where tl: "tl = (t, l)" by force
    have "unat l \<le> unat now_ms" using assms(2) by (simp add: Some tl word_le_nat_alt)
    with dv [of now_ms l] show ?thesis
      unfolding Some tl refill_state_Some(2) [OF assms(1)] elapsed_def by linarith
  qed
  then show "unat (snd (refill_state st spec now_ms)) \<le> unat now_ms"
    and "unat now_ms < unat (snd (refill_state st spec now_ms)) + unat (refill_interval_ms spec)"
    by simp_all
qed

section \<open>Facts about the codecs\<close>

lemma decode_encode_bucket [simp]: "decode_bucket (encode_bucket st) = Some st"
  by (simp add: decode_bucket_def encode_bucket_def)

lemma encode_decode_bucket: "decode_bucket bs = Some st \<Longrightarrow> encode_bucket st = bs"
proof -
  assume d: "decode_bucket bs = Some st"
  then have len: "length bs = 16" by (auto simp: decode_bucket_def split: if_splits)
  have "to_le 8 (from_le (take 8 bs)) = take 8 bs"
    using to_le_from_le [of "take 8 bs"] len by simp
  moreover have "to_le 8 (from_le (take 8 (drop 8 bs))) = drop 8 bs"
    using to_le_from_le [of "take 8 (drop 8 bs)"] len by simp
  ultimately show ?thesis using d by (auto simp: decode_bucket_def encode_bucket_def split: if_splits)
qed

lemma decode_i64_to_le [simp]: "decode_i64 (to_le 8 w) = w"
  by (simp add: decode_i64_def)

lemma decode_i64_Nil [simp]: "decode_i64 [] = 0"
  by (simp add: decode_i64_def numeral_eq_Suc)

section \<open>The contract of a state backend\<close>

text \<open>What a client of \<open>KvBackend\<close> relies on, observed through \<open>get\<close>: each call is the obvious
  update of the entry it names and leaves every other entry alone.\<close>

locale kv_store =
  fixes B :: "'s KvBackend"
  assumes get_set: "kv_get B (kv_set B s k v) k' = (if k' = k then Some v else kv_get B s k')"
    and get_delete: "kv_get B (kv_delete B s k) k' = (if k' = k then None else kv_get B s k')"
    and read_counter: "kv_increment B s k 0 =
          (s, decode_i64 (case kv_get B s k of None \<Rightarrow> [] | Some bs \<Rightarrow> bs))"
    and increment_result: "snd (kv_increment B s k d) = ssat_add (snd (kv_increment B s k 0)) d"
    and get_increment: "d \<noteq> 0 \<Longrightarrow> kv_get B (fst (kv_increment B s k d)) k' =
          (if k' = k then Some (to_le 8 (snd (kv_increment B s k d))) else kv_get B s k')"
    and acquire_result: "snd (kv_try_acquire B s k cost spec now_ms) =
          snd (apply_bucket (bucket_input (kv_get B s k) now_ms) cost spec now_ms)"
    and get_acquire: "kv_get B (fst (kv_try_acquire B s k cost spec now_ms)) k' =
          (if k' = k
           then Some (encode_bucket
                  (fst (apply_bucket (bucket_input (kv_get B s k) now_ms) cost spec now_ms)))
           else kv_get B s k')"

text \<open>A call on a backend, and a sequence of calls, with the tokens granted on one key.\<close>

datatype kv_call =
  Get bytes
| Set bytes bytes
| Delete bytes
| Increment bytes i64
| Try_Acquire bytes u64 Bucket u64

fun call_key :: "kv_call \<Rightarrow> bytes" where
  "call_key (Get k) = k"
| "call_key (Set k v) = k"
| "call_key (Delete k) = k"
| "call_key (Increment k d) = k"
| "call_key (Try_Acquire k cost spec now_ms) = k"

fun run_call :: "'s KvBackend \<Rightarrow> kv_call \<Rightarrow> 's \<Rightarrow> 's" where
  "run_call B (Get k) s = s"
| "run_call B (Set k v) s = kv_set B s k v"
| "run_call B (Delete k) s = kv_delete B s k"
| "run_call B (Increment k d) s = fst (kv_increment B s k d)"
| "run_call B (Try_Acquire k cost spec now_ms) s = fst (kv_try_acquire B s k cost spec now_ms)"

fun granted :: "'s KvBackend \<Rightarrow> bytes \<Rightarrow> kv_call \<Rightarrow> 's \<Rightarrow> nat" where
  "granted B key (Try_Acquire k cost spec now_ms) s =
     (if k = key \<and> allowed (snd (kv_try_acquire B s k cost spec now_ms)) then unat cost else 0)"
| "granted B key call s = 0"

fun total_granted :: "'s KvBackend \<Rightarrow> bytes \<Rightarrow> kv_call list \<Rightarrow> 's \<Rightarrow> nat" where
  "total_granted B key [] s = 0"
| "total_granted B key (c # cs) s = granted B key c s + total_granted B key cs (run_call B c s)"

text \<open>The acquires of a sequence of calls on a key, as costs and clock readings.\<close>

fun acquires :: "bytes \<Rightarrow> kv_call list \<Rightarrow> (u64 \<times> u64) list" where
  "acquires key [] = []"
| "acquires key (Try_Acquire k cost spec now_ms # cs) =
     (if k = key then (cost, now_ms) # acquires key cs else acquires key cs)"
| "acquires key (c # cs) = acquires key cs"

definition limits_only :: "bytes \<Rightarrow> Bucket \<Rightarrow> kv_call list \<Rightarrow> bool" where
  "limits_only key spec cs \<longleftrightarrow>
     list_all (\<lambda>c. call_key c = key \<longrightarrow>
       (case c of Try_Acquire k cost sp now_ms \<Rightarrow> sp = spec | Get k \<Rightarrow> True | _ \<Rightarrow> False)) cs"

lemma set_acquires: "(cost, n) \<in> set (acquires key cs) \<longleftrightarrow>
    (\<exists>spec. Try_Acquire key cost spec n \<in> set cs)"
  by (induction key cs rule: acquires.induct) auto

context kv_store
begin

lemma run_call_frame: "call_key c \<noteq> key \<Longrightarrow> kv_get B (run_call B c s) key = kv_get B s key"
  by (cases c) (auto simp: get_set get_delete get_acquire, metis get_increment read_counter fst_conv)

lemma total_granted_run:
  assumes "limits_only key spec cs" "bucket_input (kv_get B s key) = (\<lambda>_. st)"
  shows "total_granted B key cs s = bucket_run st spec (acquires key cs)"
  using assms
proof (induction cs arbitrary: s st)
  case (Cons c cs)
  show ?case
  proof (cases "call_key c = key")
    case False
    then have "kv_get B (run_call B c s) key = kv_get B s key" by (rule run_call_frame)
    moreover have "granted B key c s = 0" "acquires key (c # cs) = acquires key cs"
      using False by (cases c; simp)+
    ultimately show ?thesis using Cons by (simp add: limits_only_def)
  next
    case True
    show ?thesis
    proof (cases c)
      case (Try_Acquire k cost sp now_ms)
      then have eq: "k = key" "sp = spec" using True Cons.prems(1) by (auto simp: limits_only_def)
      let ?r = "apply_bucket st cost spec now_ms"
      have "bucket_input (kv_get B (run_call B c s) key) = (\<lambda>_. Some (fst ?r))"
        using Cons.prems(2) by (simp add: Try_Acquire eq get_acquire bucket_input_def fun_eq_iff)
      then have "total_granted B key cs (run_call B c s)
                   = bucket_run (Some (fst ?r)) spec (acquires key cs)"
        using Cons.IH Cons.prems(1) by (simp add: limits_only_def)
      moreover have "granted B key c s = (if allowed (snd ?r) then unat cost else 0)"
        using Cons.prems(2) by (simp add: Try_Acquire eq acquire_result fun_eq_iff)
      ultimately show ?thesis by (simp add: Try_Acquire eq split: prod.split)
    qed (use Cons True in \<open>auto simp: limits_only_def\<close>)
  qed
qed simp

end

interpretation mem: kv_store MemoryBackend
  by unfold_locales
    (auto simp: MemoryBackend_def mem_get_def mem_set_def mem_delete_def mem_increment_def
      mem_try_acquire_def Let_def split: prod.splits)

text \<open>The weaker contract of a store that can fail: seen through its contents, each call either
  is the call on the in-memory store or changes nothing, and only the former grants tokens.\<close>

locale kv_lossy =
  fixes B :: "'s KvBackend" and look :: "'s \<Rightarrow> mem_map"
  assumes call_or_noop: "look (run_call B c s) = run_call MemoryBackend c (look s) \<or>
            look (run_call B c s) = look s"
    and grant_is_call: "granted B key c s \<noteq> 0 \<Longrightarrow>
            look (run_call B c s) = run_call MemoryBackend c (look s) \<and>
            granted B key c s = granted MemoryBackend key c (look s)"
begin

lemma effective_calls:
  "\<exists>es. set es \<subseteq> set cs \<and>
     total_granted B key cs s \<le> total_granted MemoryBackend key es (look s)"
proof (induction cs arbitrary: s)
  case (Cons c cs)
  obtain es where es: "set es \<subseteq> set cs"
    "total_granted B key cs (run_call B c s)
       \<le> total_granted MemoryBackend key es (look (run_call B c s))"
    using Cons by blast
  show ?case
  proof (cases "granted B key c s = 0")
    case False
    with es grant_is_call [OF False] show ?thesis by (intro exI [of _ "c # es"]) auto
  next
    case True
    show ?thesis
    proof (cases "look (run_call B c s) = look s")
      case True
      with \<open>granted B key c s = 0\<close> es show ?thesis by (intro exI [of _ es]) auto
    next
      case False
      with call_or_noop have "look (run_call B c s) = run_call MemoryBackend c (look s)" by blast
      with True es show ?thesis by (intro exI [of _ "c # es"]) auto
    qed
  qed
qed simp

end

interpretation mem_lossy: kv_lossy MemoryBackend id
  by unfold_locales simp_all

text \<open>The documented behaviour of redb: a transaction sees the committed contents, reads and
  writes of its table are those of a map, and a commit makes the table's contents the committed
  ones or, when it fails, leaves them.\<close>

definition redb_lawful ::
  "('db, 'r, 'w, 't, 'e) redb \<Rightarrow> ('db \<Rightarrow> mem_map) \<Rightarrow> ('r \<Rightarrow> mem_map) \<Rightarrow> ('w \<Rightarrow> mem_map)
     \<Rightarrow> ('t \<Rightarrow> mem_map) \<Rightarrow> bool" where
  "redb_lawful R dbc rc wc tc \<longleftrightarrow>
     (\<forall>db r. begin_read R db = Inr r \<longrightarrow> rc r = dbc db) \<and>
     (\<forall>r t. open_read_table R r = Inr t \<longrightarrow> tc t = rc r) \<and>
     (\<forall>r. open_read_table R r = Inl TableDoesNotExist \<longrightarrow> rc r = Map.empty) \<and>
     (\<forall>db w. begin_write R db = Inr w \<longrightarrow> wc w = dbc db) \<and>
     (\<forall>w w'. set_durability_none R w = Inr w' \<longrightarrow> wc w' = wc w) \<and>
     (\<forall>w t. open_write_table R w = Inr t \<longrightarrow> tc t = wc w) \<and>
     (\<forall>t k v. table_get R t k = Inr v \<longrightarrow> v = tc t k) \<and>
     (\<forall>t k v t'. table_insert R t k v = Inr t' \<longrightarrow> tc t' = (tc t)(k \<mapsto> v)) \<and>
     (\<forall>t k t'. table_remove R t k = Inr t' \<longrightarrow> tc t' = (tc t)(k := None)) \<and>
     (\<forall>db w t db' u. commit R db w t = (db', Inr u) \<longrightarrow> dbc db' = tc t) \<and>
     (\<forall>db w t db' e. commit R db w t = (db', Inl e) \<longrightarrow> dbc db' = dbc db)"

lemma redb_lawfulD:
  assumes "redb_lawful R dbc rc wc tc"
  shows "begin_read R db = Inr r \<Longrightarrow> rc r = dbc db"
    "open_read_table R r = Inr t \<Longrightarrow> tc t = rc r"
    "open_read_table R r = Inl TableDoesNotExist \<Longrightarrow> rc r = Map.empty"
    "begin_write R db = Inr w \<Longrightarrow> wc w = dbc db"
    "set_durability_none R w = Inr w' \<Longrightarrow> wc w' = wc w"
    "open_write_table R w = Inr t \<Longrightarrow> tc t = wc w"
    "table_get R t k = Inr v \<Longrightarrow> v = tc t k"
    "table_insert R t k x = Inr t' \<Longrightarrow> tc t' = (tc t)(k \<mapsto> x)"
    "table_remove R t k = Inr t' \<Longrightarrow> tc t' = (tc t)(k := None)"
    "commit R db w t = (db', Inr u) \<Longrightarrow> dbc db' = tc t"
    "commit R db w t = (db', Inl e) \<Longrightarrow> dbc db' = dbc db"
  using assms unfolding redb_lawful_def by - (elim conjE, metis)+

lemma finish_write_cases:
  assumes "redb_lawful R dbc rc wc tc"
  shows "finish_write R db body = (db', Inl e) \<Longrightarrow> dbc db' = dbc db"
    and "finish_write R db body = (db', Inr a) \<Longrightarrow> \<exists>w t. body = Inr (w, t, a) \<and> dbc db' = tc t"
  using redb_lawfulD(10,11) [OF assms]
  by (auto simp: finish_write_def split: sum.splits prod.splits)

lemma get_inner_contents:
  assumes "redb_lawful R dbc rc wc tc" "get_inner R db key = Inr v"
  shows "v = dbc db key"
proof -
  from assms(2) obtain r where r: "begin_read R db = Inr r" and
    g: "(case open_read_table R r of Inr table \<Rightarrow> table_get R table key
         | Inl TableDoesNotExist \<Rightarrow> Inr None | Inl (OtherTableError e) \<Rightarrow> Inl e) = Inr v"
    by (auto simp: get_inner_def bind_res_Inr_iff)
  from redb_lawfulD(1) [OF assms(1) r] g show ?thesis
    using redb_lawfulD(3) [OF assms(1), of r] redb_lawfulD(2) [OF assms(1), of r]
      redb_lawfulD(7) [OF assms(1), of _ key v]
    by (cases "open_read_table R r") (auto split: TableError.splits, metis)
qed

lemma set_inner_contents:
  assumes "redb_lawful R dbc rc wc tc"
  shows "dbc (fst (set_inner R db key val)) \<in> {mem_set (dbc db) key val, dbc db}"
proof -
  obtain db' x where eq: "set_inner R db key val = (db', x)" by force
  show ?thesis
  proof (cases x)
    case (Inr u)
    obtain w t t' where "begin_write R db = Inr w" "open_write_table R w = Inr t"
      "table_insert R t key val = Inr t'" "dbc db' = tc t'"
      using finish_write_cases(2) [OF assms eq [unfolded set_inner_def Inr]]
      by (auto simp: bind_res_Inr_iff)
    with redb_lawfulD(4,6,8) [OF assms] have "dbc db' = mem_set (dbc db) key val"
      by (simp add: mem_set_def)
    then show ?thesis by (simp add: eq)
  qed (use finish_write_cases(1) [OF assms] eq in \<open>auto simp: set_inner_def\<close>)
qed

lemma delete_inner_contents:
  assumes "redb_lawful R dbc rc wc tc"
  shows "dbc (fst (delete_inner R db key)) \<in> {mem_delete (dbc db) key, dbc db}"
proof -
  obtain db' x where eq: "delete_inner R db key = (db', x)" by force
  show ?thesis
  proof (cases x)
    case (Inr u)
    obtain w t t' where "begin_write R db = Inr w" "open_write_table R w = Inr t"
      "table_remove R t key = Inr t'" "dbc db' = tc t'"
      using finish_write_cases(2) [OF assms eq [unfolded delete_inner_def Inr]]
      by (auto simp: bind_res_Inr_iff)
    with redb_lawfulD(4,6,9) [OF assms] have "dbc db' = mem_delete (dbc db) key"
      by (simp add: mem_delete_def)
    then show ?thesis by (simp add: eq)
  qed (use finish_write_cases(1) [OF assms] eq in \<open>auto simp: delete_inner_def\<close>)
qed

lemma increment_contents:
  assumes "redb_lawful R dbc rc wc tc" "redb_increment R db key delta = (db', r)"
  shows "(dbc db', r) = mem_increment (dbc db) key delta \<or> dbc db' = dbc db \<and> r = 0"
proof (cases "delta = 0")
  case True
  then show ?thesis
    using assms(2) get_inner_contents [OF assms(1), of db key]
    by (cases "get_inner R db key") (auto simp: redb_increment_def mem_increment_def)
next
  case False
  obtain db1 x where eq: "increment_inner R db key delta = (db1, x)" by force
  show ?thesis
  proof (cases x)
    case (Inl e)
    then show ?thesis
      using finish_write_cases(1) [OF assms(1)] eq assms(2) False
      by (auto simp: increment_inner_def redb_increment_def)
  next
    case (Inr v)
    obtain w0 w t g t' where run: "begin_write R db = Inr w0" "set_durability_none R w0 = Inr w"
      "open_write_table R w = Inr t" "table_get R t key = Inr g"
      "v = ssat_add (case g of None \<Rightarrow> 0 | Some bs \<Rightarrow> decode_i64 bs) delta"
      "table_insert R t key (to_le 8 v) = Inr t'" "dbc db1 = tc t'"
      using finish_write_cases(2) [OF assms(1) eq [unfolded increment_inner_def Inr]]
      by (auto simp: bind_res_Inr_iff Let_def)
    have tc: "tc t = dbc db" using redb_lawfulD(4,5,6) [OF assms(1)] run by metis
    have "g = dbc db key" using redb_lawfulD(7) [OF assms(1) run(4)] tc by simp
    moreover have "dbc db1 = (dbc db)(key \<mapsto> to_le 8 v)"
      using redb_lawfulD(8) [OF assms(1) run(6)] run(7) tc by simp
    moreover have "v = ssat_add (decode_i64 (case g of None \<Rightarrow> [] | Some bs \<Rightarrow> bs)) delta"
      using run(5) by (cases g) simp_all
    ultimately show ?thesis
      using assms(2) False eq by (simp add: redb_increment_def mem_increment_def Inr Let_def)
  qed
qed

lemma try_acquire_contents:
  assumes "redb_lawful R dbc rc wc tc" "redb_try_acquire R db key cost spec now_ms = (db', r)"
  shows "(dbc db', r) = mem_try_acquire (dbc db) key cost spec now_ms \<or>
         dbc db' = dbc db \<and> \<not> allowed r"
proof -
  obtain db1 x where eq: "try_acquire_inner R db key cost spec now_ms = (db1, x)" by force
  show ?thesis
  proof (cases x)
    case (Inl e)
    then show ?thesis
      using finish_write_cases(1) [OF assms(1)] eq assms(2)
      by (auto simp: try_acquire_inner_def redb_try_acquire_def)
  next
    case (Inr v)
    obtain w0 w t g t' where run: "begin_write R db = Inr w0" "set_durability_none R w0 = Inr w"
      "open_write_table R w = Inr t" "table_get R t key = Inr g"
      "v = snd (apply_bucket (bucket_input g now_ms) cost spec now_ms)"
      "table_insert R t key
         (encode_bucket (fst (apply_bucket (bucket_input g now_ms) cost spec now_ms))) = Inr t'"
      "dbc db1 = tc t'"
      using finish_write_cases(2) [OF assms(1) eq [unfolded try_acquire_inner_def Inr]]
      by (auto simp: bind_res_Inr_iff Let_def case_prod_unfold)
    have tc: "tc t = dbc db" using redb_lawfulD(4,5,6) [OF assms(1)] run by metis
    have "g = dbc db key" using redb_lawfulD(7) [OF assms(1) run(4)] tc by simp
    moreover note redb_lawfulD(8) [OF assms(1) run(6)]
    ultimately show ?thesis
      using assms(2) eq run(5,7) tc
      by (simp add: redb_try_acquire_def mem_try_acquire_def Inr case_prod_unfold Let_def)
  qed
qed

lemma redb_lossy:
  assumes "redb_lawful R dbc rc wc tc"
  shows "kv_lossy (RedbBackend R) dbc"
proof
  note defs = RedbBackend_def MemoryBackend_def
  fix c s
  show "dbc (run_call (RedbBackend R) c s) = run_call MemoryBackend c (dbc s) \<or>
        dbc (run_call (RedbBackend R) c s) = dbc s"
    using set_inner_contents [OF assms, of s] delete_inner_contents [OF assms, of s]
      increment_contents [OF assms, of s] try_acquire_contents [OF assms, of s]
    by (cases c) (auto simp: defs, (metis fst_conv prod.collapse)+)
next
  note defs = RedbBackend_def MemoryBackend_def
  fix key c s
  assume "granted (RedbBackend R) key c s \<noteq> 0"
  then show "dbc (run_call (RedbBackend R) c s) = run_call MemoryBackend c (dbc s) \<and>
        granted (RedbBackend R) key c s = granted MemoryBackend key c (dbc s)"
    using try_acquire_contents [OF assms, of s]
    by (cases c) (auto simp: defs split: if_splits, (metis fst_conv snd_conv prod.collapse)+)
qed

section \<open>Properties\<close>

text \<open>The tokens a bucket may grant up to time \<open>N\<close> when it is first seen at \<open>t\<^sub>0\<close>.\<close>

definition bucket_budget :: "Bucket \<Rightarrow> nat \<Rightarrow> nat \<Rightarrow> nat" where
  "bucket_budget spec t0 N = unat (capacity spec) +
     (if no_refill spec then 0
      else unat (refill_tokens spec) * ((N - t0) div unat (refill_interval_ms spec)))"

lemma bucket_run_budget:
  assumes "\<forall>(c, n) \<in> set cs. unat n \<le> N" "cs \<noteq> []"
  shows "bucket_run None spec cs \<le> bucket_budget spec (unat (snd (hd cs))) N"
proof (cases "no_refill spec")
  case True
  obtain c n cs' where cs: "cs = (c, n) # cs'" using assms(2) by (cases cs) auto
  show ?thesis
    using bucket_run_no_refill [OF True, of "capacity spec" n cs] True
    unfolding cs bucket_run_None by (simp add: bucket_budget_def)
qed (use bucket_run_fresh_bound [OF _ assms] in \<open>simp add: bucket_budget_def\<close>)

lemma bucket_run_span:
  assumes "\<forall>(c, n) \<in> set cs. t0 \<le> unat n \<and> unat n \<le> N"
  shows "bucket_run None spec cs \<le> bucket_budget spec t0 N"
proof (cases "cs = []")
  case False
  have "t0 \<le> unat (snd (hd cs))" using hd_in_set [OF False] assms by fastforce
  then have "bucket_budget spec (unat (snd (hd cs))) N \<le> bucket_budget spec t0 N"
    by (auto simp: bucket_budget_def intro!: mult_le_mono div_le_mono)
  then show ?thesis using bucket_run_budget [of cs N spec] False assms by fastforce
qed simp

text \<open>C1: the rate limit holds over every history. Take any sequence of backend calls on any keys
  in which a bucket's own key is only read or acquired under one specification, starting from a
  store that has never seen the key. The tokens granted on that key are at most the capacity plus
  one refill per whole interval between the first acquire and the latest clock reading, whatever
  the costs, the order of the clock readings and the calls on other keys.\<close>

theorem memory_rate_bound:
  assumes "kv_get MemoryBackend m key = None"
    and "limits_only key spec cs"
    and "acquires key cs \<noteq> []"
    and "\<forall>(c, n) \<in> set (acquires key cs). unat n \<le> N"
  shows "total_granted MemoryBackend key cs m
           \<le> bucket_budget spec (unat (snd (hd (acquires key cs)))) N"
proof -
  have "bucket_input (kv_get MemoryBackend m key) = (\<lambda>_. None)"
    using assms(1) by (simp add: bucket_input_def fun_eq_iff)
  from mem.total_granted_run [OF assms(2) this] bucket_run_budget [OF assms(4,3)]
  show ?thesis by simp
qed

theorem memory_rate_bound_witness:
  "total_granted MemoryBackend [1]
     [Try_Acquire [1] 2 \<lparr>capacity = 3, refill_tokens = 1, refill_interval_ms = 1000\<rparr> 500,
      Increment [2] 7,
      Try_Acquire [1] 3 \<lparr>capacity = 3, refill_tokens = 1, refill_interval_ms = 1000\<rparr> 2600]
     Map.empty \<le> 5"
  using memory_rate_bound [of Map.empty "[1]"
      "\<lparr>capacity = 3, refill_tokens = 1, refill_interval_ms = 1000\<rparr>"
      "[Try_Acquire [1] 2 \<lparr>capacity = 3, refill_tokens = 1, refill_interval_ms = 1000\<rparr> 500,
        Increment [2] 7,
        Try_Acquire [1] 3 \<lparr>capacity = 3, refill_tokens = 1, refill_interval_ms = 1000\<rparr> 2600]"
      2600]
  by (simp add: MemoryBackend_def mem_get_def limits_only_def bucket_budget_def no_refill_def)

text \<open>the same bound for the durable backend with a disk that may fail at any step. For any
  redb that keeps its documented transaction semantics, whichever calls fail, the tokens granted
  on a key are within the budget of the time span of its acquires: an error never grants and
  never hands tokens back.\<close>

theorem redb_rate_bound:
  assumes "redb_lawful R dbc rc wc tc"
    and "dbc db key = None"
    and "limits_only key spec cs"
    and "\<forall>(c, n) \<in> set (acquires key cs). t0 \<le> unat n \<and> unat n \<le> N"
  shows "total_granted (RedbBackend R) key cs db \<le> bucket_budget spec t0 N"
proof -
  obtain es where es: "set es \<subseteq> set cs" "total_granted (RedbBackend R) key cs db
      \<le> total_granted MemoryBackend key es (dbc db)"
    using kv_lossy.effective_calls [OF redb_lossy [OF assms(1)]] by blast
  have lim: "limits_only key spec es"
    using assms(3) es(1) by (auto simp: limits_only_def list_all_iff)
  have acq: "set (acquires key es) \<subseteq> set (acquires key cs)"
    using es(1) by (auto simp: set_acquires) blast
  have "bucket_input (kv_get MemoryBackend (dbc db) key) = (\<lambda>_. None)"
    using assms(2) by (simp add: MemoryBackend_def mem_get_def bucket_input_def fun_eq_iff)
  from mem.total_granted_run [OF lim this] es(2)
  have "total_granted (RedbBackend R) key cs db \<le> bucket_run None spec (acquires key es)" by simp
  also have "\<dots> \<le> bucket_budget spec t0 N"
    by (rule bucket_run_span) (use acq assms(4) in blast)
  finally show ?thesis .
qed

text \<open>An in-memory database in which every commit of a table holding the key \<open>[9]\<close> fails.\<close>

definition flaky_redb :: "(mem_map, mem_map, mem_map, mem_map, nat) redb" where
  "flaky_redb = \<lparr>begin_read = Inr, open_read_table = Inr, begin_write = Inr,
     set_durability_none = Inr, open_write_table = Inr,
     table_get = (\<lambda>t k. Inr (t k)), table_insert = (\<lambda>t k v. Inr (t(k \<mapsto> v))),
     table_remove = (\<lambda>t k. Inr (t(k := None))),
     commit = (\<lambda>db w t. if t [9] = None then (t, Inr ()) else (db, Inl 7))\<rparr>"

theorem redb_rate_bound_witness:
  "total_granted (RedbBackend flaky_redb) [1]
     [Try_Acquire [1] 2 \<lparr>capacity = 3, refill_tokens = 1, refill_interval_ms = 1000\<rparr> 500,
      Set [9] [0],
      Try_Acquire [1] 3 \<lparr>capacity = 3, refill_tokens = 1, refill_interval_ms = 1000\<rparr> 2600]
     Map.empty \<le> 5"
proof -
  have "redb_lawful flaky_redb id id id id"
    by (auto simp: redb_lawful_def flaky_redb_def split: if_splits)
  from redb_rate_bound [OF this, of Map.empty "[1]"
      "\<lparr>capacity = 3, refill_tokens = 1, refill_interval_ms = 1000\<rparr>"
      "[Try_Acquire [1] 2 \<lparr>capacity = 3, refill_tokens = 1, refill_interval_ms = 1000\<rparr> 500,
        Set [9] [0],
        Try_Acquire [1] 3 \<lparr>capacity = 3, refill_tokens = 1, refill_interval_ms = 1000\<rparr> 2600]"
      500 2600]
  show ?thesis by (simp add: limits_only_def bucket_budget_def no_refill_def)
qed

text \<open>the retry hint of a denied acquire is exact up to one refill interval. When the clock has
  not run backwards and the cost fits the capacity, a retry of the same cost at or after the hinted
  time (with no call in between) is granted, and a retry more than one interval before it is
  denied. The hint \<open>u64::MAX\<close> means there is no such time.\<close>

theorem retry_after_exact:
  assumes "apply_bucket st cost spec now_ms = (st', a)" "\<not> allowed a"
    and "cost \<le> capacity spec" "retry_after_ms a \<noteq> - 1"
    and "case st of None \<Rightarrow> True | Some (t, l) \<Rightarrow> l \<le> now_ms"
  shows "(unat now_ms + unat (retry_after_ms a) \<le> unat later \<longrightarrow>
            allowed (snd (apply_bucket (Some st') cost spec later))) \<and>
         (unat later + unat (refill_interval_ms spec) \<le> unat now_ms + unat (retry_after_ms a) \<longrightarrow>
            \<not> allowed (snd (apply_bucket (Some st') cost spec later)))"
proof -
  obtain t' l' where st': "st' = (t', l')" by force
  note ab = assms(1) [unfolded st']
  obtain k where k: "\<not> no_refill spec" "0 < k"
    "unat (retry_after_ms a) = k * unat (refill_interval_ms spec)"
    "unat cost \<le> unat t' + k * unat (refill_tokens spec)"
    "unat t' + (k - 1) * unat (refill_tokens spec) < unat cost"
    using denied_wait [OF ab assms(2,4)] by blast
  let ?iv = "unat (refill_interval_ms spec)" and ?e = "elapsed spec l' later"
  have pos: "0 < ?iv" using k(1) by (simp add: no_refill_def unat_gt_0)
  have l': "unat l' \<le> unat now_ms" "unat now_ms < unat l' + ?iv"
    using refill_clock [OF k(1) assms(5)] denied_state(2) [OF ab assms(2)] by (metis snd_conv)+
  have iff: "allowed (snd (apply_bucket (Some st') cost spec later)) \<longleftrightarrow>
      unat cost \<le> unat t' + ?e * unat (refill_tokens spec)"
    using assms(3) by (simp add: apply_bucket_outcome st' word_le_nat_alt refill_state_Some [OF k(1)])
  have "allowed (snd (apply_bucket (Some st') cost spec later))"
    if "unat now_ms + unat (retry_after_ms a) \<le> unat later"
  proof -
    have "k * ?iv \<le> unat later - unat l'" using that k(3) l'(1) by linarith
    then have "k \<le> ?e" using pos by (simp add: elapsed_def less_eq_div_iff_mult_less_eq)
    then have "k * unat (refill_tokens spec) \<le> ?e * unat (refill_tokens spec)" by simp
    then show ?thesis unfolding iff using k(4) by linarith
  qed
  moreover have "\<not> allowed (snd (apply_bucket (Some st') cost spec later))"
    if "unat later + ?iv \<le> unat now_ms + unat (retry_after_ms a)"
  proof -
    have "unat later - unat l' < k * ?iv" using that k(2,3) l'(2) pos by (cases k) auto
    then have "?e < k" using pos by (simp add: elapsed_def div_less_iff_less_mult)
    then have "?e * unat (refill_tokens spec) \<le> (k - 1) * unat (refill_tokens spec)"
      by (intro mult_le_mono1) simp
    then show ?thesis unfolding iff using k(5) by linarith
  qed
  ultimately show ?thesis by blast
qed

theorem retry_after_exact_witness:
  "allowed (snd (apply_bucket (Some (2, 0)) 6
     \<lparr>capacity = 7, refill_tokens = 2, refill_interval_ms = 1000\<rparr> 2000))"
proof -
  let ?spec = "\<lparr>capacity = 7, refill_tokens = 2, refill_interval_ms = 1000\<rparr>"
  have "apply_bucket (Some (2, 0)) 6 ?spec 0
      = ((2, 0), \<lparr>allowed = False, remaining = 2, retry_after_ms = 2000\<rparr>)"
    by (simp add: apply_bucket_def refill_state_def no_refill_def sat_mul_def div_ceil_def
        min_def)
  from retry_after_exact [OF this, of 2000] show ?thesis by simp
qed

text \<open>the stored form of a bucket. Exactly the sixteen-byte strings decode, each to the one
  state that encodes to it; any other stored value is treated as an empty bucket: an acquire of a
  positive cost is denied and the entry is rewritten as a well-formed empty bucket.\<close>

theorem bucket_codec:
  "(decode_bucket bs = Some st \<longleftrightarrow> bs = encode_bucket st) \<and>
   (decode_bucket bs = None \<longleftrightarrow> length bs \<noteq> 16) \<and>
   (decode_bucket bs = None \<and> m key = Some bs \<and> 0 < cost \<longrightarrow>
      (case mem_try_acquire m key cost spec now_ms of (m', a) \<Rightarrow>
         \<not> allowed a \<and> m' = m(key \<mapsto> encode_bucket (0, now_ms))))"
proof (intro conjI impI)
  show "decode_bucket bs = Some st \<longleftrightarrow> bs = encode_bucket st"
    by (auto dest: encode_decode_bucket)
  show "decode_bucket bs = None \<longleftrightarrow> length bs \<noteq> 16" by (simp add: decode_bucket_def)
  assume "decode_bucket bs = None \<and> m key = Some bs \<and> 0 < cost"
  then show "case mem_try_acquire m key cost spec now_ms of (m', a) \<Rightarrow>
         \<not> allowed a \<and> m' = m(key \<mapsto> encode_bucket (0, now_ms))"
    by (auto simp: mem_try_acquire_def bucket_input_def apply_bucket_def refill_state_def
        Let_def dest: leD)
qed

theorem bucket_codec_witness:
  "snd (mem_try_acquire [[1] \<mapsto> [7, 7]] [1] 1
     \<lparr>capacity = 3, refill_tokens = 1, refill_interval_ms = 1000\<rparr> 500)
   = \<lparr>allowed = False, remaining = 0, retry_after_ms = 1000\<rparr>"
proof -
  have "decode_bucket [7, 7] = None" by (simp add: decode_bucket_def)
  then have "\<not> allowed (snd (mem_try_acquire [[1] \<mapsto> [7, 7]] [1] 1
     \<lparr>capacity = 3, refill_tokens = 1, refill_interval_ms = 1000\<rparr> 500))"
    using bucket_codec [where bs = "[7, 7]" and m = "[[1] \<mapsto> [7, 7]]" and key = "[1]" and cost = 1
        and spec = "\<lparr>capacity = 3, refill_tokens = 1, refill_interval_ms = 1000\<rparr>"
        and now_ms = 500] by (simp add: case_prod_unfold)
  then show ?thesis
    by (simp add: mem_try_acquire_def bucket_input_def decode_bucket_def apply_bucket_def
        refill_state_def no_refill_def div_ceil_def sat_mul_def)
qed

end
