(* ===== verification/HostState.thy ===== *)
theory HostState
  imports HostBackend
begin

text \<open>
  The capabilities the host lends to a filter, \<open>host/src/lib.rs\<close>: namespaced keys, the quota
  accountant \<open>KvQuota\<close>, and the host-log, host-clock, host-kv, host-counter and host-ratelimit
  interfaces of \<open>HostState\<close>. A capability call is a function on the shared store and quota; a key
  is the byte string of its UTF-8 encoding. Entry and byte counts are natural numbers and their
  deltas integers: both are far below \<open>isize::MAX\<close> for anything that fits in memory.
\<close>

section \<open>Limits and name spaces\<close>

definition MAX_KV_VALUE_BYTES :: nat where "MAX_KV_VALUE_BYTES = 256 * 1024"
definition MAX_KV_KEY_BYTES :: nat where "MAX_KV_KEY_BYTES = 1024"
definition MAX_NS_ENTRIES :: nat where "MAX_NS_ENTRIES = 100000"
definition MAX_NS_BYTES :: nat where "MAX_NS_BYTES = 64 * 2 ^ 20"
definition MAX_TOTAL_ENTRIES :: nat where "MAX_TOTAL_ENTRIES = 5000000"
definition MAX_TOTAL_BYTES :: nat where "MAX_TOTAL_BYTES = 2 ^ 30"
definition MAX_LOG_LINES_PER_REQUEST :: nat where "MAX_LOG_LINES_PER_REQUEST = 256"
definition MAX_LOG_MSG_BYTES :: nat where "MAX_LOG_MSG_BYTES = 8 * 1024"

definition KV_NS_DELIM :: u8 where "KV_NS_DELIM = 0x1f"

text \<open>The ASCII codes of \<open>'k'\<close>, \<open>'c'\<close> and \<open>'r'\<close>.\<close>

definition TAG_KV :: u8 where "TAG_KV = 107"
definition TAG_COUNTER :: u8 where "TAG_COUNTER = 99"
definition TAG_RATELIMIT :: u8 where "TAG_RATELIMIT = 114"

lemmas tag_defs = TAG_KV_def TAG_COUNTER_def TAG_RATELIMIT_def KV_NS_DELIM_def

section \<open>The quota accountant\<close>

record NsUsage =
  entries :: nat
  bytes_used :: nat

record QuotaInner =
  ns :: "bytes \<Rightarrow> NsUsage option"
  total_entries :: nat
  total_bytes :: nat

definition KvQuota_new :: QuotaInner where
  "KvQuota_new = \<lparr>ns = Map.empty, total_entries = 0, total_bytes = 0\<rparr>"

definition ns_usage :: "QuotaInner \<Rightarrow> bytes \<Rightarrow> NsUsage" where
  "ns_usage q n = (case ns q n of None \<Rightarrow> \<lparr>entries = 0, bytes_used = 0\<rparr> | Some u \<Rightarrow> u)"

definition admit :: "QuotaInner \<Rightarrow> bytes \<Rightarrow> int \<Rightarrow> int \<Rightarrow> QuotaInner \<times> bool" where
  "admit g n entries_delta bytes_delta =
     (let cur = ns_usage g n;
          new_ns_entries = int (entries cur) + entries_delta;
          new_ns_bytes = int (bytes_used cur) + bytes_delta;
          new_total_entries = int (total_entries g) + entries_delta;
          new_total_bytes = int (total_bytes g) + bytes_delta
      in
      if (entries_delta > 0 \<and>
           (new_ns_entries > int MAX_NS_ENTRIES \<or> new_total_entries > int MAX_TOTAL_ENTRIES)) \<or>
         (bytes_delta > 0 \<and>
           (new_ns_bytes > int MAX_NS_BYTES \<or> new_total_bytes > int MAX_TOTAL_BYTES))
      then (g, False)
      else (g\<lparr>ns := (ns g)(n \<mapsto> \<lparr>entries = nat (max new_ns_entries 0),
                                bytes_used = nat (max new_ns_bytes 0)\<rparr>),
              total_entries := nat (max new_total_entries 0),
              total_bytes := nat (max new_total_bytes 0)\<rparr>, True))"

definition release :: "QuotaInner \<Rightarrow> bytes \<Rightarrow> nat \<Rightarrow> nat \<Rightarrow> QuotaInner" where
  "release g n e b = fst (admit g n (- int e) (- int b))"

section \<open>Log messages\<close>

text \<open>A message is a string of Unicode scalar values; \<open>len\<close> counts its UTF-8 bytes.\<close>

type_synonym ustring = "nat list"

definition utf8_len :: "nat \<Rightarrow> nat" where
  "utf8_len c = (if c < 0x80 then 1 else if c < 0x800 then 2 else if c < 0x10000 then 3 else 4)"

definition byte_len :: "ustring \<Rightarrow> nat" where
  "byte_len s = sum_list (map utf8_len s)"

text \<open>\<open>is_char_boundary\<close>: an offset at which a character starts, or the end of the string.\<close>

fun is_char_boundary :: "ustring \<Rightarrow> nat \<Rightarrow> bool" where
  "is_char_boundary s 0 = True"
| "is_char_boundary [] (Suc n) = False"
| "is_char_boundary (c # s) (Suc n) =
     (utf8_len c \<le> Suc n \<and> is_char_boundary s (Suc n - utf8_len c))"

fun floor_boundary :: "ustring \<Rightarrow> nat \<Rightarrow> nat" where
  "floor_boundary s 0 = 0"
| "floor_boundary s (Suc n) = (if is_char_boundary s (Suc n) then Suc n else floor_boundary s n)"

text \<open>\<open>String::truncate\<close> at a boundary.\<close>

fun truncate_bytes :: "ustring \<Rightarrow> nat \<Rightarrow> ustring" where
  "truncate_bytes [] n = []"
| "truncate_bytes (c # s) n =
     (if utf8_len c \<le> n then c # truncate_bytes s (n - utf8_len c) else [])"

definition is_control :: "nat \<Rightarrow> bool" where
  "is_control c \<longleftrightarrow> c < 0x20 \<or> (0x7f \<le> c \<and> c \<le> 0x9f)"

text \<open>The bytes below \<open>0x20\<close> and the byte \<open>0x7f\<close> only occur in UTF-8 as those characters.\<close>

definition sanitize_log_message :: "ustring \<Rightarrow> ustring" where
  "sanitize_log_message message =
     (let message =
        (if byte_len message > MAX_LOG_MSG_BYTES
         then truncate_bytes message (floor_boundary message MAX_LOG_MSG_BYTES) else message)
      in if list_ex (\<lambda>c. c < 0x20 \<or> c = 0x7f) message
         then map (\<lambda>c. if is_control c then 0xfffd else c) message
         else message)"

section \<open>The state of a filter instance and its capabilities\<close>

datatype LogLevel = Trace | Debug | Info | Warn | Error

record LogLine =
  level :: LogLevel
  message :: ustring

text \<open>The capability fields of \<open>HostState\<close>; the store and the quota are shared by all instances
  and are passed separately. \<open>trunc_marker\<close> is the text of the truncation marker.\<close>

record HostState =
  kv_prefix :: bytes
  logs :: "LogLine list"
  now_ms :: u64
  ratelimit_bucket :: "Bucket option"

definition HostState_new :: "bytes \<Rightarrow> Bucket option \<Rightarrow> u64 \<Rightarrow> HostState" where
  "HostState_new prefix bucket wall =
     \<lparr>kv_prefix = prefix, logs = [], now_ms = wall, ratelimit_bucket = bucket\<rparr>"

definition begin_request :: "HostState \<Rightarrow> u64 \<Rightarrow> HostState" where
  "begin_request hs wall = hs\<lparr>logs := [], now_ms := wall\<rparr>"

definition ns_key :: "HostState \<Rightarrow> u8 \<Rightarrow> bytes \<Rightarrow> bytes" where
  "ns_key hs tag key = kv_prefix hs @ [tag, KV_NS_DELIM] @ key"

definition trunc_marker :: ustring where
  "trunc_marker = 0x2026 # map of_char '' host-log truncated (per-request line cap reached)''"

definition host_log :: "HostState \<Rightarrow> LogLevel \<Rightarrow> ustring \<Rightarrow> HostState" where
  "host_log hs lev msg =
     (let n = length (logs hs) in
      if n < MAX_LOG_LINES_PER_REQUEST - 1
      then hs\<lparr>logs := logs hs @ [\<lparr>level = lev, message = sanitize_log_message msg\<rparr>]\<rparr>
      else if n = MAX_LOG_LINES_PER_REQUEST - 1
      then hs\<lparr>logs := logs hs @ [\<lparr>level = Warn, message = trunc_marker\<rparr>]\<rparr>
      else hs)"

type_synonym 's world = "'s \<times> QuotaInner"

definition host_kv_get :: "'s KvBackend \<Rightarrow> HostState \<Rightarrow> bytes \<Rightarrow> 's world \<Rightarrow> bytes option" where
  "host_kv_get B hs key w = kv_get B (fst w) (ns_key hs TAG_KV key)"

definition host_kv_set ::
  "'s KvBackend \<Rightarrow> HostState \<Rightarrow> bytes \<Rightarrow> bytes \<Rightarrow> 's world \<Rightarrow> 's world" where
  "host_kv_set B hs key val w =
     (case w of (s, q) \<Rightarrow>
      if length key > MAX_KV_KEY_BYTES \<or> length val > MAX_KV_VALUE_BYTES then (s, q)
      else
        let nskey = ns_key hs TAG_KV key;
            (entries_delta, bytes_delta) =
              (case map_option length (kv_get B s nskey) of
                 None \<Rightarrow> (1, int (length key + length val))
               | Some old \<Rightarrow> (0, int (length val) - int old));
            (q', ok) = admit q (kv_prefix hs) entries_delta bytes_delta
        in if \<not> ok then (s, q') else (kv_set B s nskey val, q'))"

definition host_kv_delete :: "'s KvBackend \<Rightarrow> HostState \<Rightarrow> bytes \<Rightarrow> 's world \<Rightarrow> 's world" where
  "host_kv_delete B hs key w =
     (case w of (s, q) \<Rightarrow>
        let nskey = ns_key hs TAG_KV key in
        case map_option length (kv_get B s nskey) of
          None \<Rightarrow> (s, q)
        | Some old \<Rightarrow> (kv_delete B s nskey, release q (kv_prefix hs) 1 (length key + old)))"

definition host_counter_increment ::
  "'s KvBackend \<Rightarrow> HostState \<Rightarrow> bytes \<Rightarrow> i64 \<Rightarrow> 's world \<Rightarrow> 's world \<times> i64" where
  "host_counter_increment B hs key delta w =
     (case w of (s, q) \<Rightarrow>
        let nskey = ns_key hs TAG_COUNTER key in
        if delta = 0 then (let (s', v) = kv_increment B s nskey 0 in ((s', q), v))
        else
          let (q', ok) = (if kv_get B s nskey = None
                          then admit q (kv_prefix hs) 1 (int (length key + 8)) else (q, True))
          in if \<not> ok then ((s, q'), 0)
             else let (s', v) = kv_increment B s nskey delta in ((s', q'), v))"

definition host_counter_get ::
  "'s KvBackend \<Rightarrow> HostState \<Rightarrow> bytes \<Rightarrow> 's world \<Rightarrow> 's world \<times> i64" where
  "host_counter_get B hs key w =
     (case w of (s, q) \<Rightarrow>
        let (s', v) = kv_increment B s (ns_key hs TAG_COUNTER key) 0 in ((s', q), v))"

definition host_try_acquire ::
  "'s KvBackend \<Rightarrow> HostState \<Rightarrow> bytes \<Rightarrow> u64 \<Rightarrow> 's world \<Rightarrow> 's world \<times> Acquire" where
  "host_try_acquire B hs key cost w =
     (case w of (s, q) \<Rightarrow>
        case ratelimit_bucket hs of
          None \<Rightarrow> ((s, q), \<lparr>allowed = False, remaining = 0, retry_after_ms = 0\<rparr>)
        | Some spec \<Rightarrow>
            let nskey = ns_key hs TAG_RATELIMIT key;
                (q', ok) = (if kv_get B s nskey = None
                            then admit q (kv_prefix hs) 1 (int (length key + 16)) else (q, True))
            in if \<not> ok then ((s, q'), \<lparr>allowed = False, remaining = 0, retry_after_ms = 0\<rparr>)
               else let (s', r) = kv_try_acquire B s nskey cost spec (now_ms hs)
                    in ((s', q'), \<lparr>allowed = allowed r, remaining = remaining r,
                                   retry_after_ms = retry_after_ms r\<rparr>))"

text \<open>A capability call of a filter on the shared state.\<close>

datatype host_call =
  KvGet bytes
| KvSet bytes bytes
| KvDelete bytes
| CounterIncrement bytes i64
| CounterGet bytes
| TryAcquire bytes u64

fun run_host_call :: "'s KvBackend \<Rightarrow> HostState \<Rightarrow> host_call \<Rightarrow> 's world \<Rightarrow> 's world" where
  "run_host_call B hs (KvGet key) w = w"
| "run_host_call B hs (KvSet key val) w = host_kv_set B hs key val w"
| "run_host_call B hs (KvDelete key) w = host_kv_delete B hs key w"
| "run_host_call B hs (CounterIncrement key delta) w = fst (host_counter_increment B hs key delta w)"
| "run_host_call B hs (CounterGet key) w = fst (host_counter_get B hs key w)"
| "run_host_call B hs (TryAcquire key cost) w = fst (host_try_acquire B hs key cost w)"

text \<open>A history: calls of any number of filter instances, one after the other.\<close>

type_synonym history = "(HostState \<times> host_call) list"

definition run_history :: "'s KvBackend \<Rightarrow> history \<Rightarrow> 's world \<Rightarrow> 's world" where
  "run_history B h w = fold (\<lambda>(hs, c). run_host_call B hs c) h w"

section \<open>Name spaces are disjoint\<close>

text \<open>\<open>Host::load\<close> rejects an empty filter id and one that contains the delimiter; the prefix of a
  filter is its id followed by the delimiter.\<close>

definition valid_prefix :: "bytes \<Rightarrow> bool" where
  "valid_prefix p \<longleftrightarrow> length p > 1 \<and> last p = KV_NS_DELIM \<and> KV_NS_DELIM \<notin> set (butlast p)"

definition ns_of :: "bytes \<Rightarrow> bytes" where
  "ns_of k = takeWhile (\<lambda>b. b \<noteq> KV_NS_DELIM) k @ [KV_NS_DELIM]"

lemma ns_of_ns_key [simp]:
  assumes "valid_prefix (kv_prefix hs)"
  shows "ns_of (ns_key hs tag key) = kv_prefix hs"
proof -
  obtain i where i: "kv_prefix hs = i @ [KV_NS_DELIM]" "KV_NS_DELIM \<notin> set i"
    using assms by (metis valid_prefix_def append_butlast_last_id length_greater_0_conv
        less_trans zero_less_one)
  then have "takeWhile (\<lambda>b. b \<noteq> KV_NS_DELIM) (ns_key hs tag key) = i"
    by (simp add: ns_key_def) (metis (mono_tags, lifting) append_Nil2 takeWhile_append2
        takeWhile.simps(2))
  then show ?thesis using i by (simp add: ns_of_def)
qed

lemma ns_key_inj:
  assumes "valid_prefix (kv_prefix hs)" "valid_prefix (kv_prefix hs')"
  shows "ns_key hs tag key = ns_key hs' tag' key' \<longleftrightarrow>
           kv_prefix hs = kv_prefix hs' \<and> tag = tag' \<and> key = key'"
proof
  assume eq: "ns_key hs tag key = ns_key hs' tag' key'"
  then have "kv_prefix hs = kv_prefix hs'" using assms by (metis ns_of_ns_key)
  then show "kv_prefix hs = kv_prefix hs' \<and> tag = tag' \<and> key = key'"
    using eq by (simp add: ns_key_def)
qed (simp add: ns_key_def)

lemma tags_distinct [simp]:
  "TAG_KV \<noteq> TAG_COUNTER" "TAG_KV \<noteq> TAG_RATELIMIT" "TAG_COUNTER \<noteq> TAG_RATELIMIT"
  "TAG_COUNTER \<noteq> TAG_KV" "TAG_RATELIMIT \<noteq> TAG_KV" "TAG_RATELIMIT \<noteq> TAG_COUNTER"
  by (simp_all add: tag_defs)

section \<open>The accountant keeps exact books\<close>

definition key_tag :: "bytes \<Rightarrow> u8" where
  "key_tag k = k ! length (ns_of k)"

definition entry_bytes :: "bytes \<Rightarrow> bytes \<Rightarrow> nat" where
  "entry_bytes k v = length k - (length (ns_of k) + 2) + length v"

definition count_in :: "bytes \<Rightarrow> bytes \<Rightarrow> bytes \<Rightarrow> nat" where
  "count_in n k v = (if ns_of k = n then 1 else 0)"

definition bytes_in :: "bytes \<Rightarrow> bytes \<Rightarrow> bytes \<Rightarrow> nat" where
  "bytes_in n k v = (if ns_of k = n then entry_bytes k v else 0)"

text \<open>Counters and buckets have a fixed size, so rewriting one does not change the books.\<close>

definition entry_shape :: "bytes \<Rightarrow> bytes \<Rightarrow> bool" where
  "entry_shape k v \<longleftrightarrow> (key_tag k = TAG_COUNTER \<longrightarrow> length v = 8) \<and>
                      (key_tag k = TAG_RATELIMIT \<longrightarrow> length v = 16)"

definition accounted :: "mem_map world \<Rightarrow> bool" where
  "accounted w \<longleftrightarrow> (case w of (m, q) \<Rightarrow>
     finite (dom m) \<and>
     (\<forall>n. entries (ns_usage q n) = total_over (count_in n) m \<and>
          bytes_used (ns_usage q n) = total_over (bytes_in n) m) \<and>
     total_entries q = total_over (\<lambda>k v. 1) m \<and>
     total_bytes q = total_over entry_bytes m \<and>
     (\<forall>k v. m k = Some v \<longrightarrow> entry_shape k v))"

definition capped :: "QuotaInner \<Rightarrow> bool" where
  "capped q \<longleftrightarrow> (\<forall>n. entries (ns_usage q n) \<le> MAX_NS_ENTRIES \<and>
                    bytes_used (ns_usage q n) \<le> MAX_NS_BYTES) \<and>
     total_entries q \<le> MAX_TOTAL_ENTRIES \<and> total_bytes q \<le> MAX_TOTAL_BYTES"

lemma ns_usage_update:
  "ns_usage (q\<lparr>ns := (ns q)(n \<mapsto> u), total_entries := e, total_bytes := b\<rparr>) n' =
     (if n' = n then u else ns_usage q n')"
  by (simp add: ns_usage_def)

lemma admit_capped [inv_intros]: "capped q \<Longrightarrow> capped (fst (admit q n e b))"
  by (auto simp: capped_def admit_def Let_def ns_usage_update le_max_iff_disj nat_le_iff
      dest: spec [of _ n])

lemma admit_False: "admit q n e b = (q', False) \<Longrightarrow> q' = q"
  by (auto simp: admit_def Let_def split: if_splits)

lemma admit_True:
  assumes "admit q n e b = (q', True)"
  shows "entries (ns_usage q' n') = (if n' = n then nat (int (entries (ns_usage q n)) + e)
           else entries (ns_usage q n'))"
    and "bytes_used (ns_usage q' n') = (if n' = n then nat (int (bytes_used (ns_usage q n)) + b)
           else bytes_used (ns_usage q n'))"
    and "total_entries q' = nat (int (total_entries q) + e)"
    and "total_bytes q' = nat (int (total_bytes q) + b)"
  using assms by (auto simp: admit_def Let_def ns_usage_update split: if_splits)

lemma release_admit: "\<exists>q'. admit q n (- int e) (- int b) = (q', True) \<and> release q n e b = q'"
  by (auto simp: release_def admit_def Let_def)

lemma entry_ns_key [simp]:
  assumes "valid_prefix (kv_prefix hs)"
  shows "entry_bytes (ns_key hs tag key) v = length key + length v"
    and "key_tag (ns_key hs tag key) = tag"
    and "count_in n (ns_key hs tag key) v = (if n = kv_prefix hs then 1 else 0)"
    and "bytes_in n (ns_key hs tag key) v = (if n = kv_prefix hs then length key + length v else 0)"
proof -
  note ns = ns_of_ns_key [OF assms]
  show eb: "entry_bytes (ns_key hs tag key) v = length key + length v"
    unfolding entry_bytes_def ns by (simp add: ns_key_def)
  show "key_tag (ns_key hs tag key) = tag"
    unfolding key_tag_def ns by (simp add: ns_key_def nth_append)
  show "count_in n (ns_key hs tag key) v = (if n = kv_prefix hs then 1 else 0)"
    "bytes_in n (ns_key hs tag key) v = (if n = kv_prefix hs then length key + length v else 0)"
    by (auto simp: count_in_def bytes_in_def ns eb)
qed

text \<open>Writing an entry after its growth was admitted, and deleting one after its release.\<close>

lemma accounted_write:
  assumes "accounted (m, q)" "valid_prefix (kv_prefix hs)"
    and k: "k = ns_key hs tag key" and "entry_shape k v"
    and "admit q (kv_prefix hs) (if m k = None then 1 else 0)
           (int (length key + length v) - int (at_key entry_bytes m k)) = (q', True)"
  shows "accounted (m(k \<mapsto> v), q')"
proof -
  note a = assms(1) [unfolded accounted_def prod.case]
  have fin: "finite (dom m)" using a by simp
  note upd = total_over_update [OF fin, where k = k and v = v]
  note adm = admit_True [OF assms(5)]
  have ak: "at_key (count_in n) m k = (if n = kv_prefix hs \<and> m k \<noteq> None then 1 else 0)"
    "at_key (bytes_in n) m k = (if n = kv_prefix hs then at_key entry_bytes m k else 0)"
    "at_key (\<lambda>k v. 1) m k = (if m k = None then 0 else 1)" for n
    using assms(2) by (auto simp: at_key_def k split: option.splits)
  have ent: "entries (ns_usage q' n) = total_over (count_in n) (m(k \<mapsto> v))" for n
    using upd [of "count_in n"] a assms(2) unfolding adm ak by (auto simp: k)
  have byt: "bytes_used (ns_usage q' n) = total_over (bytes_in n) (m(k \<mapsto> v))" for n
    using upd [of "bytes_in n"] a assms(2) unfolding adm ak by (auto simp: k)
  have "total_entries q' = total_over (\<lambda>k v. 1) (m(k \<mapsto> v))"
    using upd [of "\<lambda>k v. 1"] a unfolding adm ak by auto
  moreover have "total_bytes q' = total_over entry_bytes (m(k \<mapsto> v))"
    using upd [of entry_bytes] a assms(2) unfolding adm by (auto simp: k)
  ultimately show ?thesis using ent byt a assms(4) fin by (auto simp: accounted_def)
qed

lemma accounted_delete:
  assumes "accounted (m, q)" "valid_prefix (kv_prefix hs)"
    and k: "k = ns_key hs tag key" and "m k = Some v"
  shows "accounted (m(k := None), release q (kv_prefix hs) 1 (length key + length v))"
proof -
  note a = assms(1) [unfolded accounted_def prod.case]
  have fin: "finite (dom m)" using a by simp
  note upd = total_over_remove [OF fin, where k = k]
  obtain q' where q': "admit q (kv_prefix hs) (- int 1) (- int (length key + length v)) = (q', True)"
    "release q (kv_prefix hs) 1 (length key + length v) = q'"
    using release_admit by blast
  note adm = admit_True [OF q'(1)]
  have ak: "at_key f m k = f k v" for f using assms(4) by (simp add: at_key_def)
  have ent: "entries (ns_usage q' n) = total_over (count_in n) (m(k := None))" for n
    using upd [of "count_in n"] a assms(2) unfolding adm ak by (auto simp: k)
  have byt: "bytes_used (ns_usage q' n) = total_over (bytes_in n) (m(k := None))" for n
    using upd [of "bytes_in n"] a assms(2) unfolding adm ak by (auto simp: k)
  have "total_entries q' = total_over (\<lambda>k v. 1) (m(k := None))"
    using upd [of "\<lambda>k v. 1"] a unfolding adm ak by auto
  moreover have "total_bytes q' = total_over entry_bytes (m(k := None))"
    using upd [of entry_bytes] a assms(2) unfolding adm ak by (auto simp: k)
  ultimately show ?thesis unfolding q'(2) using ent byt a fin by (auto simp: accounted_def)
qed

lemma mem_simps [simp]:
  "kv_get MemoryBackend m k = m k" "kv_set MemoryBackend m k v = m(k \<mapsto> v)"
  "kv_delete MemoryBackend m k = m(k := None)"
  by (simp_all add: MemoryBackend_def mem_get_def mem_set_def mem_delete_def)

lemma mem_increment_nonzero:
  "d \<noteq> 0 \<Longrightarrow> \<exists>v. kv_increment MemoryBackend m k d = (m(k \<mapsto> to_le 8 v), v)"
  by (auto simp: MemoryBackend_def mem_increment_def Let_def)

lemma mem_increment_zero: "fst (kv_increment MemoryBackend m k 0) = m"
  by (simp add: MemoryBackend_def mem_increment_def)

lemma mem_acquire_write:
  "\<exists>st r. kv_try_acquire MemoryBackend m k cost spec now = (m(k \<mapsto> encode_bucket st), r)"
  by (auto simp: MemoryBackend_def mem_try_acquire_def Let_def split: prod.splits)

lemma length_encode_bucket [simp]: "length (encode_bucket st) = 16"
  by (simp add: encode_bucket_def)

text \<open>Writing a fixed-size entry: charged on creation, free afterwards.\<close>

lemma accounted_fixed:
  assumes "accounted (m, q)" "valid_prefix (kv_prefix hs)" "k = ns_key hs tag key"
    and "tag = TAG_COUNTER \<and> length v = 8 \<or> tag = TAG_RATELIMIT \<and> length v = 16"
    and "(if m k = None then admit q (kv_prefix hs) 1 (int (length key + length v)) else (q, True))
           = (q', True)"
  shows "accounted (m(k \<mapsto> v), q')"
proof (cases "m k")
  case None
  then show ?thesis
    using assms accounted_write [of m q hs k tag key v q']
    by (auto simp: at_key_def entry_shape_def)
next
  case (Some old)
  have "entry_shape k old" using assms(1) Some by (auto simp: accounted_def)
  then have "length old = length v" using assms(2,3,4) by (auto simp: entry_shape_def)
  moreover have "\<exists>g. admit q (kv_prefix hs) 0 0 = (g, True)" by (simp add: admit_def Let_def)
  then obtain g where g: "admit q (kv_prefix hs) 0 0 = (g, True)" ..
  ultimately have "accounted (m(k \<mapsto> v), g)"
    using assms accounted_write [of m q hs k tag key v g] Some
    by (auto simp: at_key_def entry_shape_def)
  moreover have "ns_usage g = ns_usage q" "total_entries g = total_entries q"
    "total_bytes g = total_bytes q"
    using admit_True [OF g] by (auto intro!: ext NsUsage.equality)
  ultimately show ?thesis using assms(5) Some by (simp add: accounted_def)
qed

lemma set_preserves [inv_intros]:
  assumes "accounted w" "capped (snd w)" "valid_prefix (kv_prefix hs)"
  shows "accounted (host_kv_set MemoryBackend hs key val w) \<and>
         capped (snd (host_kv_set MemoryBackend hs key val w))"
proof -
  obtain m q where w: "w = (m, q)" by force
  let ?k = "ns_key hs TAG_KV key"
  define e where "e = (if m ?k = None then 1 else 0 :: int)"
  define b where "b = int (length key + length val) - int (at_key entry_bytes m ?k)"
  have sh: "entry_shape ?k val" using assms(3) by (simp add: entry_shape_def)
  obtain q' ok where adm: "admit q (kv_prefix hs) e b = (q', ok)" by force
  have run: "host_kv_set MemoryBackend hs key val w = (m, q) \<or>
             host_kv_set MemoryBackend hs key val w = (if ok then (m(?k \<mapsto> val), q') else (m, q'))"
    using assms(3) adm unfolding w
    by (cases "m ?k") (simp_all add: host_kv_set_def Let_def at_key_def e_def b_def)
  have "capped q'" using admit_capped [of q "kv_prefix hs" e b] adm assms(2) w by simp
  moreover have "accounted (m(?k \<mapsto> val), q')" if ok
    using accounted_write [OF _ assms(3) refl sh] adm assms(1) that
    unfolding w e_def b_def by simp
  moreover have "q' = q" if "\<not> ok" using admit_False adm that by simp
  ultimately show ?thesis using run assms(1,2) w by (cases ok) auto
qed

lemma delete_preserves [inv_intros]:
  assumes "accounted w" "capped (snd w)" "valid_prefix (kv_prefix hs)"
  shows "accounted (host_kv_delete MemoryBackend hs key w) \<and>
         capped (snd (host_kv_delete MemoryBackend hs key w))"
proof -
  obtain m q where w: "w = (m, q)" by force
  have "capped (release q n e b)" for n e b
    using admit_capped assms(2) w by (simp add: release_def)
  then show ?thesis
    using assms accounted_delete [OF _ assms(3) refl, of m q TAG_KV key] unfolding w
    by (auto simp: host_kv_delete_def Let_def split: option.split)
qed

lemma counter_preserves [inv_intros]:
  assumes "accounted w" "capped (snd w)" "valid_prefix (kv_prefix hs)"
  shows "accounted (fst (host_counter_increment MemoryBackend hs key d w)) \<and>
         capped (snd (fst (host_counter_increment MemoryBackend hs key d w)))"
proof (cases "d = 0")
  case True
  then show ?thesis
    using assms mem_increment_zero
    by (auto simp: host_counter_increment_def Let_def case_prod_unfold)
next
  case False
  obtain m q where w: "w = (m, q)" by force
  let ?k = "ns_key hs TAG_COUNTER key"
  obtain q' ok where adm: "(if m ?k = None then admit q (kv_prefix hs) 1 (int (length key + 8))
      else (q, True)) = (q', ok)" by force
  obtain v where v: "kv_increment MemoryBackend m ?k d = (m(?k \<mapsto> to_le 8 v), v)"
    using mem_increment_nonzero [OF False] by blast
  have run: "fst (host_counter_increment MemoryBackend hs key d w) =
      (if ok then (m(?k \<mapsto> to_le 8 v), q') else (m, q'))"
    using False adm v unfolding w by (auto simp: host_counter_increment_def Let_def)
  have "capped q'"
    using admit_capped [of q "kv_prefix hs" 1 "int (length key + 8)"] adm assms(2) w
    by (auto split: if_splits)
  moreover have "ok \<Longrightarrow> accounted (m(?k \<mapsto> to_le 8 v), q')"
    using accounted_fixed [OF _ assms(3) refl, of m q TAG_COUNTER "to_le 8 v" key q',
        unfolded length_to_le] adm assms(1) w by simp
  moreover have "\<not> ok \<Longrightarrow> q' = q" using adm admit_False by (auto split: if_splits)
  ultimately show ?thesis using run assms(1,2) w by auto
qed

lemma acquire_preserves [inv_intros]:
  assumes "accounted w" "capped (snd w)" "valid_prefix (kv_prefix hs)"
  shows "accounted (fst (host_try_acquire MemoryBackend hs key cost w)) \<and>
         capped (snd (fst (host_try_acquire MemoryBackend hs key cost w)))"
proof (cases "ratelimit_bucket hs")
  case None
  then show ?thesis using assms by (auto simp: host_try_acquire_def split: prod.split)
next
  case (Some spec)
  obtain m q where w: "w = (m, q)" by force
  let ?k = "ns_key hs TAG_RATELIMIT key"
  obtain q' ok where adm: "(if m ?k = None then admit q (kv_prefix hs) 1 (int (length key + 16))
      else (q, True)) = (q', ok)" by force
  obtain st r where st: "kv_try_acquire MemoryBackend m ?k cost spec (now_ms hs)
      = (m(?k \<mapsto> encode_bucket st), r)" using mem_acquire_write by blast
  have run: "fst (host_try_acquire MemoryBackend hs key cost w) =
      (if ok then (m(?k \<mapsto> encode_bucket st), q') else (m, q'))"
    using Some adm st unfolding w by (auto simp: host_try_acquire_def Let_def)
  have "capped q'"
    using admit_capped [of q "kv_prefix hs" 1 "int (length key + 16)"] adm assms(2) w
    by (auto split: if_splits)
  moreover have "ok \<Longrightarrow> accounted (m(?k \<mapsto> encode_bucket st), q')"
    using accounted_fixed [OF _ assms(3) refl, of m q TAG_RATELIMIT "encode_bucket st" key q',
        unfolded length_encode_bucket] adm assms(1) w by simp
  moreover have "\<not> ok \<Longrightarrow> q' = q" using adm admit_False by (auto split: if_splits)
  ultimately show ?thesis using run assms(1,2) w by auto
qed

lemma host_call_preserves:
  assumes "accounted w" "capped (snd w)" "valid_prefix (kv_prefix hs)"
  shows "accounted (run_host_call MemoryBackend hs c w) \<and>
         capped (snd (run_host_call MemoryBackend hs c w))"
  using assms counter_preserves [OF assms, of _ 0] mem_increment_zero
  by (cases c) (auto simp: inv_intros host_counter_get_def case_prod_unfold Let_def)

lemma history_preserves:
  assumes "accounted w" "capped (snd w)" "\<forall>(hs, c) \<in> set h. valid_prefix (kv_prefix hs)"
  shows "accounted (run_history MemoryBackend h w) \<and> capped (snd (run_history MemoryBackend h w))"
  using assms
proof (induction h arbitrary: w)
  case (Cons x h)
  then show ?case using host_call_preserves [of w "fst x" "snd x"]
    by (auto simp: run_history_def case_prod_unfold)
qed (simp add: run_history_def)

section \<open>Isolation between filters\<close>

text \<open>Every capability call is at most one call on the backend, on a key of the caller's own name
  space and of the tag of that capability.\<close>

fun call_tag :: "host_call \<Rightarrow> u8" where
  "call_tag (KvGet key) = TAG_KV"
| "call_tag (KvSet key val) = TAG_KV"
| "call_tag (KvDelete key) = TAG_KV"
| "call_tag (CounterIncrement key d) = TAG_COUNTER"
| "call_tag (CounterGet key) = TAG_COUNTER"
| "call_tag (TryAcquire key cost) = TAG_RATELIMIT"

fun host_call_key :: "host_call \<Rightarrow> bytes" where
  "host_call_key (KvGet key) = key"
| "host_call_key (KvSet key val) = key"
| "host_call_key (KvDelete key) = key"
| "host_call_key (CounterIncrement key d) = key"
| "host_call_key (CounterGet key) = key"
| "host_call_key (TryAcquire key cost) = key"

text \<open>The backend call a capability call makes, if it makes one.\<close>

definition issued :: "HostState \<Rightarrow> host_call \<Rightarrow> kv_call \<Rightarrow> bool" where
  "issued hs c b \<longleftrightarrow> call_key b = ns_key hs (call_tag c) (host_call_key c) \<and>
     (case c of
        TryAcquire key cost \<Rightarrow>
          (\<exists>spec. ratelimit_bucket hs = Some spec \<and>
                  b = Try_Acquire (ns_key hs TAG_RATELIMIT key) cost spec (now_ms hs))
      | _ \<Rightarrow> (case b of Try_Acquire k cost spec n \<Rightarrow> False | _ \<Rightarrow> True))"

lemma host_call_effect:
  "fst (run_host_call B hs c w) = fst w \<or>
   (\<exists>b. issued hs c b \<and> fst (run_host_call B hs c w) = run_call B b (fst w))"
proof (cases c)
  case (KvSet key val)
  have "issued hs c (Set (ns_key hs TAG_KV key) val)" by (simp add: KvSet issued_def)
  then show ?thesis
    by (cases w) (force simp: KvSet host_kv_set_def Let_def case_prod_unfold)
next
  case (KvDelete key)
  have "issued hs c (Delete (ns_key hs TAG_KV key))" by (simp add: KvDelete issued_def)
  then show ?thesis
    by (cases w) (force simp: KvDelete host_kv_delete_def Let_def split: option.split)
next
  case (CounterIncrement key d)
  have "issued hs c (Increment (ns_key hs TAG_COUNTER key) x)" for x
    by (simp add: CounterIncrement issued_def)
  then show ?thesis
    by (cases w) (force simp: CounterIncrement host_counter_increment_def Let_def case_prod_unfold)
next
  case (CounterGet key)
  have "issued hs c (Increment (ns_key hs TAG_COUNTER key) 0)" by (simp add: CounterGet issued_def)
  then show ?thesis
    by (cases w) (force simp: CounterGet host_counter_get_def Let_def case_prod_unfold)
next
  case (TryAcquire key cost)
  have "issued hs c (Try_Acquire (ns_key hs TAG_RATELIMIT key) cost spec (now_ms hs))"
    if "ratelimit_bucket hs = Some spec" for spec
    using that by (simp add: TryAcquire issued_def)
  then show ?thesis
    by (cases w) (force simp: TryAcquire host_try_acquire_def Let_def case_prod_unfold
        split: option.split)
qed simp

text \<open>What a filter can observe of the store.\<close>

lemma host_call_frame:
  assumes "kv_store B" "ns_key hs (call_tag c) (host_call_key c) \<noteq> k"
  shows "kv_get B (fst (run_host_call B hs c w)) k = kv_get B (fst w) k"
  using host_call_effect [of B hs c w] kv_store.run_call_frame [OF assms(1)] assms(2)
  by (auto simp: issued_def)

lemma history_frame:
  assumes "kv_store B" "\<forall>(hs, c) \<in> set h. ns_key hs (call_tag c) (host_call_key c) \<noteq> k"
  shows "kv_get B (fst (run_history B h w)) k = kv_get B (fst w) k"
  using assms(2)
proof (induction h arbitrary: w)
  case (Cons x h)
  then show ?case
    using host_call_frame [OF assms(1), of "fst x" "snd x" k w]
    by (auto simp: run_history_def case_prod_unfold)
qed (simp add: run_history_def)

section \<open>A filter cannot outrun its own rate limit\<close>

text \<open>The tokens granted on one bucket of the filter with prefix \<open>p\<close> over a history.\<close>

fun host_granted ::
  "'s KvBackend \<Rightarrow> bytes \<Rightarrow> bytes \<Rightarrow> HostState \<Rightarrow> host_call \<Rightarrow> 's world \<Rightarrow> nat" where
  "host_granted B p key hs (TryAcquire k cost) w =
     (if kv_prefix hs = p \<and> k = key \<and> allowed (snd (host_try_acquire B hs k cost w))
      then unat cost else 0)"
| "host_granted B p key hs c w = 0"

fun history_granted :: "'s KvBackend \<Rightarrow> bytes \<Rightarrow> bytes \<Rightarrow> history \<Rightarrow> 's world \<Rightarrow> nat" where
  "history_granted B p key [] w = 0"
| "history_granted B p key ((hs, c) # h) w =
     host_granted B p key hs c w + history_granted B p key h (run_host_call B hs c w)"

lemma host_granted_issued:
  assumes "host_granted B p key hs c w \<noteq> 0" "ratelimit_bucket hs = Some spec"
    and "K = ns_key hs TAG_RATELIMIT key"
  shows "\<exists>cost. c = TryAcquire key cost \<and> kv_prefix hs = p \<and>
    fst (run_host_call B hs c w) = run_call B (Try_Acquire K cost spec (now_ms hs)) (fst w) \<and>
    host_granted B p key hs c w = granted B K (Try_Acquire K cost spec (now_ms hs)) (fst w)"
proof -
  obtain cost where c: "c = TryAcquire key cost" "kv_prefix hs = p"
    "allowed (snd (host_try_acquire B hs key cost w))"
    using assms(1) by (cases c) (auto split: if_splits)
  then show ?thesis
    using assms(2,3)
    by (cases w) (auto simp: host_try_acquire_def Let_def case_prod_unfold split: if_splits)
qed

definition times_within :: "bytes \<Rightarrow> nat \<Rightarrow> nat \<Rightarrow> kv_call list \<Rightarrow> bool" where
  "times_within K t0 N bs \<longleftrightarrow> (\<forall>(c, n) \<in> set (acquires K bs). t0 \<le> unat n \<and> unat n \<le> N)"

lemma limits_only_Cons:
  "limits_only K spec (b # bs) \<longleftrightarrow> limits_only K spec bs \<and> limits_only K spec [b]"
  by (auto simp: limits_only_def)

lemma times_within_Cons:
  "times_within K t0 N (b # bs) \<longleftrightarrow> times_within K t0 N bs \<and> times_within K t0 N [b]"
  by (cases b) (auto simp: times_within_def)

lemma issued_fits:
  assumes "issued hs c b" "valid_prefix (kv_prefix hs)" "valid_prefix (kv_prefix hs')"
    and "K = ns_key hs' TAG_RATELIMIT key"
    and "kv_prefix hs = kv_prefix hs' \<longrightarrow> ratelimit_bucket hs = Some spec"
    and "t0 \<le> unat (now_ms hs)" "unat (now_ms hs) \<le> N"
  shows "limits_only K spec [b]" "times_within K t0 N [b]"
proof -
  have key: "call_key b = ns_key hs (call_tag c) (host_call_key c)"
    using assms(1) by (simp add: issued_def)
  then have own: "call_key b = K \<Longrightarrow> kv_prefix hs = kv_prefix hs' \<and> call_tag c = TAG_RATELIMIT"
    using ns_key_inj [OF assms(2,3)] assms(4) by auto
  have tr: "call_tag c = TAG_RATELIMIT \<Longrightarrow> \<exists>k cost. c = TryAcquire k cost" by (cases c) auto
  show "limits_only K spec [b]"
    using own tr assms(1,5) by (auto simp: limits_only_def issued_def)
  show "times_within K t0 N [b]"
    using own assms(1,6,7) by (cases b; cases c) (auto simp: times_within_def issued_def)
qed

lemma history_backend_calls:
  assumes "valid_prefix (kv_prefix hs')" "K = ns_key hs' TAG_RATELIMIT key" "p = kv_prefix hs'"
    and "\<forall>(hs, c) \<in> set h. valid_prefix (kv_prefix hs) \<and>
           (kv_prefix hs = p \<longrightarrow> ratelimit_bucket hs = Some spec) \<and>
           t0 \<le> unat (now_ms hs) \<and> unat (now_ms hs) \<le> N"
  shows "\<exists>bs. limits_only K spec bs \<and> times_within K t0 N bs \<and>
           history_granted B p key h w \<le> total_granted B K bs (fst w)"
  using assms(4)
proof (induction h arbitrary: w)
  case Nil
  then show ?case by (auto intro!: exI [of _ "[]"] simp: limits_only_def times_within_def)
next
  case (Cons x h)
  obtain hs c where x: "x = (hs, c)" by force
  let ?w' = "run_host_call B hs c w"
  obtain bs where bs: "limits_only K spec bs" "times_within K t0 N bs"
    "history_granted B p key h ?w' \<le> total_granted B K bs (fst ?w')"
    using Cons.IH [of ?w'] Cons.prems by auto
  have ok: "valid_prefix (kv_prefix hs)" "kv_prefix hs = kv_prefix hs' \<longrightarrow> ratelimit_bucket hs = Some spec"
    "t0 \<le> unat (now_ms hs)" "unat (now_ms hs) \<le> N"
    using Cons.prems assms(3) by (auto simp: x)
  have step: ?case if b: "issued hs c b" "fst ?w' = run_call B b (fst w)"
    "host_granted B p key hs c w \<le> granted B K b (fst w)" for b
    using bs b issued_fits [OF b(1) ok(1) assms(1,2) ok(2-4)]
    by (intro exI [of _ "b # bs"])
       (auto simp: x limits_only_Cons [of K spec b bs] times_within_Cons [of K t0 N b bs])
  show ?case
  proof (cases "host_granted B p key hs c w = 0")
    case True
    then show ?thesis using host_call_effect [of B hs c w] step bs by (auto simp: x)
  next
    case False
    then have "kv_prefix hs = p" by (cases c) (auto split: if_splits)
    then have own: "ratelimit_bucket hs = Some spec" "K = ns_key hs TAG_RATELIMIT key"
      using ok assms(2,3) by (auto simp: ns_key_def)
    from host_granted_issued [OF False own] obtain cost where
      "c = TryAcquire key cost" "fst ?w' = run_call B (Try_Acquire K cost spec (now_ms hs)) (fst w)"
      "host_granted B p key hs c w = granted B K (Try_Acquire K cost spec (now_ms hs)) (fst w)"
      by blast
    then show ?thesis using step own by (auto simp: issued_def)
  qed
qed

section \<open>Facts about log messages\<close>

lemma byte_len_truncate: "byte_len (truncate_bytes s n) \<le> n"
  by (induction s n rule: truncate_bytes.induct) (auto simp: byte_len_def)

lemma floor_boundary_le: "floor_boundary s n \<le> n"
  by (induction s n rule: floor_boundary.induct) auto

lemma byte_len_replace:
  "byte_len (map (\<lambda>c. if is_control c then 0xfffd else c) s) \<le> 3 * byte_len s"
  by (induction s) (auto simp: byte_len_def utf8_len_def)

lemma sanitize_byte_len: "byte_len (sanitize_log_message s) \<le> 3 * MAX_LOG_MSG_BYTES"
proof -
  define t where "t = (if byte_len s > MAX_LOG_MSG_BYTES
     then truncate_bytes s (floor_boundary s MAX_LOG_MSG_BYTES) else s)"
  have "byte_len t \<le> MAX_LOG_MSG_BYTES"
    using byte_len_truncate [of s "floor_boundary s MAX_LOG_MSG_BYTES"]
      floor_boundary_le [of s MAX_LOG_MSG_BYTES] by (auto simp: t_def intro: order.trans)
  then show ?thesis
    using byte_len_replace [of t]
    by (simp add: sanitize_log_message_def Let_def flip: t_def)
qed

lemma sanitize_no_C0: "c \<in> set (sanitize_log_message s) \<Longrightarrow> 0x20 \<le> c \<and> c \<noteq> 0x7f"
  by (force simp: sanitize_log_message_def Let_def list_ex_iff is_control_def split: if_splits)

definition log_all :: "HostState \<Rightarrow> (LogLevel \<times> ustring) list \<Rightarrow> HostState" where
  "log_all hs ls = fold (\<lambda>(lev, msg) h. host_log h lev msg) ls hs"

definition clean_line :: "LogLine \<Rightarrow> bool" where
  "clean_line l \<longleftrightarrow> list_all (\<lambda>c. 0x20 \<le> c \<and> c \<noteq> 0x7f) (message l) \<and>
     byte_len (message l) \<le> 3 * MAX_LOG_MSG_BYTES"

lemma trunc_marker_clean: "clean_line \<lparr>level = Warn, message = trunc_marker\<rparr>"
  by (simp add: clean_line_def trunc_marker_def byte_len_def utf8_len_def MAX_LOG_MSG_BYTES_def)

lemma host_log_clean:
  assumes "list_all clean_line (logs hs)" "length (logs hs) \<le> MAX_LOG_LINES_PER_REQUEST"
  shows "list_all clean_line (logs (host_log hs lev msg)) \<and>
         length (logs (host_log hs lev msg)) \<le> MAX_LOG_LINES_PER_REQUEST"
  using assms trunc_marker_clean sanitize_byte_len [of msg] sanitize_no_C0 [of _ msg]
  by (auto simp: host_log_def Let_def clean_line_def list_all_iff MAX_LOG_LINES_PER_REQUEST_def)

section \<open>Properties\<close>

text \<open>a filter cannot outrun its configured rate limit through the host interface. Over any
  history of capability calls of any filters, the tokens granted on one of its buckets stay within
  the budget of the host-configured specification, whatever keys and values the filters write,
  count or delete, and whatever the quota does.\<close>

theorem host_rate_bound:
  assumes "valid_prefix (kv_prefix hs')" "m (ns_key hs' TAG_RATELIMIT key) = None"
    and "\<forall>(hs, c) \<in> set h. valid_prefix (kv_prefix hs) \<and>
           (kv_prefix hs = kv_prefix hs' \<longrightarrow> ratelimit_bucket hs = Some spec) \<and>
           t0 \<le> unat (now_ms hs) \<and> unat (now_ms hs) \<le> N"
  shows "history_granted MemoryBackend (kv_prefix hs') key h (m, q) \<le> bucket_budget spec t0 N"
proof -
  let ?K = "ns_key hs' TAG_RATELIMIT key"
  obtain bs where bs: "limits_only ?K spec bs" "times_within ?K t0 N bs"
    "history_granted MemoryBackend (kv_prefix hs') key h (m, q) \<le> total_granted MemoryBackend ?K bs m"
    using history_backend_calls [OF assms(1) refl refl assms(3), where B = MemoryBackend and w = "(m, q)"]
    by auto
  have "bucket_input (kv_get MemoryBackend m ?K) = (\<lambda>_. None)"
    using assms(2) by (simp add: bucket_input_def fun_eq_iff)
  from mem.total_granted_run [OF bs(1) this] bs(2,3) show ?thesis
    using bucket_run_span [of "acquires ?K bs" t0 N spec] by (simp add: times_within_def)
qed

theorem host_rate_bound_witness:
  "\<exists>hs. history_granted MemoryBackend [97, 0x1f] [120]
     [(hs, TryAcquire [120] 2), (hs, KvDelete [120]), (hs, TryAcquire [120] 2)]
     (Map.empty, KvQuota_new) \<le> 3"
proof -
  let ?spec = "\<lparr>capacity = 3, refill_tokens = 1, refill_interval_ms = 1000\<rparr>"
  let ?hs = "\<lparr>kv_prefix = [97, 0x1f], logs = [], now_ms = 500, ratelimit_bucket = Some ?spec\<rparr>"
  have "history_granted MemoryBackend [97, 0x1f] [120]
     [(?hs, TryAcquire [120] 2), (?hs, KvDelete [120]), (?hs, TryAcquire [120] 2)]
     (Map.empty, KvQuota_new) \<le> 3"
    using host_rate_bound [of ?hs Map.empty "[120]"
        "[(?hs, TryAcquire [120] 2), (?hs, KvDelete [120]), (?hs, TryAcquire [120] 2)]"
        ?spec 500 500 KvQuota_new]
    by (simp add: valid_prefix_def tag_defs bucket_budget_def no_refill_def)
  then show ?thesis by (rule exI [of _ ?hs])
qed

text \<open>C21: filters are isolated. Whatever calls filters with other ids make, a filter reads the same
  keys and counters as before, and a bucket it already has answers an acquire the same way.\<close>

theorem filter_isolation:
  assumes "valid_prefix (kv_prefix hs)"
    and "\<forall>(hs', c) \<in> set h. valid_prefix (kv_prefix hs') \<and> kv_prefix hs' \<noteq> kv_prefix hs"
  shows "host_kv_get MemoryBackend hs key (run_history MemoryBackend h w)
           = host_kv_get MemoryBackend hs key w \<and>
         snd (host_counter_get MemoryBackend hs key (run_history MemoryBackend h w))
           = snd (host_counter_get MemoryBackend hs key w) \<and>
         (fst w (ns_key hs TAG_RATELIMIT key) \<noteq> None \<longrightarrow>
            snd (host_try_acquire MemoryBackend hs key cost (run_history MemoryBackend h w))
              = snd (host_try_acquire MemoryBackend hs key cost w))"
proof -
  obtain m q where w: "w = (m, q)" by force
  obtain m' q' where r: "run_history MemoryBackend h (m, q) = (m', q')" by force
  have "m' (ns_key hs tag k) = m (ns_key hs tag k)" for tag k
    using history_frame [OF mem.kv_store_axioms, of h "ns_key hs tag k" w] assms w r ns_key_inj
    by fastforce
  note eq = this mem.read_counter mem.acquire_result
  have "host_kv_get MemoryBackend hs key (m', q') = host_kv_get MemoryBackend hs key (m, q)"
    by (simp add: host_kv_get_def eq)
  moreover have "snd (host_counter_get MemoryBackend hs key (m', q'))
      = snd (host_counter_get MemoryBackend hs key (m, q))"
    by (simp add: host_counter_get_def eq)
  moreover have "snd (host_try_acquire MemoryBackend hs key cost (m', q'))
      = snd (host_try_acquire MemoryBackend hs key cost (m, q))"
    if "m (ns_key hs TAG_RATELIMIT key) = Some v" for v
    using that by (cases "ratelimit_bucket hs")
      (simp_all add: host_try_acquire_def Let_def case_prod_unfold eq)
  ultimately show ?thesis by (auto simp: w r)
qed

theorem filter_isolation_witness:
  "\<exists>a b. host_kv_get MemoryBackend a [120]
     (run_history MemoryBackend [(b, KvSet [120] [1]), (b, KvDelete [120])]
        ([ns_key a TAG_KV [120] \<mapsto> [9]], KvQuota_new)) = Some [9]"
proof -
  let ?a = "\<lparr>kv_prefix = [97, 0x1f], logs = [], now_ms = 0, ratelimit_bucket = None\<rparr>"
  let ?b = "\<lparr>kv_prefix = [98, 0x1f], logs = [], now_ms = 0, ratelimit_bucket = None\<rparr>"
  have "host_kv_get MemoryBackend ?a [120]
     (run_history MemoryBackend [(?b, KvSet [120] [1]), (?b, KvDelete [120])]
        ([ns_key ?a TAG_KV [120] \<mapsto> [9]], KvQuota_new)) = Some [9]"
    using filter_isolation [of ?a "[(?b, KvSet [120] [1]), (?b, KvDelete [120])]" "[120]"
        "([ns_key ?a TAG_KV [120] \<mapsto> [9]], KvQuota_new)"]
    by (simp add: valid_prefix_def tag_defs host_kv_get_def)
  then show ?thesis by blast
qed



text \<open>the log buffer of a request is bounded and cannot break a log line. After any sequence of
  log calls of a request there are at most 256 lines, none longer than three times the message cap
  (each control character may become the three-byte replacement character), and none contains a
  C0 control character or DEL. A message whose only control characters are C1 is kept as it is.\<close>

theorem log_bounded_and_clean:
  "length (logs (log_all (begin_request hs wall) ls)) \<le> MAX_LOG_LINES_PER_REQUEST \<and>
   list_all clean_line (logs (log_all (begin_request hs wall) ls)) \<and>
   (0x80 \<le> c \<and> c \<le> 0x9f \<longrightarrow> is_control c \<and> sanitize_log_message [c] = [c])"
proof -
  have "list_all clean_line (logs (log_all g ls)) \<and>
        length (logs (log_all g ls)) \<le> MAX_LOG_LINES_PER_REQUEST"
    if "list_all clean_line (logs g)" "length (logs g) \<le> MAX_LOG_LINES_PER_REQUEST" for g
    using that
  proof (induction ls arbitrary: g)
    case (Cons l ls)
    then show ?case using host_log_clean [of g "fst l" "snd l"]
      by (simp add: log_all_def case_prod_unfold)
  qed (simp add: log_all_def)
  from this [of "begin_request hs wall"] show ?thesis
    by (auto simp: begin_request_def sanitize_log_message_def byte_len_def utf8_len_def
        is_control_def MAX_LOG_MSG_BYTES_def)
qed

theorem log_bounded_and_clean_witness:
  "is_control 0x9b \<and> sanitize_log_message [0x9b] = [0x9b]"
  using log_bounded_and_clean [where c = "0x9b"] by simp

end
