(* ===== verification/Http.thy ===== *)
theory Http
  imports Strings
begin

text \<open>
  The messages that cross the filter boundary, as the WIT contract of the host declares them:
  requests and responses with an ordered list of header lines, and the edits a filter may ask for.
\<close>

record Header =
  h_name :: string
  h_value :: string

record HttpRequest =
  req_method :: string
  req_path :: string
  req_authority :: string
  req_scheme :: string
  req_headers :: "Header list"

record HttpResponse =
  resp_status :: u16
  resp_headers :: "Header list"
  resp_body :: bytes

text \<open>What a filter decides: pass on, edit, or answer in the place of the upstream.\<close>

record RequestEdit =
  re_set_headers :: "Header list"
  re_remove_headers :: "string list"

record ResponseEdit =
  rs_set_status :: "u16 option"
  rs_set_headers :: "Header list"
  rs_remove_headers :: "string list"

datatype RequestDecision = Continue | Modified RequestEdit | ShortCircuit HttpResponse

datatype ResponseDecision = RespContinue | RespModified ResponseEdit

datatype RequestBodyDecision = BodyContinue bytes | BodyShortCircuit HttpResponse

text \<open>The bytes of a string literal.\<close>

definition str_bytes :: "string \<Rightarrow> bytes" where
  "str_bytes s = map of_char s"

text \<open>The first line with a name, ignoring case, and all values of it.\<close>

definition first_header :: "Header list \<Rightarrow> string \<Rightarrow> Header option" where
  "first_header hs name = find (\<lambda>h. eq_ignore_case (h_name h) name) hs"

definition header_values :: "Header list \<Rightarrow> string \<Rightarrow> string list" where
  "header_values hs name = map h_value (filter (\<lambda>h. eq_ignore_case (h_name h) name) hs)"

lemma header_values_append [simp]: "header_values (xs @ ys) n = header_values xs n @ header_values ys n"
  by (simp add: header_values_def)

end
