(* ===== verification/Pool.thy ===== *)
theory Pool
  imports Outbound HostState Http
begin

text \<open>
  Loading options and the instance lifecycle of a filter, \<open>host/src/lib.rs\<close>: the faults of a filter
  call, the fresh-per-request lifecycle of untrusted filters, and the bounded pool of reusable
  instances of a trusted one with its checkout, recycling and trap breaker. The WASM engine is the
  \<open>FilterRuntime\<close> argument, as it is a type parameter in the code. Every section that runs under the
  pool's lock is one definition; what other threads do between them is an argument.
\<close>

section \<open>Load options\<close>

datatype Isolation = IsoTrusted | IsoUntrusted

definition DEFAULT_INIT_DEADLINE_MS :: u64 where "DEFAULT_INIT_DEADLINE_MS = 5000"
definition DEFAULT_UNTRUSTED_INIT_DEADLINE_MS :: u64 where "DEFAULT_UNTRUSTED_INIT_DEADLINE_MS = 250"
definition DEFAULT_REQUEST_DEADLINE_MS :: u64 where "DEFAULT_REQUEST_DEADLINE_MS = 100"
definition DEFAULT_MAX_MEMORY_BYTES :: u64 where "DEFAULT_MAX_MEMORY_BYTES = 64 * 2 ^ 20"
definition DEFAULT_CHECKOUT_TIMEOUT_MS :: u64 where "DEFAULT_CHECKOUT_TIMEOUT_MS = 250"
definition DEFAULT_MAX_REQUESTS_PER_INSTANCE :: u64 where "DEFAULT_MAX_REQUESTS_PER_INSTANCE = 2 ^ 16"
definition TRUSTED_POOL_DEFAULT_CEIL :: nat where "TRUSTED_POOL_DEFAULT_CEIL = 8"
definition TRUSTED_POOL_SLOTS :: nat where "TRUSTED_POOL_SLOTS = 256"
definition TRUSTED_POOL_MAX :: nat where "TRUSTED_POOL_MAX = TRUSTED_POOL_SLOTS"

text \<open>\<open>Ord::clamp\<close>, and \<open>available_parallelism\<close> as an argument.\<close>

definition clamp :: "'a::linorder \<Rightarrow> 'a \<Rightarrow> 'a \<Rightarrow> 'a" where
  "clamp v lo hi = (if v < lo then lo else if hi < v then hi else v)"

definition default_trusted_pool_size :: "nat option \<Rightarrow> nat" where
  "default_trusted_pool_size par =
     clamp (case par of Some n \<Rightarrow> n | None \<Rightarrow> 1) 1 TRUSTED_POOL_DEFAULT_CEIL"

definition DEFAULT_OUTBOUND_CONNECT_TIMEOUT_MS :: u64 where "DEFAULT_OUTBOUND_CONNECT_TIMEOUT_MS = 2000"
definition MAX_OUTBOUND_CONNECT_TIMEOUT_MS :: u64 where "MAX_OUTBOUND_CONNECT_TIMEOUT_MS = 10000"
definition DEFAULT_OUTBOUND_TOTAL_TIMEOUT_MS :: u64 where "DEFAULT_OUTBOUND_TOTAL_TIMEOUT_MS = 5000"
definition MAX_OUTBOUND_TOTAL_TIMEOUT_MS :: u64 where "MAX_OUTBOUND_TOTAL_TIMEOUT_MS = 30000"
definition DEFAULT_OUTBOUND_MAX_RESPONSE_BYTES :: u64 where "DEFAULT_OUTBOUND_MAX_RESPONSE_BYTES = 64 * 1024"
definition MAX_OUTBOUND_MAX_RESPONSE_BYTES :: u64 where "MAX_OUTBOUND_MAX_RESPONSE_BYTES = 2 ^ 20"
definition DEFAULT_OUTBOUND_MAX_CONCURRENT :: u32 where "DEFAULT_OUTBOUND_MAX_CONCURRENT = 8"
definition MAX_OUTBOUND_MAX_CONCURRENT :: u32 where "MAX_OUTBOUND_MAX_CONCURRENT = 64"

record LoadOptions =
  lo_isolation :: Isolation
  lo_init_deadline_ms :: u64
  lo_request_deadline_ms :: u64
  lo_max_memory_bytes :: u64
  lo_trusted_pool_size :: nat
  lo_checkout_timeout_ms :: u64
  lo_max_requests_per_instance :: u64
  lo_ratelimit_bucket :: "Bucket option"
  lo_outbound :: "OutboundPolicy option"

definition LoadOptions_default :: "nat option \<Rightarrow> LoadOptions" where
  "LoadOptions_default par =
     \<lparr>lo_isolation = IsoUntrusted,
      lo_init_deadline_ms = DEFAULT_UNTRUSTED_INIT_DEADLINE_MS,
      lo_request_deadline_ms = DEFAULT_REQUEST_DEADLINE_MS,
      lo_max_memory_bytes = DEFAULT_MAX_MEMORY_BYTES,
      lo_trusted_pool_size = default_trusted_pool_size par,
      lo_checkout_timeout_ms = DEFAULT_CHECKOUT_TIMEOUT_MS,
      lo_max_requests_per_instance = DEFAULT_MAX_REQUESTS_PER_INSTANCE,
      lo_ratelimit_bucket = None,
      lo_outbound = None\<rparr>"

definition options_trusted :: "nat option \<Rightarrow> LoadOptions" where
  "options_trusted par =
     (LoadOptions_default par)\<lparr>lo_isolation := IsoTrusted, lo_init_deadline_ms := DEFAULT_INIT_DEADLINE_MS\<rparr>"

definition options_untrusted :: "nat option \<Rightarrow> LoadOptions" where
  "options_untrusted par = LoadOptions_default par"

definition with_request_deadline_ms :: "u64 \<Rightarrow> LoadOptions \<Rightarrow> LoadOptions" where
  "with_request_deadline_ms ms o' = o'\<lparr>lo_request_deadline_ms := ms\<rparr>"

definition with_init_deadline_ms :: "u64 \<Rightarrow> LoadOptions \<Rightarrow> LoadOptions" where
  "with_init_deadline_ms ms o' = o'\<lparr>lo_init_deadline_ms := ms\<rparr>"

definition with_max_memory_bytes :: "u64 \<Rightarrow> LoadOptions \<Rightarrow> LoadOptions" where
  "with_max_memory_bytes n o' = o'\<lparr>lo_max_memory_bytes := n\<rparr>"

definition with_trusted_pool_size :: "nat \<Rightarrow> LoadOptions \<Rightarrow> LoadOptions" where
  "with_trusted_pool_size n o' = o'\<lparr>lo_trusted_pool_size := n\<rparr>"

definition with_checkout_timeout_ms :: "u64 \<Rightarrow> LoadOptions \<Rightarrow> LoadOptions" where
  "with_checkout_timeout_ms ms o' = o'\<lparr>lo_checkout_timeout_ms := ms\<rparr>"

definition with_max_requests_per_instance :: "u64 \<Rightarrow> LoadOptions \<Rightarrow> LoadOptions" where
  "with_max_requests_per_instance n o' = o'\<lparr>lo_max_requests_per_instance := n\<rparr>"

definition with_ratelimit_bucket :: "u64 \<Rightarrow> u64 \<Rightarrow> u64 \<Rightarrow> LoadOptions \<Rightarrow> LoadOptions" where
  "with_ratelimit_bucket cap' tokens interval o' =
     o'\<lparr>lo_ratelimit_bucket := Some \<lparr>capacity = cap', refill_tokens = tokens, refill_interval_ms = interval\<rparr>\<rparr>"

definition clamp_opt :: "'a::{linorder, one} option \<Rightarrow> 'a \<Rightarrow> 'a \<Rightarrow> 'a" where
  "clamp_opt v def hi = clamp (case v of Some x \<Rightarrow> x | None \<Rightarrow> def) 1 hi"

definition with_outbound ::
    "(string \<Rightarrow> IpNet option) \<Rightarrow> AllowEntry list \<Rightarrow> string list \<Rightarrow> u64 option \<Rightarrow> u64 option \<Rightarrow> u64 option \<Rightarrow>
     u32 option \<Rightarrow> LoadOptions \<Rightarrow> LoadOptions" where
  "with_outbound parse_net allow allow_private connect_timeout_ms total_timeout_ms max_response_bytes max_concurrent o' =
     o'\<lparr>lo_outbound := Some
         \<lparr>op_allow = allow,
          op_allow_private = List.map_filter parse_net allow_private,
          op_connect_timeout =
            clamp_opt connect_timeout_ms DEFAULT_OUTBOUND_CONNECT_TIMEOUT_MS MAX_OUTBOUND_CONNECT_TIMEOUT_MS,
          op_total_timeout =
            clamp_opt total_timeout_ms DEFAULT_OUTBOUND_TOTAL_TIMEOUT_MS MAX_OUTBOUND_TOTAL_TIMEOUT_MS,
          op_max_response_bytes =
            clamp_opt max_response_bytes DEFAULT_OUTBOUND_MAX_RESPONSE_BYTES MAX_OUTBOUND_MAX_RESPONSE_BYTES,
          op_max_concurrent =
            clamp_opt max_concurrent DEFAULT_OUTBOUND_MAX_CONCURRENT MAX_OUTBOUND_MAX_CONCURRENT\<rparr>\<rparr>"

section \<open>Faults\<close>

datatype RunError = Deadline | Trap string | Instantiate string | Unavailable

text \<open>The engine's error of a guest call: the interrupt trap, or another with its message.\<close>

datatype wasm_error = Interrupt | OtherError string

fun from_call :: "wasm_error \<Rightarrow> RunError" where
  "from_call Interrupt = Deadline"
| "from_call (OtherError e) = Trap e"

definition fail_closed_response :: "RunError \<Rightarrow> HttpResponse" where
  "fail_closed_response e =
     (let (status, fault, msg) =
        (case e of
           Deadline \<Rightarrow> (504, ''deadline'', ''filter deadline exceeded'')
         | Trap _ \<Rightarrow> (502, ''trap'', ''filter trapped'')
         | Instantiate _ \<Rightarrow> (502, ''instantiate'', ''filter instantiation failed'')
         | Unavailable \<Rightarrow> (503, ''unavailable'', ''filter temporarily unavailable''))
      in \<lparr>resp_status = status,
          resp_headers = [\<lparr>h_name = ''x-plecto-fault'', h_value = fault\<rparr>],
          resp_body = str_bytes msg\<rparr>)"

section \<open>The pool\<close>

definition TRUSTED_TRAP_BREAKER_THRESHOLD :: u32 where "TRUSTED_TRAP_BREAKER_THRESHOLD = 3"
definition TRUSTED_TRAP_COOLDOWN_MS :: u64 where "TRUSTED_TRAP_COOLDOWN_MS = 500"

record 'i PooledInstance =
  instance_of :: 'i
  served :: u64

record 'i PoolInner =
  idle :: "'i PooledInstance list"
  live :: nat
  consecutive_traps :: u32
  cooldown_until_ms :: u64

definition clear_breaker :: "'i PoolInner \<Rightarrow> 'i PoolInner" where
  "clear_breaker g = g\<lparr>consecutive_traps := 0, cooldown_until_ms := 0\<rparr>"

record TrustedPool =
  pool_cap :: nat
  pool_checkout_timeout :: u64
  pool_max_requests :: u64

definition TrustedPool_new :: "'i \<Rightarrow> 'i PoolInner" where
  "TrustedPool_new first =
     \<lparr>idle = [\<lparr>instance_of = first, served = 0\<rparr>], live = 1, consecutive_traps = 0, cooldown_until_ms = 0\<rparr>"

text \<open>The decision of one pass of the checkout loop, made under the lock. \<open>idle\<close> is a stack whose top is
  the head of the list.\<close>

datatype 'i checkout_decision =
  Refuse
| Use "'i PooledInstance" "'i PoolInner"
| Build "'i PoolInner"
| Wait

definition checkout_step :: "TrustedPool \<Rightarrow> u64 \<Rightarrow> 'i PoolInner \<Rightarrow> 'i checkout_decision" where
  "checkout_step pool now g =
     (if now < cooldown_until_ms g then Refuse
      else case idle g of
             p # ps \<Rightarrow> Use p (g\<lparr>idle := ps\<rparr>)
           | [] \<Rightarrow> if live g < pool_cap pool then Build (g\<lparr>live := live g + 1\<rparr>) else Wait)"

definition rollback :: "'i PoolInner \<Rightarrow> 'i PoolInner" where
  "rollback g = g\<lparr>live := live g - 1\<rparr>"

definition check_in :: "TrustedPool \<Rightarrow> 'i PooledInstance \<Rightarrow> 'i PoolInner \<Rightarrow> 'i PoolInner" where
  "check_in pool p g =
     (let p = p\<lparr>served := sat_add (served p) 1\<rparr> in
      if pool_max_requests pool \<le> served p
      then let g = clear_breaker g in g\<lparr>live := live g - 1\<rparr>
      else let g = clear_breaker g in g\<lparr>idle := p # idle g\<rparr>)"

definition discard :: "u64 \<Rightarrow> 'i PoolInner \<Rightarrow> 'i PoolInner" where
  "discard now g =
     (let g = g\<lparr>live := live g - 1, consecutive_traps := sat_add (consecutive_traps g) 1\<rparr> in
      if TRUSTED_TRAP_BREAKER_THRESHOLD \<le> consecutive_traps g
      then g\<lparr>cooldown_until_ms := sat_add now TRUSTED_TRAP_COOLDOWN_MS\<rparr>
      else g)"

text \<open>The seam to the engine, over the state \<open>'w\<close> of everything outside the pool.\<close>

record ('i, 'w) FilterRuntime =
  instantiate_initialized :: "'w \<Rightarrow> (string + 'i) \<times> 'w"
  rt_begin_request :: "'i \<Rightarrow> 'i"
  set_request_deadline :: "'i \<Rightarrow> 'i"
  take_logs :: "'i \<Rightarrow> LogLine list \<times> 'i"

type_synonym ('i, 'w, 'a) guest_call = "'i \<Rightarrow> 'w \<Rightarrow> (wasm_error + 'a) \<times> 'i \<times> 'w"

text \<open>What a request does not control: each wake-up of the condition variable (whether the wait timed
  out, the pool then, the clock then), and what other threads do to the pool while this one builds
  an instance or runs the guest.\<close>

record 'i schedule =
  wakes :: "(bool \<times> 'i PoolInner \<times> u64) list"
  during_build :: "'i PoolInner \<Rightarrow> 'i PoolInner"
  during_call :: "'i PoolInner \<Rightarrow> 'i PoolInner"
  trap_clock :: u64

fun checkout ::
    "('i, 'w) FilterRuntime \<Rightarrow> TrustedPool \<Rightarrow> ('i PoolInner \<Rightarrow> 'i PoolInner) \<Rightarrow> (bool \<times> 'i PoolInner \<times> u64) list \<Rightarrow>
     u64 \<Rightarrow> 'i PoolInner \<Rightarrow> 'w \<Rightarrow> ((RunError + 'i PooledInstance) \<times> 'i PoolInner \<times> 'w) option" where
  "checkout rt pool others ws now g w =
     (case checkout_step pool now g of
        Refuse \<Rightarrow> Some (Inl Unavailable, g, w)
      | Use p g' \<Rightarrow> Some (Inr p, g', w)
      | Build g' \<Rightarrow>
          (case instantiate_initialized rt w of
             (Inr i, w') \<Rightarrow> Some (Inr \<lparr>instance_of = i, served = 0\<rparr>, others g', w')
           | (Inl e, w') \<Rightarrow> Some (Inl (Instantiate e), rollback (others g'), w'))
      | Wait \<Rightarrow>
          (case ws of
             [] \<Rightarrow> None
           | (timed_out, g', now') # ws' \<Rightarrow>
               if timed_out then Some (Inl Unavailable, g', w)
               else checkout rt pool others ws' now' g' w))"

declare checkout.simps [simp del]

definition run_fresh ::
    "('i, 'w) FilterRuntime \<Rightarrow> ('i, 'w, 'a) guest_call \<Rightarrow> 'w \<Rightarrow> (RunError + 'a \<times> LogLine list) \<times> 'w" where
  "run_fresh rt call w =
     (case instantiate_initialized rt w of
        (Inl e, w) \<Rightarrow> (Inl (Instantiate e), w)
      | (Inr inst, w) \<Rightarrow>
          (case call (set_request_deadline rt inst) w of
             (Inr v, inst, w) \<Rightarrow> (Inr (v, fst (take_logs rt inst)), w)
           | (Inl e, _, w) \<Rightarrow> (Inl (from_call e), w)))"

definition run_pooled ::
    "('i, 'w) FilterRuntime \<Rightarrow> TrustedPool \<Rightarrow> 'i schedule \<Rightarrow> u64 \<Rightarrow> ('i, 'w, 'a) guest_call \<Rightarrow> 'i PoolInner \<Rightarrow> 'w \<Rightarrow>
     ((RunError + 'a \<times> LogLine list) \<times> 'i PoolInner \<times> 'w) option" where
  "run_pooled rt pool s now call g w =
     (case checkout rt pool (during_build s) (wakes s) now g w of
        None \<Rightarrow> None
      | Some (Inl e, g, w) \<Rightarrow> Some (Inl e, g, w)
      | Some (Inr p, g, w) \<Rightarrow>
          (case call (set_request_deadline rt (rt_begin_request rt (instance_of p))) w of
             (Inr v, inst, w) \<Rightarrow>
               (let (logs, inst) = take_logs rt inst
                in Some (Inr (v, logs), check_in pool (p\<lparr>instance_of := inst\<rparr>) (during_call s g), w))
           | (Inl e, _, w) \<Rightarrow> Some (Inl (from_call e), discard (trap_clock s) (during_call s g), w)))"

definition run_hook ::
    "('i, 'w) FilterRuntime \<Rightarrow> (TrustedPool \<times> 'i PoolInner) option \<Rightarrow> 'i schedule \<Rightarrow> u64 \<Rightarrow> ('i, 'w, 'a) guest_call \<Rightarrow> 'w \<Rightarrow>
     ((RunError + 'a \<times> LogLine list) \<times> (TrustedPool \<times> 'i PoolInner) option \<times> 'w) option" where
  "run_hook rt trusted s now call w =
     (case trusted of
        Some (pool, g) \<Rightarrow> map_option (\<lambda>(r, g, w). (r, Some (pool, g), w)) (run_pooled rt pool s now call g w)
      | None \<Rightarrow> (let (r, w) = run_fresh rt call w in Some (r, None, w)))"

section \<open>Interleaved requests\<close>

text \<open>Each thread is outside the pool, waiting on the condition variable, building an instance in a
  reserved slot, or running the guest in a checked-out instance. A step is one section under the
  lock, one wake-up, or the end of a build. \<open>gone\<close> collects the instances that trapped or were recycled;
  an instance the engine builds is a new one.\<close>

datatype 'i pool_pc = Outside | Waiting | Building | Running "'i PooledInstance"

record 'i pool_state =
  inner :: "'i PoolInner"
  pcs :: "'i pool_pc list"
  made :: "'i set"
  gone :: "'i set"

inductive pool_step :: "TrustedPool \<Rightarrow> 'i pool_state \<Rightarrow> 'i pool_state \<Rightarrow> bool" for pool where
  step_use: "t < length (pcs s) \<Longrightarrow> pcs s ! t = Outside \<Longrightarrow> checkout_step pool now (inner s) = Use p g \<Longrightarrow>
    pool_step pool s (s\<lparr>inner := g, pcs := (pcs s)[t := Running p]\<rparr>)"
| step_build: "t < length (pcs s) \<Longrightarrow> pcs s ! t = Outside \<Longrightarrow> checkout_step pool now (inner s) = Build g \<Longrightarrow>
    pool_step pool s (s\<lparr>inner := g, pcs := (pcs s)[t := Building]\<rparr>)"
| step_wait: "t < length (pcs s) \<Longrightarrow> pcs s ! t = Outside \<Longrightarrow> checkout_step pool now (inner s) = Wait \<Longrightarrow>
    pool_step pool s (s\<lparr>pcs := (pcs s)[t := Waiting]\<rparr>)"
| step_wake: "t < length (pcs s) \<Longrightarrow> pcs s ! t = Waiting \<Longrightarrow>
    pool_step pool s (s\<lparr>pcs := (pcs s)[t := Outside]\<rparr>)"
| step_built: "t < length (pcs s) \<Longrightarrow> pcs s ! t = Building \<Longrightarrow> i \<notin> made s \<Longrightarrow>
    pool_step pool s (s\<lparr>pcs := (pcs s)[t := Running \<lparr>instance_of = i, served = 0\<rparr>], made := insert i (made s)\<rparr>)"
| step_build_failed: "t < length (pcs s) \<Longrightarrow> pcs s ! t = Building \<Longrightarrow>
    pool_step pool s (s\<lparr>inner := rollback (inner s), pcs := (pcs s)[t := Outside]\<rparr>)"
| step_ok: "t < length (pcs s) \<Longrightarrow> pcs s ! t = Running p \<Longrightarrow>
    pool_step pool s (s\<lparr>inner := check_in pool p (inner s), pcs := (pcs s)[t := Outside],
      gone := (if pool_max_requests pool \<le> sat_add (served p) 1 then insert (instance_of p) (gone s) else gone s)\<rparr>)"
| step_trap: "t < length (pcs s) \<Longrightarrow> pcs s ! t = Running p \<Longrightarrow>
    pool_step pool s (s\<lparr>inner := discard now (inner s), pcs := (pcs s)[t := Outside],
      gone := insert (instance_of p) (gone s)\<rparr>)"

inductive pool_reachable :: "TrustedPool \<Rightarrow> 'i \<Rightarrow> nat \<Rightarrow> 'i pool_state \<Rightarrow> bool" for pool first n where
  pool_start: "pool_reachable pool first n
    \<lparr>inner = TrustedPool_new first, pcs = replicate n Outside, made = {first}, gone = {}\<rparr>"
| pool_more: "pool_reachable pool first n s \<Longrightarrow> pool_step pool s s' \<Longrightarrow> pool_reachable pool first n s'"

fun occupies :: "'i pool_pc \<Rightarrow> bool" where
  "occupies Building = True"
| "occupies (Running _) = True"
| "occupies _ = False"

fun held :: "'i pool_pc \<Rightarrow> 'i PooledInstance list" where
  "held (Running p) = [p]"
| "held _ = []"

definition pool_instances :: "'i pool_state \<Rightarrow> 'i PooledInstance list" where
  "pool_instances s = idle (inner s) @ concat (map held (pcs s))"

definition pool_inv :: "TrustedPool \<Rightarrow> 'i pool_state \<Rightarrow> bool" where
  "pool_inv pool s \<longleftrightarrow>
     live (inner s) = length (idle (inner s)) + length (filter occupies (pcs s)) \<and>
     live (inner s) \<le> pool_cap pool \<and>
     distinct (map instance_of (pool_instances s)) \<and>
     instance_of ` set (pool_instances s) \<subseteq> made s - gone s \<and>
     (\<forall>p\<in>set (pool_instances s). served p = 0 \<or> served p < pool_max_requests pool) \<and> gone s \<subseteq> made s"

text \<open>One thread changes its place: what that does to the counts and to the instances in use.\<close>

lemma split_thread:
  assumes "t < length xs"
  obtains as bs where "xs = as @ xs ! t # bs" "\<And>x. xs[t := x] = as @ x # bs"
proof
  show "xs = take t xs @ xs ! t # drop (Suc t) xs" using assms by (rule id_take_nth_drop)
  show "xs[t := x] = take t xs @ x # drop (Suc t) xs" for x using assms by (rule upd_conv_take_nth_drop)
qed

text \<open>The invariant seen from one thread: its own place, the pool, and the rest of the threads.\<close>

definition slot_inv ::
    "TrustedPool \<Rightarrow> 'i PoolInner \<Rightarrow> 'i pool_pc \<Rightarrow> 'i PooledInstance list \<Rightarrow> nat \<Rightarrow> 'i set \<Rightarrow> 'i set \<Rightarrow> bool" where
  "slot_inv pool g pc rest n mk gn \<longleftrightarrow>
     live g = length (idle g) + of_bool (occupies pc) + n \<and> live g \<le> pool_cap pool \<and>
     distinct (map instance_of (idle g @ held pc)) \<and> distinct (map instance_of rest) \<and>
     instance_of ` set (idle g @ held pc) \<inter> instance_of ` set rest = {} \<and>
     instance_of ` set (idle g @ held pc) \<subseteq> mk - gn \<and> instance_of ` set rest \<subseteq> mk - gn \<and>
     (\<forall>p\<in>set (idle g @ held pc). served p = 0 \<or> served p < pool_max_requests pool) \<and>
     (\<forall>p\<in>set rest. served p = 0 \<or> served p < pool_max_requests pool) \<and> gn \<subseteq> mk"

lemma distinct_regroup: "distinct (xs @ a @ h @ b) \<longleftrightarrow> distinct (xs @ h) \<and> distinct (a @ b) \<and> set (xs @ h) \<inter> set (a @ b) = {}"
  by auto

lemma pool_inv_split:
  assumes "pcs s = as @ pc # bs"
  shows "pool_inv pool s \<longleftrightarrow>
     slot_inv pool (inner s) pc (concat (map held (as @ bs))) (length (filter occupies (as @ bs))) (made s) (gone s)"
proof -
  define a b where "a = concat (map held as)" and "b = concat (map held bs)"
  have i: "pool_instances s = idle (inner s) @ a @ held pc @ b"
    by (simp add: pool_instances_def assms a_def b_def)
  have r: "concat (map held (as @ bs)) = a @ b" by (simp add: a_def b_def)
  have s: "set (pool_instances s) = set (idle (inner s) @ held pc) \<union> set (a @ b)" unfolding i by auto
  have d: "distinct (map instance_of (pool_instances s)) \<longleftrightarrow>
      distinct (map instance_of (idle (inner s) @ held pc)) \<and> distinct (map instance_of (a @ b)) \<and>
      instance_of ` set (idle (inner s) @ held pc) \<inter> instance_of ` set (a @ b) = {}"
    unfolding i map_append distinct_regroup by (simp add: image_Un)
  have f: "length (filter occupies (pcs s)) = of_bool (occupies pc) + length (filter occupies (as @ bs))"
    by (simp add: assms)
  show ?thesis
    unfolding pool_inv_def slot_inv_def r d f s image_Un ball_Un Un_subset_iff
    by (simp only: conj_assoc add.assoc)
qed

lemma checkout_step_Use:
  "checkout_step pool now g = Use p g' \<Longrightarrow> idle g = p # idle g' \<and> live g' = live g"
  by (auto simp: checkout_step_def split: if_splits list.splits)

lemma checkout_step_Build:
  "checkout_step pool now g = Build g' \<Longrightarrow> idle g' = idle g \<and> live g' = Suc (live g) \<and> live g < pool_cap pool"
  by (auto simp: checkout_step_def split: if_splits list.splits)

lemma slot_use:
  "slot_inv pool g Outside rest n mk gn \<Longrightarrow> checkout_step pool now g = Use p g' \<Longrightarrow> slot_inv pool g' (Running p) rest n mk gn"
  by (drule checkout_step_Use) (auto simp: slot_inv_def)

lemma slot_build:
  "slot_inv pool g Outside rest n mk gn \<Longrightarrow> checkout_step pool now g = Build g' \<Longrightarrow> slot_inv pool g' Building rest n mk gn"
  by (drule checkout_step_Build) (simp add: slot_inv_def)

lemma slot_wait: "slot_inv pool g Outside rest n mk gn \<longleftrightarrow> slot_inv pool g Waiting rest n mk gn"
  by (simp add: slot_inv_def)

lemma slot_built:
  assumes "slot_inv pool g Building rest n mk gn" "i \<notin> mk"
  shows "slot_inv pool g (Running \<lparr>instance_of = i, served = 0\<rparr>) rest n (insert i mk) gn"
proof -
  have "i \<notin> instance_of ` set (idle g)" "i \<notin> instance_of ` set rest" "i \<notin> gn"
    using assms unfolding slot_inv_def by auto
  then show ?thesis using assms(1) by (simp add: slot_inv_def) blast
qed

lemma slot_build_failed: "slot_inv pool g Building rest n mk gn \<Longrightarrow> slot_inv pool (rollback g) Outside rest n mk gn"
  by (simp add: slot_inv_def rollback_def)

lemma slot_drop:
  assumes "slot_inv pool g (Running p) rest n mk gn" "idle g' = idle g" "live g' = live g - 1"
  shows "slot_inv pool g' Outside rest n mk (insert (instance_of p) gn)"
  using assms by (simp add: slot_inv_def) blast

lemma slot_return:
  assumes "slot_inv pool g (Running p) rest n mk gn" "idle g' = p\<lparr>served := k\<rparr> # idle g" "live g' = live g"
    and "k < pool_max_requests pool"
  shows "slot_inv pool g' Outside rest n mk gn"
  using assms by (simp add: slot_inv_def)

lemma slot_check_in:
  assumes "slot_inv pool g (Running p) rest n mk gn"
  shows "slot_inv pool (check_in pool p g) Outside rest n mk
    (if pool_max_requests pool \<le> sat_add (served p) 1 then insert (instance_of p) gn else gn)"
proof (cases "pool_max_requests pool \<le> sat_add (served p) 1")
  case True
  then have "idle (check_in pool p g) = idle g" "live (check_in pool p g) = live g - 1"
    by (simp_all add: check_in_def clear_breaker_def Let_def)
  from slot_drop [OF assms this] True show ?thesis by simp
next
  case False
  then have "idle (check_in pool p g) = p\<lparr>served := sat_add (served p) 1\<rparr> # idle g" "live (check_in pool p g) = live g"
    by (simp_all add: check_in_def clear_breaker_def Let_def)
  from slot_return [OF assms this] False show ?thesis by simp
qed

lemma slot_discard:
  assumes "slot_inv pool g (Running p) rest n mk gn"
  shows "slot_inv pool (discard now g) Outside rest n mk (insert (instance_of p) gn)"
  by (rule slot_drop [OF assms]) (simp_all add: discard_def Let_def)

lemma pool_inv_step:
  assumes "pool_step pool s s'" "pool_inv pool s"
  shows "pool_inv pool s'"
proof -
  have move: "pool_inv pool (s\<lparr>inner := g, pcs := (pcs s)[t := pc'], made := mk, gone := gn\<rparr>)"
    if h1: "t < length (pcs s)" and h2: "pcs s ! t = pc"
      and h3: "\<And>rest n. slot_inv pool (inner s) pc rest n (made s) (gone s) \<Longrightarrow> slot_inv pool g pc' rest n mk gn"
    for t pc pc' g mk gn
  proof -
    obtain as bs where *: "pcs s = as @ pcs s ! t # bs" "\<And>x. (pcs s)[t := x] = as @ x # bs"
      using split_thread [OF h1] by metis
    have "pcs s = as @ pc # bs" using *(1) h2 by simp
    from h3 [OF pool_inv_split [THEN iffD1, OF this assms(2)]]
    show ?thesis by (intro pool_inv_split [THEN iffD2]) (simp_all add: *(2))
  qed
  have [simp]: "s\<lparr>inner := g, pcs := q, made := made s, gone := gone s\<rparr> = s\<lparr>inner := g, pcs := q\<rparr>"
    "s\<lparr>inner := inner s, pcs := q\<rparr> = s\<lparr>pcs := q\<rparr>"
    "s\<lparr>inner := inner s, pcs := q, made := mk, gone := gone s\<rparr> = s\<lparr>pcs := q, made := mk\<rparr>"
    "s\<lparr>inner := g, pcs := q, made := made s, gone := gn\<rparr> = s\<lparr>inner := g, pcs := q, gone := gn\<rparr>" for g q mk gn
    by simp_all
  from assms(1) show ?thesis
  proof cases
    case (step_use t now p g)
    then show ?thesis using move [of t Outside g "Running p" "made s" "gone s"] slot_use by fastforce
  next
    case (step_build t now g)
    then show ?thesis using move [of t Outside g Building "made s" "gone s"] slot_build by fastforce
  next
    case (step_wait t now)
    then show ?thesis using move [of t Outside "inner s" Waiting "made s" "gone s"] slot_wait by fastforce
  next
    case (step_wake t)
    then show ?thesis using move [of t Waiting "inner s" Outside "made s" "gone s"] slot_wait by fastforce
  next
    case (step_built t i)
    then show ?thesis
      using move [of t Building "inner s" "Running \<lparr>instance_of = i, served = 0\<rparr>" "insert i (made s)" "gone s"] slot_built
      by fastforce
  next
    case (step_build_failed t)
    then show ?thesis
      using move [of t Building "rollback (inner s)" Outside "made s" "gone s"] slot_build_failed by fastforce
  next
    case (step_ok t p)
    have "pool_inv pool (s\<lparr>inner := check_in pool p (inner s), pcs := (pcs s)[t := Outside], made := made s,
        gone := (if pool_max_requests pool \<le> sat_add (served p) 1 then insert (instance_of p) (gone s) else gone s)\<rparr>)"
      by (rule move [OF step_ok(2,3)]) (rule slot_check_in)
    then show ?thesis by (simp only: step_ok(1)) (simp split del: if_split)
  next
    case (step_trap t p now)
    have "pool_inv pool (s\<lparr>inner := discard now (inner s), pcs := (pcs s)[t := Outside], made := made s,
        gone := insert (instance_of p) (gone s)\<rparr>)"
      by (rule move [OF step_trap(2,3)]) (rule slot_discard)
    then show ?thesis by (simp only: step_trap(1)) simp
  qed
qed

lemma pool_inv_reachable: "pool_reachable pool first n s \<Longrightarrow> 1 \<le> pool_cap pool \<Longrightarrow> pool_inv pool s"
proof (induction rule: pool_reachable.induct)
  case pool_start
  have "concat (map held (replicate n Outside)) = []" "filter occupies (replicate n Outside) = []"
    by (induction n) simp_all
  then show ?case using pool_start by (simp add: pool_inv_def pool_instances_def TrustedPool_new_def)
next
  case (pool_more s s')
  then show ?case using pool_inv_step by blast
qed

section \<open>The breaker\<close>

text \<open>The lock sections that touch the breaker, in the order they happen.\<close>

datatype 'i pool_op = TrapAt u64 | OkWith "'i PooledInstance" | OtherOp "'i PoolInner \<Rightarrow> 'i PoolInner"

fun apply_op :: "TrustedPool \<Rightarrow> 'i PoolInner \<Rightarrow> 'i pool_op \<Rightarrow> 'i PoolInner" where
  "apply_op pool g (TrapAt now) = discard now g"
| "apply_op pool g (OkWith p) = check_in pool p g"
| "apply_op pool g (OtherOp f) = g\<lparr>idle := idle (f g), live := live (f g)\<rparr>"

text \<open>The traps since the last success, latest first.\<close>

fun streak :: "u64 list \<Rightarrow> 'i pool_op \<Rightarrow> u64 list" where
  "streak ts (TrapAt now) = now # ts"
| "streak ts (OkWith _) = []"
| "streak ts (OtherOp _) = ts"

definition breaker_state :: "u64 list \<Rightarrow> 'i PoolInner \<Rightarrow> bool" where
  "breaker_state ts g \<longleftrightarrow>
     unat (consecutive_traps g) = min (length ts) (2 ^ 32 - 1) \<and>
     cooldown_until_ms g = (if 3 \<le> length ts then sat_add (hd ts) TRUSTED_TRAP_COOLDOWN_MS else 0)"

lemma breaker_state_step: "breaker_state ts g \<Longrightarrow> breaker_state (streak ts op) (apply_op pool g op)"
proof (cases op)
  case (TrapAt now)
  assume *: "breaker_state ts g"
  then have n: "unat (sat_add (consecutive_traps g) 1) = min (Suc (length ts)) (2 ^ 32 - 1)"
    by (auto simp: breaker_state_def unat_sat_add)
  then have "TRUSTED_TRAP_BREAKER_THRESHOLD \<le> sat_add (consecutive_traps g) 1 \<longleftrightarrow> 3 \<le> Suc (length ts)"
    by (simp add: word_le_nat_alt TRUSTED_TRAP_BREAKER_THRESHOLD_def)
  with n * show ?thesis
    unfolding TrapAt by (simp add: breaker_state_def discard_def Let_def)
qed (auto simp: breaker_state_def check_in_def clear_breaker_def Let_def)

lemma breaker_state_run:
  "breaker_state ts g \<Longrightarrow> breaker_state (foldl streak ts ops) (foldl (apply_op pool) g ops)"
  by (induction ops arbitrary: ts g) (auto simp: breaker_state_step)

section \<open>Properties\<close>

text \<open>C3: Under every interleaving of requests the pool's \<open>live\<close> count is the number of idle instances,
  instances being built and checked-out ones, and never exceeds the capacity; no instance is idle
  and checked out at once or checked out twice; an instance that trapped or was recycled is never
  used again; and an instance in the pool has served fewer requests than the recycling bound.\<close>

theorem pool_accounting:
  assumes "pool_reachable pool first n s" "1 \<le> pool_cap pool"
  shows "live (inner s) = length (idle (inner s)) + length (filter occupies (pcs s)) \<and>
    live (inner s) \<le> pool_cap pool \<and>
    distinct (map instance_of (idle (inner s) @ concat (map held (pcs s)))) \<and>
    (\<forall>p\<in>set (idle (inner s) @ concat (map held (pcs s))).
      instance_of p \<notin> gone s \<and> (served p = 0 \<or> served p < pool_max_requests pool))"
  using pool_inv_reachable [OF assms] unfolding pool_inv_def pool_instances_def by blast

definition example_pool :: TrustedPool where
  "example_pool = \<lparr>pool_cap = 2, pool_checkout_timeout = 250, pool_max_requests = 10\<rparr>"

theorem pool_accounting_witness:
  "\<exists>s. pool_reachable example_pool (7::nat) 2 s \<and> pcs s = [Running \<lparr>instance_of = 7, served = 0\<rparr>, Outside] \<and>
     live (inner s) = length (idle (inner s)) + 1"
proof -
  let ?start = "\<lparr>inner = TrustedPool_new 7, pcs = replicate 2 Outside, made = {7::nat}, gone = {}\<rparr>"
  let ?p = "\<lparr>instance_of = 7::nat, served = 0\<rparr>"
  let ?g = "(TrustedPool_new (7::nat))\<lparr>idle := []\<rparr>"
  let ?after = "?start\<lparr>inner := ?g, pcs := (pcs ?start)[0 := Running ?p]\<rparr>"
  have "checkout_step example_pool 0 (TrustedPool_new 7) = Use ?p ?g"
    by (simp add: checkout_step_def) (simp add: TrustedPool_new_def)
  then have "pool_step example_pool ?start ?after"
    by (intro pool_step.step_use) (simp_all add: numeral_2_eq_2)
  then have r: "pool_reachable example_pool 7 2 ?after"
    by (rule pool_more [OF pool_start])
  moreover have "live (inner ?after) = length (idle (inner ?after)) + 1"
    using pool_accounting [OF r] by (simp add: example_pool_def numeral_2_eq_2)
  ultimately show ?thesis by (intro exI [of _ ?after]) (simp add: numeral_2_eq_2)
qed

text \<open>The trap breaker, exactly. After any history of traps, successes and other uses of the pool, a
  checkout is refused for the cooldown if and only if at least three calls trapped since the last
  success and the clock is less than the cooldown past the last trap.\<close>

theorem pool_breaker_exact:
  "checkout_step pool now (foldl (apply_op pool) (TrustedPool_new first) ops) = Refuse \<longleftrightarrow>
     (case foldl streak [] ops of
        last_trap # _ # _ # _ \<Rightarrow> now < sat_add last_trap 500
      | _ \<Rightarrow> False)"
proof -
  let ?g = "foldl (apply_op pool) (TrustedPool_new first) ops" and ?ts = "foldl streak [] ops"
  have "breaker_state [] (TrustedPool_new first)"
    by (simp add: breaker_state_def TrustedPool_new_def)
  then have "cooldown_until_ms ?g = (if 3 \<le> length ?ts then sat_add (hd ?ts) TRUSTED_TRAP_COOLDOWN_MS else 0)"
    using breaker_state_run unfolding breaker_state_def by blast
  then show ?thesis
    by (auto simp: checkout_step_def TRUSTED_TRAP_COOLDOWN_MS_def split: list.splits if_splits)
qed

text \<open>A checkout returns once one of its waits times out (the condition variable's wait is bounded), and
  what it then hands out is an instance that was idle when it looked, or a new one that has served
  nothing; otherwise the request gets a fault.\<close>

theorem checkout_returns:
  assumes "\<exists>k\<in>set ws. fst k"
  shows "\<exists>r g' w'. checkout rt pool others ws now g w = Some (r, g', w') \<and>
      (case r of
         Inr p \<Rightarrow> served p = 0 \<or> (\<exists>g0\<in>insert g ((fst \<circ> snd) ` set ws). p \<in> set (idle g0))
       | Inl e \<Rightarrow> e = Unavailable \<or> (\<exists>m. e = Instantiate m))"
  using assms
proof (induction ws arbitrary: now g)
  case (Cons k ws)
  obtain timed_out gk nk where k: "k = (timed_out, gk, nk)" by (cases k)
  show ?case
  proof (cases "checkout_step pool now g")
    case Wait
    show ?thesis
    proof (cases timed_out)
      case True
      then show ?thesis unfolding k by (subst checkout.simps) (simp add: Wait)
    next
      case False
      then obtain r g' w' where *: "checkout rt pool others ws nk gk w = Some (r, g', w')"
        "case r of Inr p \<Rightarrow> served p = 0 \<or> (\<exists>g0\<in>insert gk ((fst \<circ> snd) ` set ws). p \<in> set (idle g0))
         | Inl e \<Rightarrow> e = Unavailable \<or> (\<exists>m. e = Instantiate m)"
        using Cons.IH [of nk gk] Cons.prems k by auto
      then show ?thesis
        using False unfolding k by (subst checkout.simps) (auto simp: Wait split: sum.splits)
    qed
  qed (auto simp: checkout.simps [of _ _ _ "k # ws"] dest: checkout_step_Use split: sum.splits prod.splits)
qed simp

definition example_runtime :: "(nat, unit) FilterRuntime" where
  "example_runtime =
     \<lparr>instantiate_initialized = (\<lambda>w. (Inr 1, w)), rt_begin_request = id, set_request_deadline = id,
      take_logs = (\<lambda>i. ([], i))\<rparr>"

theorem checkout_returns_witness:
  "\<exists>r g' w'. checkout example_runtime example_pool id
     [(False, \<lparr>idle = [], live = 2, consecutive_traps = 0, cooldown_until_ms = 0\<rparr>, 5),
      (True, \<lparr>idle = [], live = 2, consecutive_traps = 0, cooldown_until_ms = 0\<rparr>, 9)] 1
     \<lparr>idle = [], live = 2, consecutive_traps = 0, cooldown_until_ms = 0\<rparr> () = Some (r, g', w')"
  using checkout_returns
    [of "[(False, \<lparr>idle = [], live = 2, consecutive_traps = 0, cooldown_until_ms = 0\<rparr>, 5),
          (True, \<lparr>idle = [], live = 2, consecutive_traps = 0, cooldown_until_ms = 0\<rparr>, 9)]"
      example_runtime example_pool id 1 "\<lparr>idle = [], live = 2, consecutive_traps = 0, cooldown_until_ms = 0\<rparr>" "()"]
  by auto

end
