(* ===== verification/Observe.thy ===== *)
theory Observe
  imports Pool
begin

text \<open>
  Trace contexts and filter spans, \<open>host/src/observe.rs\<close>, and the hooks of a loaded filter that emit
  them, \<open>LoadedFilter\<close> in \<open>host/src/lib.rs\<close>. The \<open>hex\<close> crate is a pair of functions given as
  arguments; the process-wide id counter is part of the state.
\<close>

section \<open>Identifiers\<close>

record id_source =
  id_seed :: u64
  id_next :: u64

definition be_bytes :: "u64 \<Rightarrow> bytes" where
  "be_bytes n = rev (to_le 8 n)"

text \<open>The seed is the start time in nanoseconds (or a constant when the clock is before the epoch)
  with its lowest bit set.\<close>

definition make_seed :: "u64 option \<Rightarrow> u64" where
  "make_seed nanos = or (case nanos of Some n \<Rightarrow> n | None \<Rightarrow> 0x9E3779B97F4A7C15) 1"

definition next_trace_id :: "id_source \<Rightarrow> bytes \<times> id_source" where
  "next_trace_id ids = (be_bytes (id_seed ids) @ be_bytes (id_next ids), ids\<lparr>id_next := id_next ids + 1\<rparr>)"

definition next_span_id :: "id_source \<Rightarrow> bytes \<times> id_source" where
  "next_span_id ids = (be_bytes (id_next ids), ids\<lparr>id_next := id_next ids + 1\<rparr>)"

record RequestTrace =
  trace_id :: bytes
  request_span_id :: bytes
  trace_flags :: u8

definition is_sampled :: "RequestTrace \<Rightarrow> bool" where
  "is_sampled t \<longleftrightarrow> bit (trace_flags t) 0"

definition trace_root :: "id_source \<Rightarrow> RequestTrace \<times> id_source" where
  "trace_root ids =
     (let (tid, ids) = next_trace_id ids; (sid, ids) = next_span_id ids
      in (\<lparr>trace_id = tid, request_span_id = sid, trace_flags = 1\<rparr>, ids))"

section \<open>W3C traceparent\<close>

text \<open>\<open>u8::from_str_radix(_, 16)\<close>: an optional plus sign, then at least one digit, with no overflow.\<close>

definition hex_digit :: "char \<Rightarrow> nat option" where
  "hex_digit c =
     (let n = (of_char c :: nat) in
      if 48 \<le> n \<and> n \<le> 57 then Some (n - 48)
      else if 97 \<le> n \<and> n \<le> 102 then Some (n - 87)
      else if 65 \<le> n \<and> n \<le> 70 then Some (n - 55)
      else None)"

fun radix_loop :: "nat \<Rightarrow> string \<Rightarrow> nat option" where
  "radix_loop acc [] = Some acc"
| "radix_loop acc (c # cs) =
     (case hex_digit c of
        None \<Rightarrow> None
      | Some d \<Rightarrow> if acc * 16 + d < 256 then radix_loop (acc * 16 + d) cs else None)"

definition u8_from_hex :: "string \<Rightarrow> u8 option" where
  "u8_from_hex s =
     (let digits = (case s of c # cs \<Rightarrow> if c = CHR ''+'' then cs else s | [] \<Rightarrow> [])
      in if digits = [] then None else map_option of_nat (radix_loop 0 digits))"

definition from_traceparent :: "(string \<Rightarrow> bytes option) \<Rightarrow> string \<Rightarrow> RequestTrace option" where
  "from_traceparent hex_decode traceparent =
     (case split_at (CHR ''-'') traceparent of
        [version, trace, span, flags] \<Rightarrow>
          if version \<noteq> ''00'' then None
          else
            (case (hex_decode trace, hex_decode span) of
               (Some tb, Some sb) \<Rightarrow>
                 if length tb \<noteq> 16 \<or> length sb \<noteq> 8 then None
                 else if tb = replicate 16 0 \<or> sb = replicate 8 0 then None
                 else map_option (\<lambda>f. \<lparr>trace_id = tb, request_span_id = sb, trace_flags = f\<rparr>) (u8_from_hex flags)
             | _ \<Rightarrow> None)
      | _ \<Rightarrow> None)"

definition to_traceparent :: "(bytes \<Rightarrow> string) \<Rightarrow> RequestTrace \<Rightarrow> string" where
  "to_traceparent hex_encode t =
     ''00-'' @ hex_encode (trace_id t) @ ''-'' @ hex_encode (request_span_id t) @ ''-'' @
     (if is_sampled t then ''01'' else ''00'')"

section \<open>Spans\<close>

datatype SpanOutcome =
  OutContinue
| OutModified
| OutShortCircuit
| OutDeadline
| OutTrap
| OutInstantiateError
| OutUnavailable

fun outcome_str :: "SpanOutcome \<Rightarrow> string" where
  "outcome_str OutContinue = ''continue''"
| "outcome_str OutModified = ''modified''"
| "outcome_str OutShortCircuit = ''short-circuit''"
| "outcome_str OutDeadline = ''deadline''"
| "outcome_str OutTrap = ''trap''"
| "outcome_str OutInstantiateError = ''instantiate-error''"
| "outcome_str OutUnavailable = ''unavailable''"

datatype Status = StatusOk | StatusError string

definition outcome_status :: "SpanOutcome \<Rightarrow> Status" where
  "outcome_status o' =
     (if o' \<in> {OutContinue, OutModified, OutShortCircuit} then StatusOk else StatusError (outcome_str o'))"

fun outcome_of_request :: "RequestDecision \<Rightarrow> SpanOutcome" where
  "outcome_of_request Continue = OutContinue"
| "outcome_of_request (Modified _) = OutModified"
| "outcome_of_request (ShortCircuit _) = OutShortCircuit"

fun outcome_of_response :: "ResponseDecision \<Rightarrow> SpanOutcome" where
  "outcome_of_response RespContinue = OutContinue"
| "outcome_of_response (RespModified _) = OutModified"

fun outcome_of_body :: "RequestBodyDecision \<Rightarrow> SpanOutcome" where
  "outcome_of_body (BodyContinue _) = OutContinue"
| "outcome_of_body (BodyShortCircuit _) = OutShortCircuit"

fun outcome_of_error :: "RunError \<Rightarrow> SpanOutcome" where
  "outcome_of_error Deadline = OutDeadline"
| "outcome_of_error (Trap _) = OutTrap"
| "outcome_of_error (Instantiate _) = OutInstantiateError"
| "outcome_of_error Unavailable = OutUnavailable"

datatype Hook = OnRequest | OnRequestBody | OnResponse

fun hook_str :: "Hook \<Rightarrow> string" where
  "hook_str OnRequest = ''on-request''"
| "hook_str OnRequestBody = ''on-request-body''"
| "hook_str OnResponse = ''on-response''"

fun isolation_str :: "Isolation \<Rightarrow> string" where
  "isolation_str IsoTrusted = ''trusted''"
| "isolation_str IsoUntrusted = ''untrusted''"

fun level_str :: "LogLevel \<Rightarrow> string" where
  "level_str Trace = ''trace''"
| "level_str Debug = ''debug''"
| "level_str Info = ''info''"
| "level_str Warn = ''warn''"
| "level_str Error = ''error''"

record FilterSpan =
  span_trace_id :: bytes
  span_id :: bytes
  parent_span_id :: bytes
  span_name :: string
  span_start :: u64
  span_duration :: u64
  span_outcome :: SpanOutcome
  span_attributes :: "(string \<times> string) list"
  span_events :: "(ustring \<times> u64 \<times> string) list"

definition build_filter_span ::
    "RequestTrace \<Rightarrow> string \<Rightarrow> Isolation \<Rightarrow> Hook \<Rightarrow> SpanOutcome \<Rightarrow> u64 \<Rightarrow> u64 \<Rightarrow> LogLine list \<Rightarrow> id_source \<Rightarrow> FilterSpan \<times> id_source" where
  "build_filter_span trace filter_id isolation hook outcome start_time duration lines ids =
     (let (sid, ids) = next_span_id ids
      in (\<lparr>span_trace_id = trace_id trace, span_id = sid, parent_span_id = request_span_id trace, span_name = filter_id,
           span_start = start_time, span_duration = duration, span_outcome = outcome,
           span_attributes =
             [(''filter.id'', filter_id), (''plecto.isolation'', isolation_str isolation),
              (''plecto.outcome'', outcome_str outcome), (''plecto.hook'', hook_str hook)],
           span_events = map (\<lambda>line. (message line, start_time, level_str (level line))) lines\<rparr>,
          ids))"

section \<open>The hooks of a loaded filter\<close>

text \<open>A loaded filter holds its runtime, its identity and isolation, the pool's parameters when it is
  trusted, whether the component exports the body hook, and the guest's exports. Its mutable part is
  the pool, the id counter, the spans its sink has received, and the world outside.\<close>

record ('i, 'w) LoadedFilter =
  lf_runtime :: "('i, 'w) FilterRuntime"
  lf_filter_id :: string
  lf_isolation :: Isolation
  lf_pool :: "TrustedPool option"
  lf_body_export :: bool
  call_on_request :: "HttpRequest \<Rightarrow> ('i, 'w, RequestDecision) guest_call"
  call_body_hook :: "bytes \<Rightarrow> ('i, 'w, RequestBodyDecision) guest_call"
  call_on_response :: "HttpResponse \<Rightarrow> ('i, 'w, ResponseDecision) guest_call"

record ('i, 'w) filter_world =
  fw_pool :: "'i PoolInner"
  fw_ids :: id_source
  fw_spans :: "FilterSpan list"
  fw_rest :: 'w

record 'i call_env =
  env_schedule :: "'i schedule"
  env_now :: u64
  env_start :: u64
  env_duration :: u64

definition reads_body :: "('i, 'w) LoadedFilter \<Rightarrow> bool" where
  "reads_body lf = lf_body_export lf"

definition hook_run ::
    "('i, 'w) LoadedFilter \<Rightarrow> 'i call_env \<Rightarrow> ('i, 'w, 'a) guest_call \<Rightarrow> ('i, 'w) filter_world \<Rightarrow>
     ((RunError + 'a \<times> LogLine list) \<times> ('i, 'w) filter_world) option" where
  "hook_run lf env call fw =
     map_option
       (\<lambda>(r, trusted, w). (r, fw\<lparr>fw_pool := (case trusted of Some (_, g) \<Rightarrow> g | None \<Rightarrow> fw_pool fw), fw_rest := w\<rparr>))
       (run_hook (lf_runtime lf) (map_option (\<lambda>pool. (pool, fw_pool fw)) (lf_pool lf)) (env_schedule env) (env_now env)
          call (fw_rest fw))"

definition run_on_request_body ::
    "('i, 'w) LoadedFilter \<Rightarrow> 'i call_env \<Rightarrow> bytes \<Rightarrow> ('i, 'w) filter_world \<Rightarrow>
     ((RunError + RequestBodyDecision \<times> LogLine list) \<times> ('i, 'w) filter_world) option" where
  "run_on_request_body lf env body fw =
     (if \<not> lf_body_export lf then Some (Inr (BodyContinue body, []), fw)
      else hook_run lf env (call_body_hook lf body) fw)"

definition emit_span ::
    "('i, 'w) LoadedFilter \<Rightarrow> 'i call_env \<Rightarrow> RequestTrace \<Rightarrow> Hook \<Rightarrow> ('a \<Rightarrow> SpanOutcome) \<Rightarrow> RunError + 'a \<times> LogLine list \<Rightarrow>
     ('i, 'w) filter_world \<Rightarrow> ('i, 'w) filter_world" where
  "emit_span lf env trace hook decide result fw =
     (let outcome = (case result of Inr (d, _) \<Rightarrow> decide d | Inl err \<Rightarrow> outcome_of_error err);
          lines = (case result of Inr (_, lines) \<Rightarrow> lines | Inl _ \<Rightarrow> []);
          (span, ids) = build_filter_span trace (lf_filter_id lf) (lf_isolation lf) hook outcome (env_start env)
                          (env_duration env) lines (fw_ids fw)
      in fw\<lparr>fw_ids := ids, fw_spans := fw_spans fw @ [span]\<rparr>)"

definition on_request ::
    "('i, 'w) LoadedFilter \<Rightarrow> 'i call_env \<Rightarrow> RequestTrace \<Rightarrow> HttpRequest \<Rightarrow> ('i, 'w) filter_world \<Rightarrow>
     ((RunError + RequestDecision \<times> LogLine list) \<times> ('i, 'w) filter_world) option" where
  "on_request lf env trace req fw =
     map_option (\<lambda>(result, fw). (result, emit_span lf env trace OnRequest outcome_of_request result fw))
       (hook_run lf env (call_on_request lf req) fw)"

definition on_request_body ::
    "('i, 'w) LoadedFilter \<Rightarrow> 'i call_env \<Rightarrow> RequestTrace \<Rightarrow> bytes \<Rightarrow> ('i, 'w) filter_world \<Rightarrow>
     ((RunError + RequestBodyDecision \<times> LogLine list) \<times> ('i, 'w) filter_world) option" where
  "on_request_body lf env trace body fw =
     map_option (\<lambda>(result, fw). (result, emit_span lf env trace OnRequestBody outcome_of_body result fw))
       (run_on_request_body lf env body fw)"

definition on_response ::
    "('i, 'w) LoadedFilter \<Rightarrow> 'i call_env \<Rightarrow> RequestTrace \<Rightarrow> HttpResponse \<Rightarrow> ('i, 'w) filter_world \<Rightarrow>
     ((RunError + ResponseDecision \<times> LogLine list) \<times> ('i, 'w) filter_world) option" where
  "on_response lf env trace resp fw =
     map_option (\<lambda>(result, fw). (result, emit_span lf env trace OnResponse outcome_of_response result fw))
       (hook_run lf env (call_on_response lf resp) fw)"

section \<open>Lemmas\<close>

lemma split_at_piece: "c \<notin> set s \<Longrightarrow> split_at c (s @ c # rest) = s # split_at c rest"
  by (induction s) auto

lemma run_fresh_decision: "fst (run_fresh rt call w) = Inr (v, lines) \<Longrightarrow> \<exists>i w0 i' w'. call i w0 = (Inr v, i', w')"
  by (auto simp: run_fresh_def split: sum.splits prod.splits)

lemma run_pooled_decision:
  "run_pooled rt pool s now call g w = Some (Inr (v, lines), g', w') \<Longrightarrow> \<exists>i w0 i' w1. call i w0 = (Inr v, i', w1)"
  by (fastforce simp: run_pooled_def Let_def split: option.splits sum.splits prod.splits)

lemma hook_run_decision:
  assumes "hook_run lf env call fw = Some (Inr (v, lines), fw')"
  shows "\<exists>i w0 i' w'. call i w0 = (Inr v, i', w')"
proof (cases "lf_pool lf")
  case None
  then show ?thesis
    using assms run_fresh_decision [of "lf_runtime lf" call "fw_rest fw" v lines]
    by (auto simp: hook_run_def run_hook_def split: prod.splits)
next
  case (Some pool)
  then show ?thesis
    using assms by (auto simp: hook_run_def run_hook_def dest: run_pooled_decision)
qed

lemma hook_run_spans: "hook_run lf env call fw = Some (r, fw') \<Longrightarrow> fw_spans fw' = fw_spans fw \<and> fw_ids fw' = fw_ids fw"
  by (auto simp: hook_run_def)

lemma length_be_bytes [simp]: "length (be_bytes n) = 8"
  by (simp add: be_bytes_def)

lemma be_bytes_0_iff: "be_bytes n = replicate 8 0 \<longleftrightarrow> n = 0"
proof
  assume "be_bytes n = replicate 8 0"
  then have "to_le 8 n = rev (replicate 8 0)" unfolding be_bytes_def by (metis rev_rev_ident)
  then have "to_le 8 n = to_le 8 0" by (simp add: numeral_eq_Suc)
  then show "n = 0" by (metis from_le_to_le_8)
qed (simp add: be_bytes_def numeral_eq_Suc)

definition valid_trace :: "RequestTrace \<Rightarrow> bool" where
  "valid_trace t \<longleftrightarrow> length (trace_id t) = 16 \<and> length (request_span_id t) = 8 \<and>
     trace_id t \<noteq> replicate 16 0 \<and> request_span_id t \<noteq> replicate 8 0"

lemma make_seed_nonzero: "make_seed nanos \<noteq> 0"
proof
  assume "make_seed nanos = 0"
  then have "bit (make_seed nanos) 0 = bit (0::u64) 0" by simp
  then show False by (simp add: make_seed_def bit_simps)
qed

lemma trace_root_valid:
  assumes "id_seed ids \<noteq> 0" "id_next ids + 1 \<noteq> 0"
  shows "valid_trace (fst (trace_root ids))"
proof -
  have "be_bytes (id_seed ids) @ be_bytes (id_next ids) \<noteq> replicate 16 0"
  proof
    assume *: "be_bytes (id_seed ids) @ be_bytes (id_next ids) = replicate 16 0"
    have "be_bytes (id_seed ids) = take 8 (replicate 16 0)" unfolding * [symmetric] by simp
    then show False using be_bytes_0_iff [of "id_seed ids"] assms(1) by simp
  qed
  then show ?thesis
    using assms(2) be_bytes_0_iff [of "id_next ids + 1"]
    by (simp add: valid_trace_def trace_root_def next_trace_id_def next_span_id_def)
qed

section \<open>Properties\<close>

text \<open>C37: Formatting a trace context and parsing it back gives the same trace and span, with the flags
  reduced to the sampled bit, whenever the \<open>hex\<close> crate decodes what it encodes and never emits a
  dash. Every root trace is valid, whatever the clock read at startup, until the id counter wraps.\<close>

theorem traceparent_roundtrip:
  assumes "\<And>b. hex_decode (hex_encode b) = Some b" "\<And>b. CHR ''-'' \<notin> set (hex_encode b)"
  shows "(valid_trace t \<longrightarrow> from_traceparent hex_decode (to_traceparent hex_encode t) =
      Some (t\<lparr>trace_flags := of_bool (is_sampled t)\<rparr>)) \<and>
    (id_seed ids = make_seed nanos \<and> id_next ids + 1 \<noteq> 0 \<longrightarrow>
      from_traceparent hex_decode (to_traceparent hex_encode (fst (trace_root ids))) = Some (fst (trace_root ids)))"
proof -
  have flags: "u8_from_hex ''01'' = Some 1" "u8_from_hex ''00'' = Some 0" by code_simp+
  have main: "from_traceparent hex_decode (to_traceparent hex_encode t) = Some (t\<lparr>trace_flags := of_bool (is_sampled t)\<rparr>)"
    if "valid_trace t" for t
  proof -
    have "split_at (CHR ''-'') (to_traceparent hex_encode t) =
        [''00'', hex_encode (trace_id t), hex_encode (request_span_id t), if is_sampled t then ''01'' else ''00'']"
      using assms(2) split_at_piece [of "CHR ''-''" "''00''"]
      by (simp add: to_traceparent_def split_at_piece split_at_free)
    then show ?thesis
      using that assms(1) flags by (simp add: from_traceparent_def valid_trace_def)
  qed
  moreover have "from_traceparent hex_decode (to_traceparent hex_encode (fst (trace_root ids))) = Some (fst (trace_root ids))"
    if "id_seed ids = make_seed nanos" "id_next ids + 1 \<noteq> 0"
  proof -
    have "valid_trace (fst (trace_root ids))"
      using trace_root_valid that make_seed_nonzero [of nanos] by simp
    moreover have "(fst (trace_root ids))\<lparr>trace_flags := of_bool (is_sampled (fst (trace_root ids)))\<rparr> = fst (trace_root ids)"
      by (simp add: trace_root_def next_trace_id_def next_span_id_def is_sampled_def)
    ultimately show ?thesis using main by metis
  qed
  ultimately show ?thesis by blast
qed

text \<open>A lower-case hexadecimal codec.\<close>

definition nibble :: "nat \<Rightarrow> char" where
  "nibble n = ''0123456789abcdef'' ! n"

definition example_encode :: "bytes \<Rightarrow> string" where
  "example_encode b = concat (map (\<lambda>x. [nibble (unat x div 16), nibble (unat x mod 16)]) b)"

fun example_decode :: "string \<Rightarrow> bytes option" where
  "example_decode (c # d # s) =
     (case (hex_digit c, hex_digit d, example_decode s) of
        (Some m, Some n, Some b) \<Rightarrow> Some (of_nat (16 * m + n) # b)
      | _ \<Rightarrow> None)"
| "example_decode [] = Some []"
| "example_decode _ = None"

lemma nibble_ok: "n < 16 \<Longrightarrow> hex_digit (nibble n) = Some n \<and> nibble n \<noteq> CHR ''-''"
proof -
  have "list_all (\<lambda>n. hex_digit (nibble n) = Some n \<and> nibble n \<noteq> CHR ''-'') [0..<16]" by code_simp
  then show "n < 16 \<Longrightarrow> ?thesis" by (simp add: list_all_iff)
qed

lemma nibble_byte: "unat x div 16 < 16" "unat x mod 16 < 16" for x :: u8
proof -
  have "unat x < 2 ^ 8" using unsigned_less [of x] by simp
  then show "unat x div 16 < 16" by (simp add: less_mult_imp_div_less)
qed simp

lemma example_codec: "example_decode (example_encode b) = Some b" "CHR ''-'' \<notin> set (example_encode b)"
  using nibble_ok [THEN conjunct2, symmetric, OF nibble_byte(1)] nibble_ok [THEN conjunct2, symmetric, OF nibble_byte(2)]
  by (induction b) (auto simp: example_encode_def nibble_ok nibble_byte)

theorem traceparent_roundtrip_witness:
  "from_traceparent example_decode (to_traceparent example_encode (fst (trace_root \<lparr>id_seed = make_seed (Some 6), id_next = 1\<rparr>)))
     = Some (fst (trace_root \<lparr>id_seed = make_seed (Some 6), id_next = 1\<rparr>)) \<and>
   to_traceparent example_encode (fst (trace_root \<lparr>id_seed = make_seed (Some 6), id_next = 1\<rparr>)) =
     ''00-00000000000000070000000000000001-0000000000000002-01''"
  using traceparent_roundtrip [of example_decode example_encode _ "\<lparr>id_seed = make_seed (Some 6), id_next = 1\<rparr>" "Some 6",
      OF example_codec]
  by (auto simp: word_unat_eq_iff) code_simp

text \<open>Every request-side hook call that returns emits exactly one span under the request's trace, and
  the span's outcome is the decision's or the fault's; a decision is one the guest returned. A filter
  that does not export the body hook passes the body on unchanged and runs nothing.\<close>

theorem hook_calls_observed:
  shows "on_request lf env trace req fw = Some (r, fw') \<longrightarrow>
      (\<exists>span. fw_spans fw' = fw_spans fw @ [span] \<and> span_trace_id span = trace_id trace \<and>
         parent_span_id span = request_span_id trace \<and>
         span_outcome span = (case r of Inr (d, _) \<Rightarrow> outcome_of_request d | Inl e \<Rightarrow> outcome_of_error e)) \<and>
      (\<forall>d ls. r = Inr (d, ls) \<longrightarrow> (\<exists>i w i' w'. call_on_request lf req i w = (Inr d, i', w')))"
    and "\<not> reads_body lf \<longrightarrow>
      map_option (\<lambda>(r, fw'). (r, fw_rest fw', fw_pool fw')) (on_request_body lf env trace body fw) =
      Some (Inr (BodyContinue body, []), fw_rest fw, fw_pool fw)"
proof -
  show "on_request lf env trace req fw = Some (r, fw') \<longrightarrow>
      (\<exists>span. fw_spans fw' = fw_spans fw @ [span] \<and> span_trace_id span = trace_id trace \<and>
         parent_span_id span = request_span_id trace \<and>
         span_outcome span = (case r of Inr (d, _) \<Rightarrow> outcome_of_request d | Inl e \<Rightarrow> outcome_of_error e)) \<and>
      (\<forall>d ls. r = Inr (d, ls) \<longrightarrow> (\<exists>i w i' w'. call_on_request lf req i w = (Inr d, i', w')))"
  proof
    assume "on_request lf env trace req fw = Some (r, fw')"
    then obtain fw1 where h: "hook_run lf env (call_on_request lf req) fw = Some (r, fw1)"
      and fw': "fw' = emit_span lf env trace OnRequest outcome_of_request r fw1"
      by (auto simp: on_request_def)
    show "(\<exists>span. fw_spans fw' = fw_spans fw @ [span] \<and> span_trace_id span = trace_id trace \<and>
         parent_span_id span = request_span_id trace \<and>
         span_outcome span = (case r of Inr (d, _) \<Rightarrow> outcome_of_request d | Inl e \<Rightarrow> outcome_of_error e)) \<and>
      (\<forall>d ls. r = Inr (d, ls) \<longrightarrow> (\<exists>i w i' w'. call_on_request lf req i w = (Inr d, i', w')))"
      using hook_run_spans [OF h] hook_run_decision h
      by (auto simp: fw' emit_span_def build_filter_span_def next_span_id_def Let_def)
  qed
next
  show "\<not> reads_body lf \<longrightarrow>
      map_option (\<lambda>(r, fw'). (r, fw_rest fw', fw_pool fw')) (on_request_body lf env trace body fw) =
      Some (Inr (BodyContinue body, []), fw_rest fw, fw_pool fw)"
    by (simp add: reads_body_def on_request_body_def run_on_request_body_def emit_span_def build_filter_span_def
        next_span_id_def Let_def)
qed

definition example_filter :: "(nat, unit) LoadedFilter" where
  "example_filter =
     \<lparr>lf_runtime = example_runtime, lf_filter_id = ''auth'', lf_isolation = IsoUntrusted, lf_pool = None,
      lf_body_export = False, call_on_request = (\<lambda>_ i w. (Inr Continue, i, w)),
      call_body_hook = (\<lambda>b i w. (Inr (BodyContinue b), i, w)), call_on_response = (\<lambda>_ i w. (Inr RespContinue, i, w))\<rparr>"

definition example_env :: "nat call_env" where
  "example_env =
     \<lparr>env_schedule = \<lparr>wakes = [], during_build = id, during_call = id, trap_clock = 0\<rparr>, env_now = 0, env_start = 0,
      env_duration = 1\<rparr>"

definition example_world :: "(nat, unit) filter_world" where
  "example_world = \<lparr>fw_pool = TrustedPool_new 0, fw_ids = \<lparr>id_seed = 1, id_next = 1\<rparr>, fw_spans = [], fw_rest = ()\<rparr>"

definition example_get :: HttpRequest where
  "example_get =
     \<lparr>req_method = ''GET'', req_path = ''/'', req_authority = ''a.example'', req_scheme = ''http'', req_headers = []\<rparr>"

theorem hook_calls_observed_witness:
  "(\<exists>fw' span. on_request example_filter example_env (fst (trace_root \<lparr>id_seed = 1, id_next = 5\<rparr>)) example_get example_world =
        Some (Inr (Continue, []), fw') \<and> fw_spans fw' = [span] \<and> span_outcome span = OutContinue) \<and>
   map_option (\<lambda>(r, fw'). (r, fw_rest fw', fw_pool fw'))
     (on_request_body example_filter example_env (fst (trace_root \<lparr>id_seed = 1, id_next = 5\<rparr>)) [1, 2] example_world) =
   Some (Inr (BodyContinue [1, 2], []), (), TrustedPool_new 0)"
proof -
  let ?trace = "fst (trace_root \<lparr>id_seed = 1, id_next = 5\<rparr>)"
  obtain fw' where *: "on_request example_filter example_env ?trace example_get example_world = Some (Inr (Continue, []), fw')"
    by (auto simp: on_request_def hook_run_def run_hook_def run_fresh_def example_filter_def example_runtime_def)
  with hook_calls_observed(1) [of example_filter example_env ?trace example_get example_world "Inr (Continue, [])" fw']
  show ?thesis
    using hook_calls_observed(2) [of example_filter example_env ?trace "[1, 2]" example_world]
    by (auto simp: example_world_def example_filter_def reads_body_def)
qed

end
