(* ===== verification/Telemetry.thy ===== *)
theory Telemetry
  imports Observe
begin

text \<open>
  The telemetry sinks of \<open>host/src/observe.rs\<close>: where the spans of filter calls go. A sink keeps
  every span, tallies them, drops them, or hands them to several others.
\<close>

section \<open>The sinks\<close>

type_synonym InMemorySink = "FilterSpan list"

definition InMemorySink_new :: InMemorySink where "InMemorySink_new = []"

definition export_memory :: "FilterSpan \<Rightarrow> InMemorySink \<Rightarrow> InMemorySink" where
  "export_memory span spans = spans @ [span]"

record MetricsSink =
  sink_total :: u64
  sink_errors :: u64
  sink_short_circuits :: u64
  sink_duration_nanos :: u64

definition MetricsSink_new :: MetricsSink where
  "MetricsSink_new = \<lparr>sink_total = 0, sink_errors = 0, sink_short_circuits = 0, sink_duration_nanos = 0\<rparr>"

definition export_metrics :: "FilterSpan \<Rightarrow> MetricsSink \<Rightarrow> MetricsSink" where
  "export_metrics span m =
     (let m = m\<lparr>sink_total := sink_total m + 1\<rparr>;
          m = (case span_outcome span of
                 OutShortCircuit \<Rightarrow> m\<lparr>sink_short_circuits := sink_short_circuits m + 1\<rparr>
               | OutDeadline \<Rightarrow> m\<lparr>sink_errors := sink_errors m + 1\<rparr>
               | OutTrap \<Rightarrow> m\<lparr>sink_errors := sink_errors m + 1\<rparr>
               | OutInstantiateError \<Rightarrow> m\<lparr>sink_errors := sink_errors m + 1\<rparr>
               | OutUnavailable \<Rightarrow> m\<lparr>sink_errors := sink_errors m + 1\<rparr>
               | OutContinue \<Rightarrow> m
               | OutModified \<Rightarrow> m)
      in m\<lparr>sink_duration_nanos := sink_duration_nanos m + span_duration span\<rparr>)"

record MetricsSnapshot =
  snap_total :: u64
  snap_errors :: u64
  snap_short_circuits :: u64
  snap_duration_nanos :: u64

definition sink_snapshot :: "MetricsSink \<Rightarrow> MetricsSnapshot" where
  "sink_snapshot m =
     \<lparr>snap_total = sink_total m, snap_errors = sink_errors m, snap_short_circuits = sink_short_circuits m,
      snap_duration_nanos = sink_duration_nanos m\<rparr>"

datatype TelemetrySink =
  NoopSink
| MemorySink InMemorySink
| TallySink MetricsSink
| FanOutSink "TelemetrySink list"

fun export :: "FilterSpan \<Rightarrow> TelemetrySink \<Rightarrow> TelemetrySink" where
  "export span NoopSink = NoopSink"
| "export span (MemorySink s) = MemorySink (export_memory span s)"
| "export span (TallySink m) = TallySink (export_metrics span m)"
| "export span (FanOutSink sinks) = FanOutSink (map (export span) sinks)"

section \<open>What a sink has seen\<close>

text \<open>A sink that tells, of any stream of spans, exactly what its specification says of the stream.\<close>

locale span_sink =
  fixes export_span :: "FilterSpan \<Rightarrow> 's \<Rightarrow> 's"
    and fresh :: 's
    and told :: "FilterSpan list \<Rightarrow> 's"
  assumes told_none: "told [] = fresh"
    and told_more: "told (spans @ [span]) = export_span span (told spans)"
begin

lemma stream: "fold export_span spans fresh = told spans"
  by (induction spans rule: rev_induct) (simp_all add: told_none told_more)

lemma continued: "fold export_span later (told spans) = told (spans @ later)"
  by (induction later arbitrary: spans) (simp_all add: told_more [symmetric])

end

definition is_fault :: "FilterSpan \<Rightarrow> bool" where
  "is_fault span \<longleftrightarrow> outcome_status (span_outcome span) \<noteq> StatusOk"

definition tally :: "FilterSpan list \<Rightarrow> MetricsSink" where
  "tally spans =
     \<lparr>sink_total = of_nat (length spans),
      sink_errors = of_nat (length (filter is_fault spans)),
      sink_short_circuits = of_nat (length (filter (\<lambda>s. span_outcome s = OutShortCircuit) spans)),
      sink_duration_nanos = sum_list (map span_duration spans)\<rparr>"

interpretation memory: span_sink export_memory InMemorySink_new "\<lambda>spans. spans"
  by unfold_locales (simp_all add: export_memory_def InMemorySink_new_def)

interpretation metrics: span_sink export_metrics MetricsSink_new tally
proof
  show "tally [] = MetricsSink_new" by (simp add: tally_def MetricsSink_new_def)
  show "tally (spans @ [span]) = export_metrics span (tally spans)" for spans span
    by (cases "span_outcome span") (simp_all add: tally_def export_metrics_def is_fault_def outcome_status_def)
qed

text \<open>A fan-out is each of its sinks, whatever they are.\<close>

lemma export_fan_out: "fold export spans (FanOutSink sinks) = FanOutSink (map (fold export spans) sinks)"
  by (induction spans arbitrary: sinks) (simp_all add: comp_def)

lemma export_kinds:
  "fold export spans NoopSink = NoopSink"
  "fold export spans (MemorySink s) = MemorySink (s @ spans)"
  "fold export spans (TallySink m) = TallySink (fold export_metrics spans m)"
  by (induction spans arbitrary: s m) (simp_all add: export_memory_def)

section \<open>Properties\<close>

text \<open>Any stream of spans, sent to a fan-out of a retaining and a tallying sink, is retained in order and
  counted exactly, modulo the width of the counters: all spans, those whose status is an error, those that
  answered in the upstream's place, and their time.\<close>

theorem sinks_exact:
  "fold export spans (FanOutSink [MemorySink InMemorySink_new, TallySink MetricsSink_new, NoopSink]) =
     FanOutSink [MemorySink spans, TallySink (tally spans), NoopSink]"
  by (simp add: export_fan_out export_kinds metrics.stream InMemorySink_new_def)

text \<open>The filter metrics count hook calls. When the sink of a filter has tallied the spans emitted so far,
  a request hook that returns adds one to the total, one to the errors exactly when the call failed
  closed, and one to the short circuits exactly when the guest answered the request, and nothing else.\<close>

theorem hook_metrics_exact:
  assumes "on_request lf env trace req fw = Some (r, fw')"
  shows "tally (fw_spans fw') =
    (tally (fw_spans fw))\<lparr>
      sink_total := sink_total (tally (fw_spans fw)) + 1,
      sink_errors := sink_errors (tally (fw_spans fw)) + of_bool (\<exists>e. r = Inl e),
      sink_short_circuits := sink_short_circuits (tally (fw_spans fw)) + of_bool (\<exists>resp ls. r = Inr (ShortCircuit resp, ls)),
      sink_duration_nanos := sink_duration_nanos (tally (fw_spans fw)) + env_duration env\<rparr>"
proof -
  obtain fw1 where h: "hook_run lf env (call_on_request lf req) fw = Some (r, fw1)"
    and fw': "fw' = emit_span lf env trace OnRequest outcome_of_request r fw1"
    using assms by (auto simp: on_request_def)
  then obtain span where span: "fw_spans fw' = fw_spans fw @ [span]" "span_duration span = env_duration env"
    "span_outcome span = (case r of Inr (d, _) \<Rightarrow> outcome_of_request d | Inl e \<Rightarrow> outcome_of_error e)"
    using hook_run_spans [OF h]
    by (auto simp: emit_span_def build_filter_span_def next_span_id_def Let_def split: sum.splits prod.splits)
  show ?thesis
  proof (cases r)
    case (Inl e)
    then show ?thesis using span by (cases e) (simp_all add: metrics.told_more export_metrics_def)
  next
    case (Inr a)
    obtain d ls where "a = (d, ls)" by (cases a)
    then show ?thesis using span Inr by (cases d) (simp_all add: metrics.told_more export_metrics_def)
  qed
qed

theorem hook_metrics_exact_witness:
  "\<exists>fw'. on_request example_filter example_env (fst (trace_root \<lparr>id_seed = 1, id_next = 5\<rparr>)) example_get example_world =
       Some (Inr (Continue, []), fw') \<and>
     tally (fw_spans fw') = \<lparr>sink_total = 1, sink_errors = 0, sink_short_circuits = 0, sink_duration_nanos = 1\<rparr>"
proof -
  let ?trace = "fst (trace_root \<lparr>id_seed = 1, id_next = 5\<rparr>)"
  obtain fw' where *: "on_request example_filter example_env ?trace example_get example_world = Some (Inr (Continue, []), fw')"
    by (auto simp: on_request_def hook_run_def run_hook_def run_fresh_def example_filter_def example_runtime_def)
  from hook_metrics_exact [OF this] show ?thesis
    using * by (simp add: tally_def example_world_def example_env_def)
qed

end
