(* ===== verification/Murmur.thy ===== *)
theory Murmur
  imports Prelude
begin

text \<open>
  MurmurHash3 x64/128 of \<open>control/src/hash.rs\<close>, the stable hash of the Maglev table. Every step of
  the hash is a bijection of the state, so hashes of short keys of one length never collide.
\<close>

section \<open>The hash\<close>

definition C1 :: u64 where "C1 = 0x87c37b91114253d5"
definition C2 :: u64 where "C2 = 0x4cf5ad432745937f"

definition fmix64 :: "u64 \<Rightarrow> u64" where
  "fmix64 k0 =
     (let k1 = xor k0 (drop_bit 33 k0);
          k2 = k1 * 0xff51afd7ed558ccd;
          k3 = xor k2 (drop_bit 33 k2);
          k4 = k3 * 0xc4ceb9fe1a85ec53
      in xor k4 (drop_bit 33 k4))"

text \<open>\<open>data.get(base..end)\<close> is None when the base is past the end; the rest is zero padding.\<close>

definition read_u64_le :: "bytes \<Rightarrow> nat \<Rightarrow> u64" where
  "read_u64_le data base =
     (let e = min (base + 8) (length data);
          chunk = (if base \<le> e then take (e - base) (drop base data) else [])
      in from_le (chunk @ replicate (8 - length chunk) 0))"

definition scramble1 :: "u64 \<Rightarrow> u64" where
  "scramble1 k = word_rotl 31 (k * C1) * C2"

definition scramble2 :: "u64 \<Rightarrow> u64" where
  "scramble2 k = word_rotl 33 (k * C2) * C1"

definition body_step :: "bytes \<Rightarrow> nat \<Rightarrow> u64 \<times> u64 \<Rightarrow> u64 \<times> u64" where
  "body_step data i h =
     (let base = i * 16;
          k1 = read_u64_le data base;
          k2 = read_u64_le data (base + 8);
          h1 = word_rotl 27 (xor (fst h) (scramble1 k1));
          h1 = (h1 + snd h) * 5 + 0x52dce729;
          h2 = word_rotl 31 (xor (snd h) (scramble2 k2));
          h2 = (h2 + h1) * 5 + 0x38495ab5
      in (h1, h2))"

text \<open>The tail loops fold the bytes \<open>lo..hi\<close> in from the last to the first.\<close>

definition tail_word :: "bytes \<Rightarrow> nat \<Rightarrow> nat \<Rightarrow> u64" where
  "tail_word tail lo hi =
     fold (\<lambda>i k. xor k (push_bit (8 * (i - lo)) (ucast (tail ! i)))) (rev [lo..<hi]) 0"

definition tail_step :: "bytes \<Rightarrow> u64 \<times> u64 \<Rightarrow> u64 \<times> u64" where
  "tail_step tail h =
     (let tlen = length tail;
          h2 = (if tlen \<ge> 9 then xor (snd h) (scramble2 (tail_word tail 8 tlen)) else snd h);
          h1 = (if tlen \<ge> 1 then xor (fst h) (scramble1 (tail_word tail 0 (min tlen 8))) else fst h)
      in (h1, h2))"

definition finalize :: "u64 \<Rightarrow> u64 \<times> u64 \<Rightarrow> u64 \<times> u64" where
  "finalize len h =
     (let h1 = xor (fst h) len;
          h2 = xor (snd h) len;
          h1 = h1 + h2;
          h2 = h2 + h1;
          h1 = fmix64 h1;
          h2 = fmix64 h2;
          h1 = h1 + h2;
          h2 = h2 + h1
      in (h1, h2))"

definition murmur3_x64_128 :: "bytes \<Rightarrow> u64 \<Rightarrow> u64 \<times> u64" where
  "murmur3_x64_128 data seed =
     (let nblocks = length data div 16;
          h = fold (body_step data) [0..<nblocks] (seed, seed);
          tail = drop (nblocks * 16) data
      in finalize (of_nat (length data)) (tail_step tail h))"

definition hash64 :: "bytes \<Rightarrow> u64" where
  "hash64 data = fst (murmur3_x64_128 data 0)"

section \<open>Every step is a bijection\<close>

lemma xor_cancel:
  "xor a b = xor a c \<longleftrightarrow> b = c" "xor b a = xor c a \<longleftrightarrow> b = c" for a b c :: "'a::len word"
  by (auto simp: bit_eq_iff bit_simps)

lemma rotl_cancel: "word_rotl n a = word_rotl n b \<longleftrightarrow> a = b"
  by (metis word_rot_lr)

lemma odd_cancel:
  fixes x y :: u64
  shows "x * 0xff51afd7ed558ccd = y * 0xff51afd7ed558ccd \<longleftrightarrow> x = y"
    and "x * 0xc4ceb9fe1a85ec53 = y * 0xc4ceb9fe1a85ec53 \<longleftrightarrow> x = y"
    and "x * C1 = y * C1 \<longleftrightarrow> x = y"
    and "x * C2 = y * C2 \<longleftrightarrow> x = y"
    and "x * 5 = y * 5 \<longleftrightarrow> x = y"
  using odd_mult_inj [of "0x4f74430c22a54005" "0xff51afd7ed558ccd" x y]
    odd_mult_inj [of "0x9cb4b2f8129337db" "0xc4ceb9fe1a85ec53" x y]
    odd_mult_inj [of "0xa98409e882ce4d7d" C1 x y] odd_mult_inj [of "0xa81e14edd9de2c7f" C2 x y]
    odd_mult_inj [of "0xCCCCCCCCCCCCCCCD" 5 x y]
  by (auto simp: C1_def C2_def)

lemma fmix64_inj: "fmix64 x = fmix64 y \<longleftrightarrow> x = y"
  unfolding fmix64_def Let_def
  using xorshift_inj [of 33 x y] xorshift_inj [of 33 "xor x (drop_bit 33 x) * 0xff51afd7ed558ccd"
      "xor y (drop_bit 33 y) * 0xff51afd7ed558ccd"]
  by (auto dest!: xorshift_inj [rotated] simp: odd_cancel)

lemma scramble_cancel:
  "scramble1 x = scramble1 y \<longleftrightarrow> x = y" "scramble2 x = scramble2 y \<longleftrightarrow> x = y"
  by (simp_all add: scramble1_def scramble2_def odd_cancel rotl_cancel)

lemma add_pair_cancel:
  "a + b = c + d \<and> b + (a + b) = d + (c + d) \<longleftrightarrow> a = c \<and> b = d" for a b c d :: "'a::len word"
  by (metis add_right_cancel)

lemma finalize_inj: "finalize n h = finalize n h' \<longleftrightarrow> h = h'"
  unfolding finalize_def Let_def prod.inject add_pair_cancel fmix64_inj xor_cancel
  by (simp add: prod_eq_iff)

lemma foldr_push_bit:
  "foldr (\<lambda>i k. xor k (push_bit (8 * Suc i) (f i))) xs (0 :: u64) =
     push_bit 8 (foldr (\<lambda>i k. xor k (push_bit (8 * i) (f i))) xs 0)"
proof (induction xs)
  case (Cons x xs)
  have "push_bit (8 * Suc x) (f x) = push_bit 8 (push_bit (8 * x) (f x))" by simp
  with Cons show ?case by (simp only: foldr.simps comp_def push_bit_xor)
qed simp

lemma tail_loop: "foldr (\<lambda>i k. xor k (push_bit (8 * i) (ucast (bs ! i)))) [0..<length bs] 0 = from_le bs"
proof (induction bs)
  case (Cons b bs)
  have up: "[0..<length (b # bs)] = 0 # map Suc [0..<length bs]"
    by (simp add: map_Suc_upt upt_conv_Cons del: upt_Suc)
  have disj: "xor (push_bit 8 w) (ucast b) = or (ucast b) (push_bit 8 w)" for w :: u64
    by (rule bit_eqI) (auto simp: bit_simps dest: bit_imp_le_length)
  have "foldr (\<lambda>i k. xor k (push_bit (8 * i) (ucast ((b # bs) ! i)))) [0..<length (b # bs)] 0 =
      xor (foldr (\<lambda>i k. xor k (push_bit (8 * Suc i) (ucast (bs ! i)))) [0..<length bs] 0) (ucast b)"
    unfolding up by (simp add: foldr_map comp_def)
  also note foldr_push_bit [of "\<lambda>i. ucast (bs ! i)" "[0..<length bs]"]
  finally show ?case by (simp only: Cons disj from_le.simps)
qed simp

lemma tail_word_from_le:
  assumes "lo \<le> hi" "hi \<le> length tail"
  shows "tail_word tail lo hi = from_le (take (hi - lo) (drop lo tail))"
proof -
  let ?bs = "take (hi - lo) (drop lo tail)"
  have len: "length ?bs = hi - lo" using assms by simp
  have up: "[lo..<hi] = map (\<lambda>i. i + lo) [0..<hi - lo]" using assms(1) by (simp add: map_add_upt)
  have "tail_word tail lo hi =
      foldr (\<lambda>i k. xor k (push_bit (8 * i) (ucast (tail ! (i + lo))))) [0..<hi - lo] 0"
    unfolding tail_word_def foldr_conv_fold [symmetric] up by (simp add: foldr_map comp_def)
  also have "\<dots> = foldr (\<lambda>i k. xor k (push_bit (8 * i) (ucast (?bs ! i)))) [0..<hi - lo] 0"
    by (rule foldr_cong) (use assms in \<open>auto simp: add.commute\<close>)
  also have "\<dots> = from_le ?bs" using tail_loop [of ?bs] by (simp only: len)
  finally show ?thesis .
qed

lemma from_le_inj: "length a = length b \<Longrightarrow> length a \<le> 8 \<Longrightarrow> from_le a = from_le b \<longleftrightarrow> a = b"
  by (metis to_le_from_le)

lemma tail_step_inj:
  assumes "length a = length b" "length a < 16"
  shows "tail_step a h = tail_step b h \<longleftrightarrow> a = b"
proof
  assume eq: "tail_step a h = tail_step b h"
  have lo: "take 8 a = take 8 b"
  proof (cases "length a = 0")
    case False
    then have "tail_word a 0 (min (length a) 8) = tail_word b 0 (min (length b) 8)"
      using eq assms(1) by (simp add: tail_step_def Let_def xor_cancel scramble_cancel Suc_le_eq
          split: if_splits)
    then show ?thesis
      using assms by (cases "length b \<le> 8") (simp_all add: tail_word_from_le from_le_inj)
  qed (use assms in simp)
  moreover have "drop 8 a = drop 8 b"
  proof (cases "length a \<ge> 9")
    case True
    then have "tail_word a 8 (length a) = tail_word b 8 (length b)"
      using eq assms(1) by (simp add: tail_step_def Let_def xor_cancel scramble_cancel split: if_splits)
    then show ?thesis
      using assms True by (simp add: tail_word_from_le from_le_inj)
  qed (use assms in simp)
  ultimately show "a = b" by (metis append_take_drop_id)
qed simp

lemma body_step_inj:
  assumes "length a = 16" "length b = 16"
  shows "body_step a 0 h = body_step b 0 h \<longleftrightarrow> a = b"
proof
  assume eq: "body_step a 0 h = body_step b 0 h"
  have rd: "read_u64_le d 0 = from_le (take 8 d)" "read_u64_le d 8 = from_le (drop 8 d)"
    if "length d = 16" for d
    using that by (simp_all add: read_u64_le_def Let_def)
  have "from_le (take 8 a) = from_le (take 8 b) \<and> from_le (drop 8 a) = from_le (drop 8 b)"
    using eq by (auto simp: body_step_def Let_def rd [OF assms(1)] rd [OF assms(2)] odd_cancel
        rotl_cancel xor_cancel scramble_cancel)
  then show "a = b" using assms by (simp add: from_le_inj) (metis append_take_drop_id)
qed simp

section \<open>Properties\<close>

text \<open>the stable hash has no collisions among short keys: for any seed, two keys of the same
  length of at most sixteen bytes (such as instance addresses of one width) have the same 128-bit
  hash only if they are equal. The finalizer itself is a bijection of the 64-bit words.\<close>

theorem murmur_no_short_collisions:
  assumes "length a = length b" "length a \<le> 16"
  shows "(murmur3_x64_128 a sd = murmur3_x64_128 b sd \<longleftrightarrow> a = b) \<and> bij fmix64"
proof
  show "bij fmix64" using fmix64_inj inj_word_surj [of fmix64] by (auto simp: bij_def inj_def)
  show "murmur3_x64_128 a sd = murmur3_x64_128 b sd \<longleftrightarrow> a = b"
  proof (cases "length a = 16")
    case True
    then show ?thesis
      using assms(1) body_step_inj [of a b "(sd, sd)"]
      by (auto simp: murmur3_x64_128_def Let_def finalize_inj tail_step_def)
  next
    case False
    then show ?thesis
      using assms tail_step_inj [of a b "(sd, sd)"]
      by (simp add: murmur3_x64_128_def Let_def finalize_inj)
  qed
qed

theorem murmur_no_short_collisions_witness:
  "murmur3_x64_128 [97, 58, 49] 0 \<noteq> murmur3_x64_128 [97, 58, 50] 0"
  using murmur_no_short_collisions [of "[97, 58, 49]" "[97, 58, 50]" 0] by simp

end
