(* ===== verification/Maglev.thy ===== *)
theory Maglev
  imports Murmur
begin

text \<open>
  The weighted Maglev table of \<open>control/src/maglev.rs\<close>. The nested fill loops are recursive
  functions with fuel: \<open>m\<close> probes for a free slot and \<open>m\<close> rounds, which are proved to be enough for
  every prime table size. Counts are natural numbers: with \<open>m\<close> at most 5000011 and weights at most
  1000 (checked by \<open>validate_lb\<close>) no product of the code leaves 64 bits.
\<close>

section \<open>Building the table\<close>

record maglev_params =
  p_offset :: "nat list"
  p_skip :: "nat list"
  p_weights :: "nat list"
  p_max :: nat
  p_m :: nat

definition maglev_setup :: "(bytes \<times> u32) list \<Rightarrow> nat \<Rightarrow> maglev_params" where
  "maglev_setup es m =
     (let hs = map (\<lambda>(name, _). murmur3_x64_128 name 0) es;
          ws = map (\<lambda>(_, w). unat w) es
      in \<lparr>p_offset = map (\<lambda>(h1, h2). unat h1 mod m) hs,
          p_skip = map (\<lambda>(h1, h2). unat h2 mod (m - 1) + 1) hs,
          p_weights = ws,
          p_max = max (fold max ws 0) 1,
          p_m = m\<rparr>)"

record maglev_fill =
  target :: "nat list"
  nxt :: "nat list"
  entry :: "int list"
  filled :: nat

definition maglev_start :: "maglev_params \<Rightarrow> maglev_fill" where
  "maglev_start P = \<lparr>target = p_weights P, nxt = replicate (length (p_weights P)) 0,
     entry = replicate (p_m P) (- 1), filled = 0\<rparr>"

definition slot_of :: "maglev_params \<Rightarrow> nat \<Rightarrow> nat \<Rightarrow> nat" where
  "slot_of P i j = (p_offset P ! i + j * p_skip P ! i) mod p_m P"

fun probe :: "maglev_params \<Rightarrow> nat \<Rightarrow> int list \<Rightarrow> nat \<Rightarrow> nat \<Rightarrow> (nat \<times> nat) option" where
  "probe P i ent 0 j = None"
| "probe P i ent (Suc fuel) j =
     (let c = slot_of P i j in
      if ent ! c \<ge> 0 then probe P i ent fuel (j + 1) else Some (c, j))"

definition place :: "maglev_params \<Rightarrow> nat \<Rightarrow> maglev_fill \<Rightarrow> maglev_fill option" where
  "place P i st =
     (case probe P i (entry st) (p_m P) (nxt st ! i) of
        None \<Rightarrow> None
      | Some (c, j) \<Rightarrow> Some
          \<lparr>target = (target st)[i := target st ! i + p_max P],
           nxt = (nxt st)[i := j + 1],
           entry = (entry st)[c := int i],
           filled = filled st + 1\<rparr>)"

text \<open>One round over the backends; the flag is the \<open>break 'fill\<close>.\<close>

fun round_loop :: "maglev_params \<Rightarrow> nat \<Rightarrow> nat list \<Rightarrow> maglev_fill \<Rightarrow> (maglev_fill \<times> bool) option" where
  "round_loop P r [] st = Some (st, False)"
| "round_loop P r (i # is) st =
     (if p_weights P ! i = 0 then round_loop P r is st
      else if r * p_weights P ! i < target st ! i then round_loop P r is st
      else
        (case place P i st of
           None \<Rightarrow> None
         | Some st' \<Rightarrow>
             if filled st' = p_m P then Some (st', True) else round_loop P r is st'))"

fun fill_loop :: "maglev_params \<Rightarrow> nat \<Rightarrow> nat \<Rightarrow> maglev_fill \<Rightarrow> maglev_fill option" where
  "fill_loop P fuel r st =
     (if filled st < p_m P then
        (case fuel of
           0 \<Rightarrow> None
         | Suc fuel' \<Rightarrow>
             (case round_loop P (r + 1) [0..<length (p_weights P)] st of
                None \<Rightarrow> None
              | Some (st', done) \<Rightarrow>
                  if done then Some st' else fill_loop P fuel' (r + 1) st'))
      else Some st)"

declare fill_loop.simps [simp del]

text \<open>The table, with each entry cast to \<open>u16\<close>.\<close>

definition maglev_build :: "(bytes \<times> u32) list \<Rightarrow> nat \<Rightarrow> u16 list option" where
  "maglev_build es m =
     map_option (\<lambda>st. map of_int (entry st))
       (fill_loop (maglev_setup es m) m 0 (maglev_start (maglev_setup es m)))"

definition maglev_lookup :: "u16 list \<Rightarrow> u64 \<Rightarrow> nat option" where
  "maglev_lookup table key_hash =
     (let m = length table in
      if m = 0 then None else Some (unat (table ! (unat key_hash mod m))))"

section \<open>The probe sequence is a permutation\<close>

text \<open>Primality, as the divisors of a number.\<close>

definition prime_number :: "nat \<Rightarrow> bool" where
  "prime_number p \<longleftrightarrow> 1 < p \<and> (\<forall>d. d dvd p \<longrightarrow> d = 1 \<or> d = p)"

lemma prime_coprime: "prime_number m \<Longrightarrow> 0 < s \<Longrightarrow> s < m \<Longrightarrow> coprime s m"
  by (metis prime_number_def coprime_iff_gcd_eq_1 gcd_dvd1 gcd_dvd2 dvd_imp_le not_less)

lemma steps_inj:
  fixes s m :: nat
  assumes "coprime s m" "a < m" "b < m" "(x + a * s) mod m = (x + b * s) mod m"
  shows "a = b"
proof -
  have aux: "a = b" if "a \<le> b" "a < m" "b < m" "(x + a * s) mod m = (x + b * s) mod m" for a b
  proof -
    have "x + a * s \<le> x + b * s" using that(1) by simp
    from mod_eq_dvd_iff_nat [OF this, of m] have "m dvd (x + b * s) - (x + a * s)"
      using that(4) by (metis (no_types))
    then have "m dvd (b - a) * s" by (simp add: diff_mult_distrib)
    then have "m dvd b - a" using assms(1) by (simp add: coprime_dvd_mult_left_iff coprime_commute)
    then show ?thesis using that by (metis dvd_imp_le diff_is_0_eq le_antisym less_imp_diff_less not_less
          zero_less_diff)
  qed
  show ?thesis using aux assms by (metis nat_le_linear)
qed

lemma steps_surj:
  fixes s m :: nat
  assumes "coprime s m" "c < m"
  shows "\<exists>j<m. (x + j * s) mod m = c"
proof -
  let ?f = "\<lambda>j. (x + j * s) mod m"
  have "inj_on ?f {..<m}" 
    by (rule inj_onI) (rule steps_inj [OF assms(1)], auto)
  moreover have "?f ` {..<m} \<subseteq> {..<m}" using assms(2) by auto
  ultimately have "?f ` {..<m} = {..<m}" by (intro endo_inj_surj) simp_all
  moreover have "c \<in> {..<m}" using assms(2) by simp
  ultimately have "c \<in> ?f ` {..<m}" by (simp only:)
  then show ?thesis by blast
qed

section \<open>The fill loop keeps its books\<close>

definition wf_params :: "maglev_params \<Rightarrow> bool" where
  "wf_params P \<longleftrightarrow> (let n = length (p_weights P) in
     prime_number (p_m P) \<and> 1 \<le> n \<and> n \<le> p_m P \<and>
     length (p_offset P) = n \<and> length (p_skip P) = n \<and>
     (\<forall>i<n. 0 < p_skip P ! i \<and> p_skip P ! i < p_m P) \<and>
     (\<forall>i<n. 1 \<le> p_weights P ! i \<and> p_weights P ! i \<le> p_max P) \<and>
     (\<exists>i<n. p_weights P ! i = p_max P))"

text \<open>The number of slots of backend \<open>i\<close>.\<close>

definition taken :: "maglev_fill \<Rightarrow> nat \<Rightarrow> nat" where
  "taken st i = count_list (entry st) (int i)"

definition fill_inv :: "maglev_params \<Rightarrow> maglev_fill \<Rightarrow> bool" where
  "fill_inv P st \<longleftrightarrow> (let n = length (p_weights P) in
     length (target st) = n \<and> length (nxt st) = n \<and> length (entry st) = p_m P \<and>
     filled st = length (filter (\<lambda>e. 0 \<le> e) (entry st)) \<and>
     (\<forall>e \<in> set (entry st). e = - 1 \<or> 0 \<le> e \<and> e < int n) \<and>
     (\<forall>i<n. \<forall>j<nxt st ! i. 0 \<le> entry st ! slot_of P i j) \<and>
     (\<forall>i<n. target st ! i = p_weights P ! i + taken st i * p_max P))"

lemma slot_less: "wf_params P \<Longrightarrow> slot_of P i j < p_m P"
  by (simp add: wf_params_def slot_of_def Let_def prime_number_def)

lemma probe_finds:
  assumes "j \<le> k" "k < j + fuel" "ent ! slot_of P i k < 0"
  shows "\<exists>j'. probe P i ent fuel j = Some (slot_of P i j', j') \<and> j \<le> j' \<and>
           ent ! slot_of P i j' < 0 \<and> (\<forall>x. j \<le> x \<and> x < j' \<longrightarrow> 0 \<le> ent ! slot_of P i x)"
  using assms
proof (induction fuel arbitrary: j)
  case (Suc fuel)
  show ?case
  proof (cases "0 \<le> ent ! slot_of P i j")
    case True
    then have "j < k" using Suc.prems by (metis le_neq_implies_less not_less)
    then obtain j' where "probe P i ent fuel (j + 1) = Some (slot_of P i j', j')" "j + 1 \<le> j'"
      "ent ! slot_of P i j' < 0" "\<forall>x. j + 1 \<le> x \<and> x < j' \<longrightarrow> 0 \<le> ent ! slot_of P i x"
      using Suc.IH [of "j + 1"] Suc.prems by auto
    then show ?thesis using True
      by (intro exI [of _ j']) (auto simp: Let_def, metis Suc_leI le_neq_implies_less)
  qed (auto simp: Let_def)
qed simp

lemma count_list_update:
  "c < length xs \<Longrightarrow> xs ! c \<noteq> z \<Longrightarrow>
     count_list (xs[c := y]) z = count_list xs z + (if y = z then 1 else 0)"
  by (induction xs arbitrary: c) (auto split: nat.splits)

lemma filter_length_update:
  "c < length xs \<Longrightarrow> \<not> Q (xs ! c) \<Longrightarrow> Q y \<Longrightarrow>
     length (filter Q (xs[c := y])) = length (filter Q xs) + 1"
  by (induction xs arbitrary: c) (auto split: nat.splits)

lemma free_slot:
  assumes "wf_params P" "fill_inv P st" "i < length (p_weights P)" "filled st < p_m P"
  shows "\<exists>k. nxt st ! i \<le> k \<and> k < p_m P \<and> entry st ! slot_of P i k < 0"
proof -
  have "length (filter (\<lambda>e. 0 \<le> e) (entry st)) < length (entry st)"
    using assms by (simp add: fill_inv_def Let_def)
  then obtain c where c: "c < p_m P" "entry st ! c < 0"
    using assms(2) by (metis (mono_tags, lifting) fill_inv_def filter_True in_set_conv_nth
        nat_neq_iff not_less)
  have "coprime (p_skip P ! i) (p_m P)"
    using assms(1,3) prime_coprime by (auto simp: wf_params_def Let_def)
  from steps_surj [OF this c(1), of "p_offset P ! i"] obtain k where
    k: "k < p_m P" "slot_of P i k = c" by (auto simp: slot_of_def)
  moreover have "nxt st ! i \<le> k"
  proof (rule ccontr)
    assume "\<not> nxt st ! i \<le> k"
    then have "0 \<le> entry st ! slot_of P i k"
      using assms(2,3) by (simp add: fill_inv_def Let_def)
    with k c show False by simp
  qed
  ultimately show ?thesis using c by blast
qed

lemma place_ok:
  assumes "wf_params P" "fill_inv P st" "i < length (p_weights P)" "filled st < p_m P"
  shows "\<exists>st'. place P i st = Some st' \<and> fill_inv P st' \<and> filled st' = filled st + 1 \<and>
           (\<forall>k. taken st' k = taken st k + (if k = i then 1 else 0))"
proof -
  let ?n = "length (p_weights P)"
  note inv = assms(2) [unfolded fill_inv_def Let_def]
  obtain k where "nxt st ! i \<le> k" "k < p_m P" "entry st ! slot_of P i k < 0"
    using free_slot [OF assms] by blast
  then obtain j where j: "probe P i (entry st) (p_m P) (nxt st ! i) = Some (slot_of P i j, j)"
    "nxt st ! i \<le> j" "entry st ! slot_of P i j < 0"
    "\<forall>x. nxt st ! i \<le> x \<and> x < j \<longrightarrow> 0 \<le> entry st ! slot_of P i x"
    using probe_finds [of "nxt st ! i" k "p_m P"] by fastforce
  let ?c = "slot_of P i j"
  define st' where "st' = \<lparr>target = (target st)[i := target st ! i + p_max P],
           nxt = (nxt st)[i := j + 1], entry = (entry st)[?c := int i], filled = filled st + 1\<rparr>"
  have c: "?c < length (entry st)" using slot_less [OF assms(1)] inv by simp
  have tk: "taken st' k = taken st k + (if k = i then 1 else 0)" for k
    using count_list_update [OF c, of "int k" "int i"] j(3) by (auto simp: taken_def st'_def)
  have probed: "0 \<le> entry st ! slot_of P i' x \<or> slot_of P i' x = ?c"
    if "i' < ?n" "x < nxt st' ! i'" for i' x
  proof (cases "i' = i")
    case True
    then have "x \<le> j" using that assms(3) inv by (simp add: st'_def)
    then consider "x = j" | "x < nxt st ! i" | "nxt st ! i \<le> x" "x < j" by linarith
    then show ?thesis by cases (use True inv j(4) assms(3) in auto)
  qed (use that inv in \<open>auto simp: st'_def\<close>)
  have "fill_inv P st'"
    unfolding fill_inv_def Let_def
  proof (intro conjI)
    show "filled st' = length (filter (\<lambda>e. 0 \<le> e) (entry st'))"
      using filter_length_update [OF c, of "\<lambda>e. 0 \<le> e" "int i"] j(3) inv by (simp add: st'_def)
    show "\<forall>e\<in>set (entry st'). e = - 1 \<or> 0 \<le> e \<and> e < int ?n"
      using inv assms(3) set_update_subset_insert [of "entry st" ?c "int i"] by (auto simp: st'_def)
    show "\<forall>i'<?n. \<forall>x<nxt st' ! i'. 0 \<le> entry st' ! slot_of P i' x"
    proof (intro allI impI)
      fix i' x assume "i' < ?n" "x < nxt st' ! i'"
      from probed [OF this] show "0 \<le> entry st' ! slot_of P i' x"
        using c by (cases "slot_of P i' x = ?c") (auto simp: st'_def)
    qed
    show "\<forall>i'<?n. target st' ! i' = p_weights P ! i' + taken st' i' * p_max P"
      using inv tk by (auto simp: st'_def nth_list_update)
  qed (use inv in \<open>auto simp: st'_def\<close>)
  then show ?thesis using j(1) tk by (auto simp: place_def st'_def)
qed

section \<open>Turns follow the weights\<close>

text \<open>The turns backend \<open>i\<close> has had after \<open>r\<close> complete rounds.\<close>

definition turns :: "maglev_params \<Rightarrow> nat \<Rightarrow> nat \<Rightarrow> nat" where
  "turns P r i = (if r = 0 then 0 else (r - 1) * p_weights P ! i div p_max P + 1)"

lemma div_step:
  fixes a w M :: nat
  assumes "w \<le> M" "0 < M"
  shows "(a + w) div M = a div M \<or> (a + w) div M = a div M + 1"
proof -
  have "(a + w) div M \<le> (a + M) div M" using assms by (intro div_le_mono) simp
  also have "(a + M) div M = a div M + 1" using div_add_self2 [of M a] assms(2) by simp
  finally have "(a + w) div M \<le> a div M + 1" .
  moreover have "a div M \<le> (a + w) div M" by (intro div_le_mono) simp
  ultimately show ?thesis by linarith
qed

lemma turns_step:
  assumes "1 \<le> p_weights P ! i" "p_weights P ! i \<le> p_max P"
  shows "turns P (Suc r) i = turns P r i +
           (if Suc r * p_weights P ! i < p_weights P ! i + turns P r i * p_max P then 0 else 1)"
proof (cases r)
  case (Suc q)
  let ?w = "p_weights P ! i" and ?M = "p_max P"
  have M: "0 < ?M" using assms by linarith
  have iff: "Suc r * ?w < ?w + turns P r i * ?M \<longleftrightarrow> (q * ?w + ?w) div ?M < q * ?w div ?M + 1"
  proof -
    have "Suc r * ?w < ?w + turns P r i * ?M \<longleftrightarrow> q * ?w + ?w < (q * ?w div ?M + 1) * ?M"
      by (simp add: Suc turns_def add.commute)
    also have "\<dots> \<longleftrightarrow> (q * ?w + ?w) div ?M < q * ?w div ?M + 1"
      using M by (simp only: div_less_iff_less_mult)
    finally show ?thesis .
  qed
  have "turns P (Suc r) i = (q * ?w + ?w) div ?M + 1" by (simp add: Suc turns_def add.commute)
  moreover have "turns P r i = q * ?w div ?M + 1" by (simp add: Suc turns_def)
  ultimately show ?thesis using div_step [OF assms(2) M, of "q * ?w"] iff by auto
qed (simp add: turns_def)

definition mid_round :: "maglev_params \<Rightarrow> nat \<Rightarrow> nat \<Rightarrow> maglev_fill \<Rightarrow> bool" where
  "mid_round P r i st \<longleftrightarrow>
     (\<forall>k<length (p_weights P). taken st k = (if k < i then turns P (Suc r) k else turns P r k))"

lemma round_ok:
  assumes "wf_params P" "i \<le> length (p_weights P)" "fill_inv P st" "filled st < p_m P"
    and "mid_round P r i st"
  shows "\<exists>st' d i'. round_loop P (Suc r) [i..<length (p_weights P)] st = Some (st', d) \<and>
     fill_inv P st' \<and> mid_round P r i' st' \<and> i' \<le> length (p_weights P) \<and>
     (if d then filled st' = p_m P else filled st' < p_m P \<and> i' = length (p_weights P))"
  using assms(2-5)
proof (induction "length (p_weights P) - i" arbitrary: i st)
  case 0
  then show ?case by auto
next
  case (Suc x)
  let ?n = "length (p_weights P)"
  have i: "i < ?n" using Suc.hyps(2) by linarith
  have up: "[i..<?n] = i # [Suc i..<?n]" using i by (simp add: upt_conv_Cons)
  have w: "1 \<le> p_weights P ! i" "p_weights P ! i \<le> p_max P"
    using assms(1) i by (auto simp: wf_params_def Let_def)
  have tgt: "target st ! i = p_weights P ! i + turns P r i * p_max P"
    using Suc.prems(2,4) i by (simp add: fill_inv_def Let_def mid_round_def)
  note IH = Suc.hyps(1) [of "Suc i"]
  have x: "x = ?n - Suc i" "Suc i \<le> ?n" using Suc.hyps(2) i by simp_all
  show ?case
  proof (cases "Suc r * p_weights P ! i < target st ! i")
    case True
    then have "mid_round P r (Suc i) st"
      using Suc.prems(4) turns_step [OF w, of r] tgt by (auto simp: mid_round_def less_Suc_eq)
    from IH [OF x Suc.prems(2,3) this] show ?thesis using True w by (simp add: up)
  next
    case False
    obtain st' where st': "place P i st = Some st'" "fill_inv P st'" "filled st' = filled st + 1"
      "\<forall>k. taken st' k = taken st k + (if k = i then 1 else 0)"
      using place_ok [OF assms(1) Suc.prems(2) i Suc.prems(3)] by blast
    have mid: "mid_round P r (Suc i) st'"
      using Suc.prems(4) turns_step [OF w, of r] tgt False st'(4)
      by (auto simp: mid_round_def less_Suc_eq)
    show ?thesis
    proof (cases "filled st' = p_m P")
      case True
      then show ?thesis using False w st' mid x(2) by (auto simp: up)
    next
      case False': False
      then have "filled st' < p_m P" using st'(3) Suc.prems(3) by simp
      from IH [OF x st'(2) this mid] show ?thesis using False False' w st'(1) by (simp add: up)
    qed
  qed
qed

lemma taken_le_filled: "fill_inv P st \<Longrightarrow> taken st k \<le> filled st"
proof -
  have "count_list xs (int k) \<le> length (filter (\<lambda>e. 0 \<le> e) xs)" for xs by (induction xs) auto
  then show "fill_inv P st \<Longrightarrow> taken st k \<le> filled st" by (simp add: fill_inv_def taken_def Let_def)
qed

lemma fill_ok:
  assumes "wf_params P" "fill_inv P st" "mid_round P r 0 st" "p_m P \<le> fuel + r"
  shows "\<exists>st' R i'. fill_loop P fuel r st = Some st' \<and> fill_inv P st' \<and> filled st' = p_m P \<and>
           mid_round P R i' st' \<and> i' \<le> length (p_weights P)"
  using assms(2-4)
proof (induction fuel arbitrary: r st)
  case 0
  obtain b where b: "b < length (p_weights P)" "p_weights P ! b = p_max P"
    using assms(1) by (auto simp: wf_params_def Let_def)
  have "0 < p_max P" using assms(1) b by (auto simp: wf_params_def Let_def dest!: spec [of _ b])
  then have "taken st b = r" using 0(2) b by (auto simp: mid_round_def turns_def)
  then have "p_m P \<le> filled st" using 0 taken_le_filled [of P st b] by simp
  moreover have "filled st \<le> p_m P"
    using 0(1) length_filter_le [of "\<lambda>e. 0 \<le> e" "entry st"] by (simp add: fill_inv_def Let_def)
  ultimately show ?case using 0 by (intro exI [of _ st] exI [of _ r] exI [of _ 0])
      (simp add: fill_loop.simps)
next
  case (Suc fuel)
  show ?case
  proof (cases "filled st < p_m P")
    case True
    obtain st' d i' where run: "round_loop P (Suc r) [0..<length (p_weights P)] st = Some (st', d)"
      "fill_inv P st'" "mid_round P r i' st'" "i' \<le> length (p_weights P)"
      "if d then filled st' = p_m P else filled st' < p_m P \<and> i' = length (p_weights P)"
      using round_ok [OF assms(1) _ Suc.prems(1) True Suc.prems(2)] by blast
    show ?thesis
    proof (cases d)
      case True
      then show ?thesis using run \<open>filled st < p_m P\<close>
        by (intro exI [of _ st'] exI [of _ r] exI [of _ i']) (simp add: fill_loop.simps)
    next
      case False
      then have "mid_round P (Suc r) 0 st'" using run by (simp add: mid_round_def)
      from Suc.IH [OF run(2) this] show ?thesis
        using Suc.prems(3) run False True by (simp add: fill_loop.simps [of P "Suc fuel"])
    qed
  next
    case False
    have "filled st \<le> p_m P"
      using Suc.prems(1) length_filter_le [of "\<lambda>e. 0 \<le> e" "entry st"] by (simp add: fill_inv_def Let_def)
    then show ?thesis using False Suc.prems
      by (intro exI [of _ st] exI [of _ r] exI [of _ 0]) (simp add: fill_loop.simps)
  qed
qed

section \<open>From the validated configuration to the table\<close>

lemma fold_max: "fold max ws (a :: nat) = Max (insert a (set ws))"
  using Max.set_eq_fold [of a ws] by simp

lemma setup_max:
  assumes "es \<noteq> []" "\<forall>(nm, w) \<in> set es. 1 \<le> w"
  shows "p_max (maglev_setup es m) = Max (set (map (unat \<circ> snd) es))"
proof -
  let ?ws = "map (unat \<circ> snd) es"
  have ge: "1 \<le> w" if "w \<in> set ?ws" for w using assms(2) that by (auto simp: word_le_nat_alt)
  have ne: "set ?ws \<noteq> {}" using assms(1) by simp
  have "1 \<le> Max (set ?ws)" using Max_in [of "set ?ws"] ge ne by blast
  moreover have "map (\<lambda>(_, w). unat w) es = ?ws" by (simp add: case_prod_unfold)
  ultimately show ?thesis using ne by (simp add: maglev_setup_def Let_def fold_max)
qed

lemma setup_fields:
  "length (p_weights (maglev_setup es m)) = length es" "p_m (maglev_setup es m) = m"
  "length (p_offset (maglev_setup es m)) = length es" "length (p_skip (maglev_setup es m)) = length es"
  "i < length es \<Longrightarrow> p_weights (maglev_setup es m) ! i = unat (snd (es ! i))"
  "i < length es \<Longrightarrow> p_skip (maglev_setup es m) ! i
     = unat (snd (murmur3_x64_128 (fst (es ! i)) 0)) mod (m - 1) + 1"
  by (simp_all add: maglev_setup_def Let_def case_prod_unfold)

lemma setup_wf:
  assumes "prime_number m" "es \<noteq> []" "length es \<le> m" "\<forall>(nm, w) \<in> set es. 1 \<le> w"
  shows "wf_params (maglev_setup es m)"
proof -
  let ?P = "maglev_setup es m" and ?ws = "map (unat \<circ> snd) es"
  have m: "1 < m" using assms(1) by (simp add: prime_number_def)
  have "Max (set ?ws) \<in> set ?ws" by (rule Max_in) (use assms(2) in simp_all)
  then obtain b where b: "b < length es" "unat (snd (es ! b)) = Max (set ?ws)"
    by (auto simp: in_set_conv_nth)
  have w: "1 \<le> unat (snd (es ! i))" "unat (snd (es ! i)) \<le> Max (set ?ws)" if "i < length es" for i
  proof -
    have "es ! i \<in> set es" using that by simp
    then show "1 \<le> unat (snd (es ! i))" using assms(4) by (force simp: word_le_nat_alt)
    show "unat (snd (es ! i)) \<le> Max (set ?ws)"
      using \<open>es ! i \<in> set es\<close> by (intro Max_ge) simp_all
  qed
  have sk: "0 < p_skip ?P ! i" "p_skip ?P ! i < m" if "i < length es" for i
  proof -
    have "unat (snd (murmur3_x64_128 (fst (es ! i)) 0)) mod (m - 1) < m - 1" using m by simp
    then show "0 < p_skip ?P ! i" "p_skip ?P ! i < m" using that by (simp_all add: setup_fields)
  qed
  have "\<exists>i<length es. p_weights ?P ! i = Max (set ?ws)"
    using b by (intro exI [of _ b]) (simp only: setup_fields simp_thms)
  then show ?thesis
    unfolding wf_params_def Let_def setup_fields(1-4) setup_max [OF assms(2,4)]
    using assms(1-3) w sk by (auto simp: setup_fields Suc_le_eq)
qed

lemma start_inv: "wf_params P \<Longrightarrow> fill_inv P (maglev_start P) \<and> mid_round P 0 0 (maglev_start P)"
proof -
  have z: "count_list (replicate k (- 1)) (int i) = 0" for k i by (induction k) auto
  show "wf_params P \<Longrightarrow> fill_inv P (maglev_start P) \<and> mid_round P 0 0 (maglev_start P)"
    by (auto simp: fill_inv_def maglev_start_def taken_def mid_round_def turns_def Let_def z)
qed

lemma filled_sum:
  "\<forall>e \<in> set xs. e = - 1 \<or> 0 \<le> e \<and> e < int n \<Longrightarrow>
     length (filter (\<lambda>e. 0 \<le> e) xs) = (\<Sum>k<n. count_list xs (int k))"
proof (induction xs)
  case (Cons e xs)
  show ?case
  proof (cases "e = - 1")
    case False
    then obtain k where k: "e = int k" "k < n" using Cons.prems by (auto intro: that [of "nat e"])
    have "(\<Sum>j<n. count_list (e # xs) (int j)) = (\<Sum>j<n. count_list xs (int j) + (if j = k then 1 else 0))"
      by (intro sum.cong) (auto simp: k)
    also have "\<dots> = (\<Sum>j<n. count_list xs (int j)) + 1" using k by (simp add: sum.distrib)
    finally show ?thesis using Cons k by simp
  qed (use Cons in simp)
qed simp

lemma every_backend_once:
  assumes "wf_params P" "fill_inv P st" "filled st = p_m P" "mid_round P R i' st"
    and "i' \<le> length (p_weights P)" "i < length (p_weights P)"
  shows "1 \<le> taken st i"
proof (cases "R = 0")
  case True
  let ?n = "length (p_weights P)"
  have "filled st = (\<Sum>k<?n. taken st k)"
    using assms(2) filled_sum by (simp add: fill_inv_def taken_def Let_def)
  also have "\<dots> = (\<Sum>k<?n. if k < i' then 1 else 0)"
    using assms(4) True by (intro sum.cong) (auto simp: mid_round_def turns_def)
  also have "\<dots> = card {k. k < ?n \<and> k < i'}" by (simp add: sum.If_cases Int_def lessThan_def)
  also have "{k. k < ?n \<and> k < i'} = {..<i'}" using assms(5) by auto
  finally have "i' = p_m P" using assms(3) by simp
  then have "i < i'" using assms(1,6) by (simp add: wf_params_def Let_def)
  then show ?thesis using assms(4,6) True by (simp add: mid_round_def turns_def)
qed (use assms in \<open>auto simp: mid_round_def turns_def\<close>)

lemma turns_near:
  assumes "1 \<le> p_weights P ! i" "p_weights P ! i \<le> p_max P"
  shows "R * p_weights P ! i div p_max P \<le> turns P R i"
    and "turns P R i \<le> R * p_weights P ! i div p_max P + 1"
    and "turns P (Suc R) i = R * p_weights P ! i div p_max P + 1"
proof -
  have M: "0 < p_max P" using assms by linarith
  show "turns P (Suc R) i = R * p_weights P ! i div p_max P + 1" by (simp add: turns_def)
  show "R * p_weights P ! i div p_max P \<le> turns P R i"
    "turns P R i \<le> R * p_weights P ! i div p_max P + 1"
    using div_step [OF assms(2) M, of "(R - 1) * p_weights P ! i"]
    by (cases R; auto simp: turns_def add.commute)+
qed

lemma full_entries:
  assumes "fill_inv P st" "filled st = p_m P" "n = length (p_weights P)"
  shows "\<forall>e\<in>set (entry st). 0 \<le> e \<and> e < int n"
proof -
  have len: "length (filter (\<lambda>e. 0 \<le> e) (entry st)) = length (entry st)"
    using assms by (simp add: fill_inv_def Let_def)
  have "0 \<le> e" if "e \<in> set (entry st)" for e
  proof (rule ccontr)
    assume "\<not> 0 \<le> e"
    with length_filter_less [OF that, of "\<lambda>e. 0 \<le> e"] len show False by simp
  qed
  moreover have "\<forall>e\<in>set (entry st). e = - 1 \<or> 0 \<le> e \<and> e < int n"
    using assms(1,3) by (simp add: fill_inv_def Let_def)
  ultimately show ?thesis by fastforce
qed

lemma table_count:
  assumes "\<forall>e\<in>set xs. 0 \<le> e \<and> e < int n" "i < n" "n \<le> 65535"
  shows "count_list (map of_int xs :: u16 list) (of_nat i) = count_list xs (int i)"
proof -
  have "inj_on (of_int :: int \<Rightarrow> u16) (insert (int i) (set xs))"
  proof (rule inj_onI)
    fix a b assume "a \<in> insert (int i) (set xs)" "b \<in> insert (int i) (set xs)"
      "(of_int a :: u16) = of_int b"
    moreover have "uint (of_int c :: u16) = c" if "c \<in> insert (int i) (set xs)" for c
    proof -
      have "0 \<le> c" "c < 2 ^ 16" using that assms by auto
      then show ?thesis by (simp add: uint_word_of_int)
    qed
    ultimately show "a = b" by metis
  qed
  from count_list_map_inj [OF this] show ?thesis by simp
qed

section \<open>The built table\<close>

lemma maglev_build_ok:
  assumes "prime_number m" "es \<noteq> []" "length es \<le> m" "length es \<le> 65535"
    and "\<forall>(nm, w) \<in> set es. 1 \<le> w"
  shows "\<exists>table R. maglev_build es m = Some table \<and> length table = m \<and>
    (\<forall>h. \<exists>i<length es. maglev_lookup table h = Some i) \<and>
    (\<forall>i<length es. 1 \<le> count_list table (of_nat i) \<and>
       R * unat (snd (es ! i)) div Max (set (map (unat \<circ> snd) es)) \<le> count_list table (of_nat i) \<and>
       count_list table (of_nat i) \<le> R * unat (snd (es ! i)) div Max (set (map (unat \<circ> snd) es)) + 1)"
proof -
  let ?P = "maglev_setup es m" and ?n = "length es"
  have wf: "wf_params ?P" using setup_wf assms by blast
  note P = setup_fields(1,2) [of es m]
  have mx: "p_max ?P = Max (set (map (unat \<circ> snd) es))" by (rule setup_max [OF assms(2,5)])
  obtain st R i' where st: "fill_loop ?P m 0 (maglev_start ?P) = Some st" "fill_inv ?P st"
    "filled st = m" "mid_round ?P R i' st" "i' \<le> ?n"
    using fill_ok [OF wf conjunct1 [OF start_inv [OF wf]] conjunct2 [OF start_inv [OF wf]], of m]
    unfolding P by auto
  let ?tab = "map of_int (entry st) :: u16 list"
  have ent: "\<forall>e\<in>set (entry st). 0 \<le> e \<and> e < int ?n" by (rule full_entries [OF st(2)]) (simp_all add: st P)
  have len: "length ?tab = m" using st(2) P by (simp add: fill_inv_def Let_def)
  have cnt: "count_list ?tab (of_nat i) = taken st i" if "i < ?n" for i
    using table_count [OF ent, of i] that assms(4) by (simp add: taken_def)
  have "\<exists>i<?n. maglev_lookup ?tab h = Some i" for h
  proof -
    have m: "0 < m" using assms(1) by (simp add: prime_number_def)
    then have "entry st ! (unat h mod m) \<in> set (entry st)" using len by simp
    then have e: "0 \<le> entry st ! (unat h mod m)" "entry st ! (unat h mod m) < int ?n"
      using ent by blast+
    define k where "k = nat (entry st ! (unat h mod m))"
    have k: "entry st ! (unat h mod m) = int k" "k < ?n" using e by (simp_all add: k_def)
    then have "unat (of_nat k :: u16) = k" using assms(4) by (simp add: unat_of_nat)
    moreover have "?tab ! (unat h mod m) = of_nat k" using len m k(1) by simp
    ultimately have "maglev_lookup ?tab h = Some k" using m by (simp only: maglev_lookup_def Let_def len) simp
    then show ?thesis using k(2) by blast
  qed
  moreover have "1 \<le> taken st i \<and> R * unat (snd (es ! i)) div p_max ?P \<le> taken st i \<and>
       taken st i \<le> R * unat (snd (es ! i)) div p_max ?P + 1" if "i < ?n" for i
  proof -
    have w: "1 \<le> p_weights ?P ! i" "p_weights ?P ! i \<le> p_max ?P"
      using wf that P(1) by (auto simp: wf_params_def Let_def)
    have "taken st i = turns ?P R i \<or> taken st i = turns ?P (Suc R) i"
      using st(4) that P(1) by (auto simp: mid_round_def)
    moreover have "1 \<le> taken st i"
      by (rule every_backend_once [OF wf st(2) _ st(4)]) (simp_all add: st P that)
    ultimately show ?thesis
      using turns_near [OF w, of R] unfolding setup_fields(5) [OF that] by linarith
  qed
  moreover have "maglev_build es m = Some ?tab" using st(1) by (simp add: maglev_build_def)
  ultimately show ?thesis
    unfolding mx [symmetric] using len cnt by (intro exI [of _ ?tab] exI [of _ R]) simp
qed

end
