(* ===== verification/Weighted.thy ===== *)
theory Weighted
  imports Prelude
begin

text \<open>
  The weighted traffic split of \<open>control/src/weighted.rs\<close>: validation of a route's weights, the
  precomputed apportionment schedule, and the cursor-driven pick. An upstream group is an element
  of a type parameter; whether it has an eligible instance is a function argument.
\<close>

section \<open>Validation\<close>

definition MAX_BACKEND_WEIGHT :: u32 where "MAX_BACKEND_WEIGHT = 1000000"
definition MAX_TABLE_LEN :: nat where "MAX_TABLE_LEN = 65536"

text \<open>The error messages of the code, as constructors.\<close>

datatype SplitError =
  NoBackends
| WeightExceedsMax u32
| EveryWeightZero
| TableExceedsMax nat

function gcd_u32 :: "u32 \<Rightarrow> u32 \<Rightarrow> u32" where
  "gcd_u32 a b = (if b \<noteq> 0 then gcd_u32 b (a mod b) else a)"
  by auto
termination
  by (relation "measure (\<lambda>(a, b). unat b)")
    (auto simp: unat_mod_distrib unat_gt_0)

declare gcd_u32.simps [simp del]

text \<open>\<open>Iterator::reduce(gcd)\<close>.\<close>

fun reduce_gcd :: "u32 list \<Rightarrow> u32 option" where
  "reduce_gcd [] = None"
| "reduce_gcd (w # ws) = Some (fold (\<lambda>x acc. gcd_u32 acc x) ws w)"

definition validate_split :: "u32 list \<Rightarrow> SplitError + nat" where
  "validate_split weights =
     (if weights = [] then Inl NoBackends
      else case find (\<lambda>w. w > MAX_BACKEND_WEIGHT) weights of
        Some w \<Rightarrow> Inl (WeightExceedsMax w)
      | None \<Rightarrow>
          (case reduce_gcd (filter (\<lambda>w. w > 0) weights) of
             None \<Rightarrow> Inl EveryWeightZero
           | Some divisor \<Rightarrow>
               let total = sum_list (map (\<lambda>w. unat (w div divisor)) weights) in
               if total > MAX_TABLE_LEN then Inl (TableExceedsMax total) else Inr total))"

section \<open>The schedule\<close>

text \<open>One step of the inner loop: credit backend \<open>i\<close> and keep the best so far.\<close>

definition credit :: "int list \<Rightarrow> nat \<Rightarrow> int list \<times> nat \<Rightarrow> int list \<times> nat" where
  "credit ws i s =
     (let d = (fst s)[i := fst s ! i + ws ! i]
      in (d, if d ! i > d ! snd s then i else snd s))"

definition sched_step :: "int list \<Rightarrow> int list \<Rightarrow> int list \<times> nat" where
  "sched_step ws d =
     (let (d', best) = fold (credit ws) [0..<length ws] (d, 0)
      in (d'[best := d' ! best - sum_list ws], best))"

fun sched_loop :: "int list \<Rightarrow> nat \<Rightarrow> int list \<Rightarrow> nat list" where
  "sched_loop ws 0 d = []"
| "sched_loop ws (Suc k) d =
     (let (d', best) = sched_step ws d in best # sched_loop ws k d')"

definition weighted_schedule :: "u32 list \<Rightarrow> u16 list" where
  "weighted_schedule weights =
     (let ws = map uint weights
      in map of_nat (sched_loop ws (nat (sum_list ws)) (replicate (length ws) 0)))"

section \<open>The compiled split\<close>

record 'g WeightedBackends =
  groups :: "'g list"
  table :: "u16 list"
  cursor :: usize

definition WeightedBackends_new :: "('g \<times> u32) list \<Rightarrow> SplitError + 'g WeightedBackends" where
  "WeightedBackends_new targets =
     (let weights = map snd targets in
      bind_res (validate_split weights) (\<lambda>_.
        let gs = map fst (filter (\<lambda>(_, w). w > 0) targets);
            nonzero = filter (\<lambda>w. w > 0) weights;
            divisor = max (case reduce_gcd nonzero of None \<Rightarrow> 1 | Some d \<Rightarrow> d) 1;
            reduced = map (\<lambda>w. w div divisor) nonzero
        in Inr \<lparr>groups = gs, table = weighted_schedule reduced, cursor = 0\<rparr>))"

text \<open>The scan skips forward over backends with no eligible instance.\<close>

fun scan_table :: "('g \<Rightarrow> bool) \<Rightarrow> 'g WeightedBackends \<Rightarrow> nat \<Rightarrow> nat list \<Rightarrow> 'g option" where
  "scan_table has_eligible wb start [] = None"
| "scan_table has_eligible wb start (off # offs) =
     (let g = groups wb ! unat (table wb ! ((start + off) mod length (table wb))) in
      if has_eligible g then Some g else scan_table has_eligible wb start offs)"

definition wb_pick :: "('g \<Rightarrow> bool) \<Rightarrow> 'g WeightedBackends \<Rightarrow> 'g WeightedBackends \<times> 'g option" where
  "wb_pick has_eligible wb =
     (if \<not> list_ex has_eligible (groups wb) then (wb, None)
      else if length (table wb) = 0 then (wb, None)
      else
        let len = length (table wb);
            start = unat (cursor wb) mod len
        in (wb\<lparr>cursor := cursor wb + 1\<rparr>, scan_table has_eligible wb start [0..<len]))"

section \<open>Facts about the divisor\<close>

lemma gcd_u32_correct: "unat (gcd_u32 a b) = gcd (unat a) (unat b)"
proof (induction a b rule: gcd_u32.induct)
  case (1 a b)
  then show ?case
    by (subst gcd_u32.simps) (auto simp: unat_mod_distrib gcd_red_nat [of "unat a"] gcd.commute)
qed

lemma reduce_gcd_correct:
  "reduce_gcd ws = Some d \<longleftrightarrow> ws \<noteq> [] \<and> unat d = Gcd (set (map unat ws))"
proof (cases ws)
  case (Cons w ws')
  have "unat (fold (\<lambda>x acc. gcd_u32 acc x) xs a) = Gcd (insert (unat a) (set (map unat xs)))" for xs a
    by (induction xs arbitrary: a)
      (simp_all add: gcd_u32_correct gcd.left_commute gcd.assoc gcd.commute)
  then show ?thesis by (auto simp: Cons word_unat_eq_iff)
qed simp

section \<open>The inner loop is an argmax of the credited deficits\<close>

lemma credit_prefix:
  assumes "length d = length ws" "n \<le> length ws" "0 < n"
  shows "\<exists>best<n. fold (credit ws) [0..<n] (d, 0) =
           (map (\<lambda>i. d ! i + (if i < n then ws ! i else 0)) [0..<length ws], best) \<and>
           (\<forall>i<n. d ! i + ws ! i \<le> d ! best + ws ! best)"
  using assms(2,3)
proof (induction n)
  case (Suc n)
  let ?m = "\<lambda>k. map (\<lambda>i. d ! i + (if i < k then ws ! i else 0)) [0..<length ws]"
  have upd: "(?m n)[n := ?m n ! n + ws ! n] = ?m (Suc n)"
    using Suc.prems by (intro nth_equalityI) (auto simp: nth_list_update less_Suc_eq)
  show ?case
  proof (cases "n = 0")
    case True
    have "?m 0 = d" using assms(1) by (intro nth_equalityI) auto
    then show ?thesis using upd True Suc.prems
      by (intro exI [of _ 0]) (simp add: credit_def Let_def)
  next
    case False
    then obtain best where b: "best < n" "fold (credit ws) [0..<n] (d, 0) = (?m n, best)"
      "\<forall>i<n. d ! i + ws ! i \<le> d ! best + ws ! best" using Suc by auto
    let ?b = "if d ! n + ws ! n > d ! best + ws ! best then n else best"
    have "fold (credit ws) [0..<Suc n] (d, 0) = (?m (Suc n), ?b)"
      using b(1,2) Suc.prems upd by (simp add: credit_def Let_def)
    moreover have "?b < Suc n" "\<forall>i<Suc n. d ! i + ws ! i \<le> d ! ?b + ws ! ?b"
      using b(1,3) by (auto simp: less_Suc_eq)
    ultimately show ?thesis by blast
  qed
qed simp

lemma sched_step_spec:
  assumes "length d = length ws" "ws \<noteq> []"
  shows "\<exists>best<length ws. sched_step ws d =
     (map (\<lambda>i. d ! i + ws ! i - (if i = best then sum_list ws else 0)) [0..<length ws], best) \<and>
     (\<forall>i<length ws. d ! i + ws ! i \<le> d ! best + ws ! best)"
proof -
  obtain best where b: "best < length ws" "fold (credit ws) [0..<length ws] (d, 0) =
      (map (\<lambda>i. d ! i + (if i < length ws then ws ! i else 0)) [0..<length ws], best)"
    "\<forall>i<length ws. d ! i + ws ! i \<le> d ! best + ws ! best"
    using credit_prefix [OF assms(1) order_refl] assms(2) by auto
  have "sched_step ws d =
     (map (\<lambda>i. d ! i + ws ! i - (if i = best then sum_list ws else 0)) [0..<length ws], best)"
    unfolding sched_step_def b(2) using b(1)
    by (auto intro!: nth_equalityI simp: nth_list_update)
  then show ?thesis using b by blast
qed

section \<open>The deficits stay balanced\<close>

text \<open>Deficits sum to zero and each is above minus the total.\<close>

definition balanced :: "int list \<Rightarrow> int list \<Rightarrow> bool" where
  "balanced ws d \<longleftrightarrow> length d = length ws \<and> (\<Sum>i<length ws. d ! i) = 0 \<and>
     (\<forall>i<length ws. - sum_list ws < d ! i)"

lemma sched_step_balanced:
  assumes "balanced ws d" "0 < sum_list ws" "\<forall>w \<in> set ws. 0 \<le> w"
  shows "\<exists>d' best. sched_step ws d = (d', best) \<and> best < length ws \<and> balanced ws d' \<and>
     (\<forall>i<length ws. d' ! i = d ! i + ws ! i - (if i = best then sum_list ws else 0))"
proof -
  let ?n = "length ws" and ?W = "sum_list ws"
  have ne: "ws \<noteq> []" using assms(2) by auto
  have len: "length d = ?n" using assms(1) by (simp add: balanced_def)
  obtain best where b: "best < ?n" "sched_step ws d =
      (map (\<lambda>i. d ! i + ws ! i - (if i = best then ?W else 0)) [0..<?n], best)"
    "\<forall>i<?n. d ! i + ws ! i \<le> d ! best + ws ! best"
    using sched_step_spec [OF len ne] by blast
  let ?d = "map (\<lambda>i. d ! i + ws ! i - (if i = best then ?W else 0)) [0..<?n]"
  have W: "(\<Sum>i<?n. ws ! i) = ?W" by (simp add: sum_list_sum_nth lessThan_atLeast0)
  have credited: "(\<Sum>i<?n. d ! i + ws ! i) = ?W"
    using assms(1) W by (simp add: balanced_def sum.distrib)
  have pos: "0 < d ! best + ws ! best"
  proof (rule ccontr)
    assume "\<not> 0 < d ! best + ws ! best"
    then have "(\<Sum>i<?n. d ! i + ws ! i) \<le> (\<Sum>i<?n. 0)"
      using b(3) by (intro sum_mono) force
    then show False using credited assms(2) by simp
  qed
  have "(\<Sum>i<?n. ?d ! i) = (\<Sum>i<?n. d ! i + ws ! i - (if i = best then ?W else 0))"
    by (intro sum.cong) simp_all
  also have "\<dots> = ?W - ?W" using credited b(1) by (simp add: sum_subtractf)
  finally have "(\<Sum>i<?n. ?d ! i) = 0" by simp
  moreover have "- ?W < ?d ! i" if "i < ?n" for i
  proof -
    have "- ?W < d ! i" "0 \<le> ws ! i" using that assms(1,3) by (simp_all add: balanced_def)
    then show ?thesis using that pos by auto
  qed
  ultimately have "balanced ws ?d" by (simp add: balanced_def)
  then show ?thesis using b by (intro exI [of _ ?d] exI [of _ best]) simp
qed

lemma sched_loop_spec:
  assumes "balanced ws d" "0 < sum_list ws" "\<forall>w \<in> set ws. 0 \<le> w"
  shows "length (sched_loop ws k d) = k \<and> (\<forall>x \<in> set (sched_loop ws k d). x < length ws) \<and>
     (\<exists>d'. balanced ws d' \<and> (\<forall>i<length ws. d' ! i =
        d ! i + int k * ws ! i - sum_list ws * int (count_list (sched_loop ws k d) i)))"
  using assms(1)
proof (induction k arbitrary: d)
  case (Suc k)
  obtain d1 best where st: "sched_step ws d = (d1, best)" "best < length ws" "balanced ws d1"
    "\<forall>i<length ws. d1 ! i = d ! i + ws ! i - (if i = best then sum_list ws else 0)"
    using sched_step_balanced [OF Suc.prems assms(2,3)] by blast
  obtain d' where d': "balanced ws d'" "\<forall>i<length ws. d' ! i =
      d1 ! i + int k * ws ! i - sum_list ws * int (count_list (sched_loop ws k d1) i)"
    using Suc.IH [OF st(3)] by blast
  have "\<forall>i<length ws. d' ! i = d ! i + int (Suc k) * ws ! i -
      sum_list ws * int (count_list (sched_loop ws (Suc k) d) i)"
    using d'(2) st by (auto simp: algebra_simps)
  with d'(1) Suc.IH [OF st(3)] st(1,2) show ?case by auto
qed auto

lemma take_sched_loop: "k \<le> m \<Longrightarrow> take k (sched_loop ws m d) = sched_loop ws k d"
  by (induction ws m d arbitrary: k rule: sched_loop.induct)
    (auto simp: take_Cons split: prod.split nat.split)

lemma balanced_start: "0 < sum_list ws \<Longrightarrow> balanced ws (replicate (length ws) 0)"
  by (simp add: balanced_def)

lemma count_le_sum_eq:
  fixes c w :: "nat \<Rightarrow> nat"
  assumes "\<forall>i<n. c i \<le> w i" "(\<Sum>i<n. c i) = (\<Sum>i<n. w i)" "i < n"
  shows "c i = w i"
proof (rule ccontr)
  assume "c i \<noteq> w i"
  then have "c i < w i" using assms(1,3) by (simp add: le_neq_implies_less)
  then have "(\<Sum>i<n. c i) < (\<Sum>i<n. w i)" using assms(1,3) by (intro sum_strict_mono_ex1) auto
  then show False using assms(2) by simp
qed

lemma sum_count_list: "\<forall>x \<in> set xs. x < n \<Longrightarrow> (\<Sum>i<n. count_list xs i) = length xs" for n :: nat
proof (induction xs)
  case (Cons x xs)
  have "(\<Sum>i<n. count_list (x # xs) i) = (\<Sum>i<n. count_list xs i + (if i = x then 1 else 0))"
    by (intro sum.cong) auto
  also have "\<dots> = (\<Sum>i<n. count_list xs i) + (\<Sum>i<n. if i = x then 1 else 0)" by (rule sum.distrib)
  also have "(\<Sum>i<n. if i = x then 1 else 0) = (1 :: nat)" 
    using sum.delta [of "{..<n}" x "\<lambda>_. 1 :: nat"] Cons.prems by simp
  finally show ?case using Cons by simp
qed simp

lemma schedule_counts:
  fixes ws :: "int list"
  defines "xs \<equiv> sched_loop ws (nat (sum_list ws)) (replicate (length ws) 0)"
  assumes "0 < sum_list ws" "\<forall>w \<in> set ws. 0 \<le> w" "i < length ws"
  shows "int (count_list xs i) = ws ! i"
    and "int (count_list (take k xs) i) * sum_list ws < int k * ws ! i + sum_list ws"
proof -
  let ?W = "sum_list ws" and ?n = "length ws"
  note spec = sched_loop_spec [OF balanced_start [OF assms(2)] assms(2,3)]
  have over: "int (count_list (sched_loop ws k (replicate ?n 0)) j) * ?W < int k * ws ! j + ?W"
    if "j < ?n" for j k
    using spec [of k] that by (auto simp: balanced_def algebra_simps) (smt (verit) mult.commute)
  show "int (count_list (take k xs) i) * ?W < int k * ws ! i + ?W"
  proof (cases "k \<le> nat ?W")
    case True
    then show ?thesis using over [OF assms(4), of k] by (simp add: xs_def take_sched_loop)
  next
    case False
    then have "take k xs = xs" using spec [of "nat ?W"] by (simp add: xs_def)
    moreover have "int (nat ?W) * ws ! i \<le> int k * ws ! i"
      using False assms(3,4) by (intro mult_right_mono) auto
    ultimately show ?thesis using over [OF assms(4), of "nat ?W"] by (simp add: xs_def)
  qed
  have le: "count_list xs j \<le> nat (ws ! j)" if "j < ?n" for j
  proof -
    have "int (count_list xs j) * ?W < (ws ! j + 1) * ?W"
      using over [OF that, of "nat ?W"] assms(2) by (simp add: xs_def algebra_simps)
    then show ?thesis using assms(2) by (simp add: mult_less_cancel_right)
  qed
  have "(\<Sum>j<?n. count_list xs j) = nat ?W"
    using sum_count_list [of xs ?n] spec [of "nat ?W"] by (simp add: xs_def)
  also have "\<dots> = (\<Sum>j<?n. nat (ws ! j))"
  proof -
    have "int (\<Sum>j<?n. nat (ws ! j)) = (\<Sum>j<?n. ws ! j)"
      unfolding of_nat_sum using assms(3) by (intro sum.cong) auto
    also have "\<dots> = ?W" by (simp add: sum_list_sum_nth lessThan_atLeast0)
    finally show ?thesis by linarith
  qed
  finally have "count_list xs i = nat (ws ! i)"
    using count_le_sum_eq [of ?n "count_list xs" "\<lambda>j. nat (ws ! j)" i] le assms(4) by simp
  then show "int (count_list xs i) = ws ! i" using assms(3,4) by simp
qed

section \<open>The compiled split and its picks\<close>

lemma u16_index: "n \<le> 65536 \<Longrightarrow> i < n \<Longrightarrow> unat (of_nat i :: u16) = i"
  by (simp add: unat_of_nat)

lemma count_of_nat_u16:
  assumes "\<forall>x \<in> set xs. x < n" "n \<le> 65536" "i < n"
  shows "count_list (map of_nat xs :: u16 list) (of_nat i) = count_list xs i"
  using assms(1) u16_index [OF assms(2)] assms(3) by (induction xs) (auto, metis)

text \<open>What validation establishes about the reduced weights.\<close>

lemma validate_split_Inr:
  assumes "validate_split weights = Inr tot"
  obtains d where "reduce_gcd (filter (\<lambda>w. w > 0) weights) = Some d" "d > 0"
    "tot = sum_list (map (\<lambda>w. unat (w div d)) weights)" "tot \<le> MAX_TABLE_LEN"
    "\<forall>w \<in> set weights. w \<le> MAX_BACKEND_WEIGHT" "\<forall>w \<in> set weights. d * (w div d) = w"
proof -
  obtain d where d: "reduce_gcd (filter (\<lambda>w. w > 0) weights) = Some d"
    "tot = sum_list (map (\<lambda>w. unat (w div d)) weights)" "tot \<le> MAX_TABLE_LEN"
    "find (\<lambda>w. w > MAX_BACKEND_WEIGHT) weights = None"
    using assms by (auto simp: validate_split_def Let_def split: if_splits option.splits)
  let ?nz = "filter (\<lambda>w. w > 0) weights"
  have g: "?nz \<noteq> []" "unat d = Gcd (set (map unat ?nz))" using d(1) reduce_gcd_correct by auto
  have "d \<noteq> 0"
  proof
    assume "d = 0"
    then have "Gcd (set (map unat ?nz)) = 0" using g(2) by simp
    then have "\<forall>w \<in> set ?nz. unat w = 0" by (auto simp: Gcd_0_iff)
    then show False using g(1) by (auto simp: unat_eq_zero filter_empty_conv)
  qed
  then have dp: "d > 0" by (simp add: word_neq_0_conv)
  have "d * (w div d) = w" if "w \<in> set weights" for w
  proof (cases "w = 0")
    case False
    then have "unat w \<in> set (map unat ?nz)" using that by (auto simp: word_neq_0_conv)
    then have "unat d dvd unat w" using g(2) by (simp add: Gcd_dvd)
    then have "w mod d = 0" by (simp add: word_unat_eq_iff unat_mod_distrib)
    then show ?thesis by (metis add.right_neutral mult.commute div_mult_mod_eq)
  qed simp
  moreover have "\<forall>w \<in> set weights. w \<le> MAX_BACKEND_WEIGHT"
    using d(4) by (auto simp: find_None_iff not_less)
  ultimately show ?thesis using that d dp by blast
qed

lemma sum_uint: "sum_list (map uint xs) = int (sum_list (map unat xs))"
  by (induction xs) auto

lemma length_le_sum: "\<forall>w \<in> set ws. (1 :: int) \<le> w \<Longrightarrow> int (length ws) \<le> sum_list ws"
  by (induction ws) force+

lemma exact_div:
  fixes d w :: "'a::len word"
  assumes "d * (w div d) = w"
  shows "unat d * unat (w div d) = unat w"
proof -
  have "unat d * (unat w div unat d) \<le> unat w" by simp
  also have "\<dots> < 2 ^ LENGTH('a)" by (rule unsigned_less)
  finally have "unat (d * (w div d)) = unat d * unat (w div d)"
    by (simp add: unat_div_distrib unat_word_ariths)
  then show ?thesis using assms by simp
qed

lemma sum_filter_pos:
  "sum_list (map (\<lambda>w. unat (w div d)) (filter (\<lambda>w. w > 0) ws)) = sum_list (map (\<lambda>w. unat (w div d)) ws)"
  by (induction ws) (auto simp: word_gt_0)

text \<open>The schedule of reduced weights, as a table of \<open>u16\<close> indices.\<close>

lemma schedule_table:
  fixes red :: "u32 list"
  assumes "red \<noteq> []" "\<forall>w \<in> set red. w \<noteq> 0" "sum_list (map unat red) \<le> MAX_TABLE_LEN"
  shows "length (weighted_schedule red) = sum_list (map unat red)"
    and "length red \<le> 65536"
    and "\<forall>x \<in> set (weighted_schedule red). unat x < length red"
    and "i < length red \<Longrightarrow> count_list (weighted_schedule red) (of_nat i) = unat (red ! i)"
    and "i < length red \<Longrightarrow> count_list (take k (weighted_schedule red)) (of_nat i)
           * sum_list (map unat red) < k * unat (red ! i) + sum_list (map unat red)"
proof -
  let ?ws = "map uint red" and ?T = "sum_list (map unat red)"
  have pos: "1 \<le> w" if "w \<in> set ?ws" for w
  proof -
    have "w \<noteq> 0" using that assms(2) by (auto simp: uint_0_iff)
    moreover have "0 \<le> w" using that by auto
    ultimately show ?thesis by linarith
  qed
  have sum: "sum_list ?ws = int ?T" by (rule sum_uint)
  have "int (length ?ws) \<le> sum_list ?ws" by (rule length_le_sum) (use pos in blast)
  then have len: "length red \<le> ?T" using sum by simp
  then show n: "length red \<le> 65536" using assms(3) by (simp add: MAX_TABLE_LEN_def)
  have "0 < length red" using assms(1) by simp
  then have W: "0 < sum_list ?ws" unfolding sum using len by linarith
  have nonneg: "\<forall>w \<in> set ?ws. 0 \<le> w" using pos by force
  define xs where "xs = sched_loop ?ws (nat (sum_list ?ws)) (replicate (length ?ws) 0)"
  have xs: "length xs = ?T" "\<forall>x \<in> set xs. x < length red"
    using sched_loop_spec [OF balanced_start [OF W] W nonneg, of "nat (sum_list ?ws)"] sum
    by (simp_all add: xs_def)
  have tab: "weighted_schedule red = map of_nat xs"
    by (simp add: weighted_schedule_def xs_def Let_def)
  show "length (weighted_schedule red) = ?T" by (simp add: tab xs)
  show "\<forall>x \<in> set (weighted_schedule red). unat x < length red"
    using xs(2) u16_index [OF n] by (auto simp: tab)
  have cnt: "count_list (take k (weighted_schedule red)) (of_nat i) = count_list (take k xs) i"
    if "i < length red" for i k
  proof -
    have "\<forall>x \<in> set (take k xs). x < length red" using xs(2) by (meson in_set_takeD)
    from count_of_nat_u16 [OF this n that] show ?thesis by (simp add: tab take_map)
  qed
  note sc = schedule_counts [OF W nonneg, folded xs_def, unfolded length_map, of i]
  show "count_list (weighted_schedule red) (of_nat i) = unat (red ! i)" if "i < length red"
  proof -
    have "int (count_list xs i) = uint (red ! i)" using sc(1) [OF that] that by simp
    then have "count_list xs i = unat (red ! i)" by (metis nat_int nat_uint_eq)
    then show ?thesis using cnt [OF that, of "length xs"] by (simp add: tab)
  qed
  show "count_list (take k (weighted_schedule red)) (of_nat i) * ?T < k * unat (red ! i) + ?T"
    if "i < length red"
  proof -
    have "int (count_list (take k xs) i) * int ?T < int k * uint (red ! i) + int ?T"
      using sc(2) [OF that, of k] that sum by simp
    then have "int (count_list (take k xs) i * ?T) < int (k * unat (red ! i) + ?T)" by simp
    then show ?thesis unfolding cnt [OF that] by linarith
  qed
qed

text \<open>What the constructor establishes: every kept group owns a share of the table proportional to
  its weight, and the table never runs ahead of the exact proportion by a whole request.\<close>

lemma new_spec:
  assumes "WeightedBackends_new targets = Inr wb"
  defines "kept \<equiv> filter (\<lambda>(_, w). w > 0) targets"
  obtains d where "0 < d" "groups wb = map fst kept" "cursor wb = 0"
    "length kept \<le> 65536" "kept \<noteq> []"
    "\<forall>x \<in> set (table wb). unat x < length kept"
    "\<forall>i<length kept. count_list (table wb) (of_nat i) * d = unat (snd (kept ! i))"
    "\<forall>i<length kept. \<forall>k. count_list (take k (table wb)) (of_nat i) * d * length (table wb)
        < k * unat (snd (kept ! i)) + d * length (table wb)"
    "validate_split (map snd targets) = Inr (length (table wb))" "table wb \<noteq> []"
proof -
  let ?weights = "map snd targets"
  obtain tot where v: "validate_split ?weights = Inr tot"
    using assms(1) by (auto simp: WeightedBackends_new_def Let_def bind_res_Inr_iff)
  from validate_split_Inr [OF v] obtain d where d: "reduce_gcd (filter (\<lambda>w. w > 0) ?weights) = Some d"
    "d > 0" "tot = sum_list (map (\<lambda>w. unat (w div d)) ?weights)" "tot \<le> MAX_TABLE_LEN"
    "\<forall>w \<in> set ?weights. d * (w div d) = w" by metis
  have nz: "filter (\<lambda>w. w > 0) ?weights = map snd kept"
    by (simp add: kept_def filter_map comp_def case_prod_unfold)
  have "1 \<le> d" using d(2) by (simp add: word_le_nat_alt unat_gt_0 word_gt_0 Suc_le_eq)
  then have mx: "max d 1 = d" by (simp add: max_absorb1)
  define red where "red = map (\<lambda>w. w div d) (map snd kept)"
  have wb: "groups wb = map fst kept" "table wb = weighted_schedule red" "cursor wb = 0"
    using assms(1) v d(1) nz mx by (auto simp: WeightedBackends_new_def Let_def kept_def red_def)
  have dp: "0 < unat d" using d(2) by (simp add: unat_gt_0 word_gt_0)
  have mem: "w \<in> set ?weights \<and> w > 0" if "w \<in> set (map snd kept)" for w
    using that unfolding nz [symmetric] by simp
  have share: "unat (red ! i) * unat d = unat (snd (kept ! i))" if i: "i < length kept" for i
  proof -
    have "snd (kept ! i) \<in> set (map snd kept)" using nth_mem [OF i] by simp
    then have "d * (snd (kept ! i) div d) = snd (kept ! i)" using d(5) mem by blast
    from exact_div [OF this] show ?thesis using i by (simp add: red_def mult.commute)
  qed
  have ne: "kept \<noteq> []" using d(1) nz by (cases kept) auto
  have "\<forall>w \<in> set red. w \<noteq> 0"
  proof
    fix r assume "r \<in> set red"
    then obtain w where w: "w \<in> set (map snd kept)" "r = w div d" by (auto simp: red_def)
    then show "r \<noteq> 0" using mem [OF w(1)] d(5) by fastforce
  qed
  moreover have sum: "sum_list (map unat red) = tot"
    using sum_filter_pos [of d ?weights] unfolding nz by (simp add: red_def d(3) comp_def)
  moreover have "red \<noteq> []" using ne by (simp add: red_def)
  ultimately have tab: "length (table wb) = tot" "length kept \<le> 65536"
    "\<forall>x \<in> set (table wb). unat x < length kept"
    "\<And>i. i < length kept \<Longrightarrow> count_list (table wb) (of_nat i) = unat (red ! i)"
    "\<And>i k. i < length kept \<Longrightarrow>
       count_list (take k (table wb)) (of_nat i) * tot < k * unat (red ! i) + tot"
    using schedule_table [of red] d(4) unfolding wb by (simp_all add: red_def)
  have "0 < tot"
  proof -
    have "0 < length kept" using ne by simp
    then show ?thesis using tab(5) [of 0 0] by simp
  qed
  have over: "count_list (take k (table wb)) (of_nat i) * unat d * length (table wb)
        < k * unat (snd (kept ! i)) + unat d * length (table wb)" if i: "i < length kept" for i k
  proof -
    have "count_list (take k (table wb)) (of_nat i) * tot * unat d < (k * unat (red ! i) + tot) * unat d"
      using tab(5) [OF i, of k] dp by simp
    also have "\<dots> = k * (unat (red ! i) * unat d) + unat d * tot" by (simp add: algebra_simps)
    finally show ?thesis unfolding share [OF i] tab(1) by (simp add: ac_simps)
  qed
  show ?thesis
    by (rule that [of "unat d"])
      (use dp wb tab ne v share over \<open>0 < tot\<close> in auto)
qed

lemma new_table:
  assumes "WeightedBackends_new targets = Inr wb"
  shows "table wb \<noteq> []" "\<forall>x \<in> set (table wb). unat x < length (groups wb)"
    "validate_split (map snd targets) = Inr (length (table wb))"
  by (rule new_spec [OF assms], simp)+

fun picks :: "('g \<Rightarrow> bool) \<Rightarrow> nat \<Rightarrow> 'g WeightedBackends \<Rightarrow> 'g option list" where
  "picks e 0 wb = []"
| "picks e (Suc k) wb = (let (wb', r) = wb_pick e wb in r # picks e k wb')"

lemma scan_table_spec:
  "scan_table e wb start offs =
     map_option (\<lambda>off. groups wb ! unat (table wb ! ((start + off) mod length (table wb))))
       (find (\<lambda>off. e (groups wb ! unat (table wb ! ((start + off) mod length (table wb))))) offs)"
  by (induction offs) (auto simp: Let_def)

lemma table_covers:
  assumes "WeightedBackends_new targets = Inr wb" "i < length (groups wb)"
  shows "\<exists>j<length (table wb). unat (table wb ! j) = i"
proof -
  from new_spec [OF assms(1)] obtain d where d: "0 < d"
    "groups wb = map fst (filter (\<lambda>(_, w). w > 0) targets)"
    "length (filter (\<lambda>(_, w). w > 0) targets) \<le> 65536"
    "\<forall>i<length (filter (\<lambda>(_, w). w > 0) targets). count_list (table wb) (of_nat i) * d
        = unat (snd (filter (\<lambda>(_, w). w > 0) targets ! i))" by metis
  have "filter (\<lambda>(_, w). w > 0) targets ! i \<in> set (filter (\<lambda>(_, w). w > 0) targets)"
    using assms(2) d(2) by (intro nth_mem) simp
  then have "0 < unat (snd (filter (\<lambda>(_, w). w > 0) targets ! i))"
    by (auto simp: unat_gt_0 word_gt_0 case_prod_unfold)
  then have "count_list (table wb) (of_nat i) \<noteq> 0" using d(2,4) assms(2)
    by (metis length_map mult_0 not_less0)
  then have "of_nat i \<in> set (table wb)" by (simp add: count_list_0_iff)
  then show ?thesis using u16_index [OF d(3), of i] assms(2) d(2) by (metis in_set_conv_nth length_map)
qed

lemma pick_all_eligible:
  assumes "table wb \<noteq> []" "\<forall>g \<in> set (groups wb). e g"
    and "\<forall>x \<in> set (table wb). unat x < length (groups wb)"
  shows "wb_pick e wb = (wb\<lparr>cursor := cursor wb + 1\<rparr>,
           Some (groups wb ! unat (table wb ! (unat (cursor wb) mod length (table wb)))))"
proof -
  let ?L = "length (table wb)"
  have x: "unat (table wb ! (k mod ?L)) < length (groups wb)" for k
    using assms(1,3) by simp
  then have g: "e (groups wb ! unat (table wb ! (k mod ?L)))" for k using assms(2) by simp
  have "groups wb \<noteq> []" using x [of 0] by auto
  then have "list_ex e (groups wb)" using assms(2) by (auto simp: list_ex_iff neq_Nil_conv)
  moreover obtain k where "?L = Suc k" using assms(1) by (cases ?L) auto
  ultimately show ?thesis
    using g [of "unat (cursor wb)"] assms(1)
    by (simp add: wb_pick_def Let_def upt_conv_Cons del: upt_Suc)
qed

lemma picks_all_eligible:
  assumes "table wb \<noteq> []" "\<forall>g \<in> set (groups wb). e g"
    and "\<forall>x \<in> set (table wb). unat x < length (groups wb)" "unat (cursor wb) + k \<le> 2 ^ 64"
  shows "picks e k wb = map (\<lambda>j. Some (groups wb !
           unat (table wb ! ((unat (cursor wb) + j) mod length (table wb))))) [0..<k]"
  using assms
proof (induction k arbitrary: wb)
  case (Suc k)
  show ?case
  proof (cases "k = 0")
    case True
    then show ?thesis using pick_all_eligible [OF Suc.prems(1-3)] by simp
  next
    case False
    let ?wb = "wb\<lparr>cursor := cursor wb + 1\<rparr>"
    have c: "unat (cursor wb + 1) = unat (cursor wb) + 1"
      using Suc.prems(4) False by (simp add: unat_word_ariths)
    have "picks e k ?wb = map (\<lambda>j. Some (groups wb !
        unat (table wb ! ((unat (cursor wb) + Suc j) mod length (table wb))))) [0..<k]"
      using Suc.IH [of ?wb] Suc.prems c by simp
    also have "\<dots> = map (\<lambda>j. Some (groups wb !
        unat (table wb ! ((unat (cursor wb) + j) mod length (table wb))))) [1..<Suc k]"
      by (simp add: map_Suc_upt [symmetric] comp_def del: upt_Suc)
    finally show ?thesis
      using pick_all_eligible [OF Suc.prems(1-3)] by (simp add: upt_conv_Cons del: upt_Suc)
  qed
qed simp

lemma period_is_rotation:
  assumes "table wb \<noteq> []" "\<forall>g \<in> set (groups wb). e g"
    and "\<forall>x \<in> set (table wb). unat x < length (groups wb)"
    and "unat (cursor wb) + length (table wb) \<le> 2 ^ 64"
  shows "picks e (length (table wb)) wb =
           map (\<lambda>x. Some (groups wb ! unat x)) (rotate (unat (cursor wb)) (table wb))"
  unfolding picks_all_eligible [OF assms] rotate_conv_map by simp

section \<open>Properties\<close>

text \<open>C40: the split is exact. For every accepted configuration of distinct backends, whatever the
  cursor, while all backends are healthy any period of consecutive requests (one table length,
  with no wrap of the cursor) sends each backend a number of requests exactly proportional to its
  weight; a drained backend (weight 0) gets none.\<close>

theorem weighted_split_exact:
  assumes "WeightedBackends_new targets = Inr wb" "distinct (map fst targets)"
    and "\<forall>g \<in> set (groups wb). e g" "unat c + length (table wb) \<le> 2 ^ 64"
  shows "\<exists>d>0. \<forall>(g, w) \<in> set targets.
           count_list (picks e (length (table wb)) (wb\<lparr>cursor := c\<rparr>)) (Some g) * d = unat w"
proof -
  let ?kept = "filter (\<lambda>(_, w). w > 0) targets"
  from new_spec [OF assms(1)] obtain d where d: "0 < d" "groups wb = map fst ?kept"
    "length ?kept \<le> 65536" "\<forall>x \<in> set (table wb). unat x < length ?kept"
    "\<forall>i<length ?kept. count_list (table wb) (of_nat i) * d = unat (snd (?kept ! i))"
    "table wb \<noteq> []" by metis
  let ?F = "\<lambda>x. Some (groups wb ! unat x)"
  have run: "picks e (length (table wb)) (wb\<lparr>cursor := c\<rparr>) = map ?F (rotate (unat c) (table wb))"
    using period_is_rotation [of "wb\<lparr>cursor := c\<rparr>" e] d assms(3,4) by simp
  have dist: "distinct (groups wb)"
    unfolding d(2) using assms(2) by (simp add: distinct_map_filter)
  have cnt: "count_list (map ?F (rotate (unat c) (table wb))) y = count_list (map ?F (table wb)) y" for y
    by (simp add: rotate_map [symmetric] count_list_rotate)
  have "count_list (picks e (length (table wb)) (wb\<lparr>cursor := c\<rparr>)) (Some g) * d = unat w"
    if gw: "(g, w) \<in> set targets" for g w
  proof (cases "w > 0")
    case True
    then have "(g, w) \<in> set ?kept" using gw by simp
    then obtain i where i: "i < length ?kept" "?kept ! i = (g, w)" by (metis in_set_conv_nth)
    have gi: "Some g = ?F (of_nat i :: u16)" using i u16_index [OF d(3) i(1)] d(2) by simp
    have "inj_on ?F (insert (of_nat i) (set (table wb)))"
    proof (rule inj_onI)
      fix x y assume xy: "x \<in> insert (of_nat i) (set (table wb))"
        "y \<in> insert (of_nat i) (set (table wb))" "?F x = ?F y"
      then have "unat x < length (groups wb)" "unat y < length (groups wb)"
        using d(2,4) i(1) u16_index [OF d(3) i(1)] by auto
      then show "x = y" using xy(3) dist by (simp add: nth_eq_iff_index_eq word_unat_eq_iff)
    qed
    from count_list_map_inj [OF this] show ?thesis
      using d(5) i by (simp only: run cnt gi) simp
  next
    case False
    have "g \<notin> set (groups wb)"
    proof
      assume "g \<in> set (groups wb)"
      then obtain w' where "(g, w') \<in> set targets" "w' > 0" using d(2) by auto
      then show False using gw assms(2) False by (metis eq_key_imp_eq_value)
    qed
    then have "Some g \<notin> set (map ?F (table wb))" 
      using new_table(2) [OF assms(1)] by (auto dest: nth_mem)
    then show ?thesis using False by (simp only: run cnt) (simp add: count_list_0_iff word_gt_0)
  qed
  then show ?thesis using d(1) by blast
qed

theorem weighted_split_exact_witness:
  "\<exists>wb d. WeightedBackends_new [(''stable'', 95), (''canary'', 5)] = Inr wb \<and> 0 < d \<and>
     count_list (picks (\<lambda>_. True) (length (table wb)) (wb\<lparr>cursor := 7\<rparr>)) (Some ''canary'') * d = 5"
proof -
  have g: "gcd_u32 95 5 = 5"
    by (subst gcd_u32.simps, subst gcd_u32.simps) simp
  have v: "validate_split [95, 5] = Inr 20"
    by (simp add: validate_split_def MAX_BACKEND_WEIGHT_def MAX_TABLE_LEN_def g)
  then obtain wb where wb: "WeightedBackends_new [(''stable'', 95), (''canary'', 5)] = Inr wb"
    by (auto simp: WeightedBackends_new_def Let_def)
  have "length (table wb) = 20"
    using new_table(3) [OF wb] v by simp
  then show ?thesis
    using weighted_split_exact [OF wb, of "\<lambda>_. True" 7] wb by auto
qed

text \<open>a pick fails exactly when nothing is eligible. For a split built by the constructor and any
  cursor, the pick returns no group exactly when no group has an eligible instance, and a group it
  returns is one of the split and has one; the scan gives the first eligible group at or after the
  cursor's slot in table order.\<close>

theorem weighted_pick_sound:
  assumes "WeightedBackends_new targets = Inr wb"
  shows "(snd (wb_pick e (wb\<lparr>cursor := c\<rparr>)) = None \<longleftrightarrow> (\<forall>g \<in> set (groups wb). \<not> e g)) \<and>
    (snd (wb_pick e (wb\<lparr>cursor := c\<rparr>)) = Some g \<longrightarrow> e g \<and> g \<in> set (groups wb) \<and>
       (\<exists>off. groups wb ! unat (table wb ! ((unat c + off) mod length (table wb))) = g \<and>
          (\<forall>j<off. \<not> e (groups wb ! unat (table wb ! ((unat c + j) mod length (table wb)))))))"
proof -
  let ?L = "length (table wb)"
  let ?G = "\<lambda>k. groups wb ! unat (table wb ! (k mod ?L))"
  note tab = new_table(1,2) [OF assms]
  have memb: "?G k \<in> set (groups wb)" for k using tab by simp
  have "\<exists>off<?L. e (?G (unat c + off))" if g': "g' \<in> set (groups wb)" "e g'" for g'
  proof -
    obtain i where "i < length (groups wb)" "groups wb ! i = g'" using g'(1) by (metis in_set_conv_nth)
    then obtain j where j: "j < ?L" "?G j = g'" using table_covers [OF assms, of i] by fastforce
    let ?off = "(j + ?L - unat c mod ?L) mod ?L"
    have "(unat c + ?off) mod ?L = (unat c mod ?L + (j + ?L - unat c mod ?L)) mod ?L"
      by (metis mod_add_left_eq mod_add_right_eq)
    also have "unat c mod ?L + (j + ?L - unat c mod ?L) = j + ?L"
      using tab(1) by (simp add: less_imp_le trans_le_add2)
    finally have "(unat c + ?off) mod ?L = j" using j(1) by simp
    moreover have "?off < ?L" using tab(1) by simp
    ultimately show ?thesis using j(2) g'(2) j(1) by (intro exI [of _ ?off]) simp
  qed
  then have None: "find (\<lambda>off. e (?G (unat c + off))) [0..<?L] = None \<longleftrightarrow> (\<forall>g \<in> set (groups wb). \<not> e g)"
    using memb by (fastforce simp: find_None_iff)
  have pick: "snd (wb_pick e (wb\<lparr>cursor := c\<rparr>)) =
      map_option (\<lambda>off. ?G (unat c + off)) (find (\<lambda>off. e (?G (unat c + off))) [0..<?L])"
    using None tab(1)
    by (auto simp: wb_pick_def Let_def scan_table_spec list_ex_iff mod_add_left_eq)
  have "e g \<and> g \<in> set (groups wb) \<and> (\<exists>off. ?G (unat c + off) = g \<and> (\<forall>j<off. \<not> e (?G (unat c + j))))"
    if "snd (wb_pick e (wb\<lparr>cursor := c\<rparr>)) = Some g"
    using that memb unfolding pick by (auto simp: find_Some_iff)
  then show ?thesis using None unfolding pick by simp
qed

theorem weighted_pick_sound_witness:
  "\<exists>wb. WeightedBackends_new [(''a'', 1)] = Inr wb \<and>
     snd (wb_pick (\<lambda>_. False) (wb\<lparr>cursor := 3\<rparr>)) = None"
proof -
  have "validate_split [1] = Inr 1"
    by (simp add: validate_split_def MAX_BACKEND_WEIGHT_def MAX_TABLE_LEN_def word_le_nat_alt)
  then obtain wb where wb: "WeightedBackends_new [(''a'', 1)] = Inr wb"
    by (auto simp: WeightedBackends_new_def Let_def)
  then show ?thesis using weighted_pick_sound [OF wb, of "\<lambda>_. False" 3] by auto
qed

text \<open>how far the table can stray from exact proportion. No backend is ever a whole request ahead
  of its ideal share, at any point of the table. It may fall more than a whole request behind:
  with the weights 1, 1, 1, 5, 5, 5 there is a point where a backend is owed more than one request.\<close>

theorem weighted_never_ahead:
  assumes "WeightedBackends_new targets = Inr wb"
  shows "(\<exists>d>0. \<forall>i<length (groups wb). \<forall>k.
      count_list (take k (table wb)) (of_nat i) * d * length (table wb)
        < k * unat (snd (filter (\<lambda>(_, w). w > 0) targets ! i)) + d * length (table wb)) \<and>
    (\<exists>i k. let ws = [1, 1, 1, 5, 5, 5] :: u32 list in
       k * unat (ws ! i) > (count_list (take k (weighted_schedule ws)) (of_nat i) + 1)
                           * length (weighted_schedule ws))"
proof
  show "\<exists>d>0. \<forall>i<length (groups wb). \<forall>k.
      count_list (take k (table wb)) (of_nat i) * d * length (table wb)
        < k * unat (snd (filter (\<lambda>(_, w). w > 0) targets ! i)) + d * length (table wb)"
    by (rule new_spec [OF assms]) auto
  have "sched_loop [1, 1, 1, 5, 5, 5] 18 [0, 0, 0, 0, 0, 0]
      = [3, 4, 5, 0, 3, 4, 5, 1, 2, 3, 4, 5, 3, 4, 5, 3, 4, 5]" by code_simp
  then have "weighted_schedule [1, 1, 1, 5, 5, 5]
      = [3, 4, 5, 0, 3, 4, 5, 1, 2, 3, 4, 5, 3, 4, 5, 3, 4, 5]"
    by (simp add: weighted_schedule_def)
  then show "\<exists>i k. let ws = [1, 1, 1, 5, 5, 5] :: u32 list in
       k * unat (ws ! i) > (count_list (take k (weighted_schedule ws)) (of_nat i) + 1)
                           * length (weighted_schedule ws)"
    by (intro exI [of _ 5] exI [of _ 11]) simp
qed

theorem weighted_never_ahead_witness:
  "\<exists>wb. WeightedBackends_new [(''a'', 1)] = Inr wb \<and>
     (\<exists>d>0. \<forall>i<length (groups wb). \<forall>k.
        count_list (take k (table wb)) (of_nat i) * d * length (table wb) <
          k * unat (snd (filter (\<lambda>(_, w). w > 0) [(''a'', 1 :: u32)] ! i)) + d * length (table wb))"
proof -
  have "validate_split [1] = Inr 1"
    by (simp add: validate_split_def MAX_BACKEND_WEIGHT_def MAX_TABLE_LEN_def word_le_nat_alt)
  then obtain wb where wb: "WeightedBackends_new [(''a'', 1)] = Inr wb"
    by (auto simp: WeightedBackends_new_def Let_def)
  from weighted_never_ahead [OF this] show ?thesis using wb by blast
qed

end
