(* ===== verification/Manifest.thy ===== *)
theory Manifest
  imports Maglev HostBackend Weighted
begin

text \<open>
  The declarative manifest, \<open>control/src/manifest\<close>: its records and enumerations, the build-time
  validation of upstreams and filters, and the typed errors of the control plane. Strings are
  lists of characters; a \<open>BTreeMap\<close> is its list of entries in key order; the human-readable reason
  of an error is a constructor of a reason type. Parsing TOML is the business of the toml crate.
\<close>

section \<open>Sections of the manifest\<close>

record Observability =
  admin_addr :: "string option"
  access_log :: bool

record TlsCert =
  tls_host :: "string option"
  cert_path :: string
  key_path :: string

datatype LbAlgorithm = RoundRobin | LeastRequest | Maglev

record WeightedAddress =
  wa_address :: string
  wa_weight :: u32

datatype AddressSpec = Bare string | Weighted WeightedAddress

definition default_instance_weight :: u32 where "default_instance_weight = 1"

fun spec_address :: "AddressSpec \<Rightarrow> string" where
  "spec_address (Bare a) = a"
| "spec_address (Weighted w) = wa_address w"

fun spec_weight :: "AddressSpec \<Rightarrow> u32" where
  "spec_weight (Bare a) = default_instance_weight"
| "spec_weight (Weighted w) = wa_weight w"

text \<open>The canonical form that is serialised for the content hash.\<close>

fun spec_serialize :: "AddressSpec \<Rightarrow> string + WeightedAddress" where
  "spec_serialize (Bare a) = Inl a"
| "spec_serialize (Weighted w) =
     (if wa_weight w = default_instance_weight then Inl (wa_address w) else Inr w)"

definition MAX_INSTANCE_WEIGHT :: u32 where "MAX_INSTANCE_WEIGHT = 1000"

datatype HashKeyKind = HeaderKey | SourceIpKey

record HashConfig =
  hash_key_kind :: HashKeyKind
  hash_header :: "string option"
  table_size :: u32

definition default_hash_table_size :: u32 where "default_hash_table_size = 65537"
definition MAX_HASH_TABLE_SIZE :: u32 where "MAX_HASH_TABLE_SIZE = 5000011"

record OutlierDetection =
  consecutive_gateway_failures :: u32
  base_ejection_time_ms :: u64
  max_ejection_percent :: u32

definition OutlierDetection_default :: OutlierDetection where
  "OutlierDetection_default = \<lparr>consecutive_gateway_failures = 0,
     base_ejection_time_ms = 30000, max_ejection_percent = 10\<rparr>"

record CircuitBreaker =
  cb_max_requests :: u32

record HealthConfig =
  health_path :: string
  interval_ms :: u64
  timeout_ms :: u64
  healthy_threshold :: u32
  unhealthy_threshold :: u32
  health_port :: "u16 option"

text \<open>The health policy of a section that gives only the path.\<close>

definition HealthConfig_default :: "string \<Rightarrow> HealthConfig" where
  "HealthConfig_default p = \<lparr>health_path = p, interval_ms = 2000, timeout_ms = 1000,
     healthy_threshold = 2, unhealthy_threshold = 3, health_port = None\<rparr>"

record Upstream =
  up_name :: string
  addresses :: "AddressSpec list"
  lb_algorithm :: LbAlgorithm
  up_hash :: "HashConfig option"
  up_health :: HealthConfig
  request_timeout_ms :: u64
  up_max_retries :: u64
  overall_timeout_ms :: u64
  circuit_breaker :: CircuitBreaker
  outlier_detection :: OutlierDetection

record RouteMatch =
  match_host :: "string option"
  match_path_prefix :: string
  match_method :: "string option"
  match_headers :: "(string \<times> string) list"
  match_query :: "(string \<times> string) list"

record Backend =
  be_upstream :: string
  be_weight :: u32

datatype RateLimitKeyKind = RouteKey | ClientIpKey

record RouteRateLimit =
  rl_rate :: u64
  rl_burst :: u64
  rl_key :: RateLimitKeyKind

record Route =
  matcher :: RouteMatch
  route_filters :: "string list"
  route_upstream :: "string option"
  route_backends :: "Backend list"
  route_strip_prefix :: "string option"
  route_rate_limit :: "RouteRateLimit option"

datatype TargetsError = BothTargets | NeitherTarget

definition route_targets :: "Route \<Rightarrow> TargetsError + (string \<times> u32) list" where
  "route_targets r =
     (case (route_upstream r, route_backends r) of
        (Some _, _ # _) \<Rightarrow> Inl BothTargets
      | (None, []) \<Rightarrow> Inl NeitherTarget
      | (Some nm, []) \<Rightarrow> Inr [(nm, 1)]
      | (None, bs) \<Rightarrow> Inr (map (\<lambda>b. (be_upstream b, be_weight b)) bs))"

record Trust =
  trust_keys :: "string list"

record RateLimitConfig =
  rlc_capacity :: u64
  rlc_refill_tokens :: u64
  rlc_refill_interval_ms :: u64

datatype SchemeKind = Https | Http

fun default_port :: "SchemeKind \<Rightarrow> u16" where
  "default_port Https = 443"
| "default_port Http = 80"

record AllowDest =
  dest_host :: string
  dest_port :: "u16 option"
  dest_scheme :: SchemeKind

record OutboundConfig =
  ob_allow :: "AllowDest list"
  ob_allow_private :: "string list"
  ob_connect_timeout_ms :: "u64 option"
  ob_total_timeout_ms :: "u64 option"
  ob_max_response_bytes :: "u64 option"
  ob_max_concurrent :: "u32 option"

datatype IsolationKind = Untrusted | Trusted

record FilterEntry =
  fe_id :: string
  fe_source :: string
  fe_digest :: string
  fe_isolation :: IsolationKind
  fe_init_deadline_ms :: "u64 option"
  fe_request_deadline_ms :: "u64 option"
  fe_max_memory_bytes :: "u64 option"
  fe_ratelimit :: "RateLimitConfig option"
  fe_outbound :: "OutboundConfig option"

record Chain =
  chain_filters :: "string list"

record Manifest =
  trust :: Trust
  m_filters :: "FilterEntry list"
  m_chain :: Chain
  m_upstreams :: "Upstream list"
  m_routes :: "Route list"
  m_tls :: "TlsCert list"
  observability :: Observability

section \<open>Errors of the control plane\<close>

datatype LbReason =
  InstanceWeightZero string
| InstanceWeightTooLarge string u32
| MaglevNeedsHash
| HashNeedsMaglev
| HeaderNameMissing
| TableSizeTooLarge u32
| TableSizeNotPrime u32
| TableSmallerThanPool u32 nat
| PoolTooLarge nat

datatype FilterReason =
  InitDeadlineZero
| RequestDeadlineZero
| MaxMemoryZero
| CapacityZero
| RefillIntervalZero
| OutboundNotBuilt
| OutboundAllowEmpty
| OutboundHostEmpty
| OutboundPortZero string
| OutboundBadCidr string
| ConnectTimeoutZero
| TotalTimeoutZero
| MaxResponseZero
| MaxConcurrentZero

datatype RouteReason = Targets TargetsError | Split SplitError

datatype RateReason = RateZero | BurstZero

datatype ControlError =
  ManifestParse string
| ManifestSerialize string
| NoManifestPath
| TrustChangeRequiresRestart
| Io string
| TrustKey string
| HostInit string
| Artifact string string
| DigestMismatch string string string
| Load string string
| InvalidFilterConfig string FilterReason
| UnknownChainFilter string
| DuplicateFilterId string
| DuplicateUpstream string
| EmptyUpstreamAddresses string
| UpstreamRegistryPoisoned
| InvalidUpstreamLb string LbReason
| UnknownRouteUpstream string string
| UnknownRouteFilter string string
| InvalidRoute string RouteReason
| InvalidRouteRateLimit string RateReason
| TlsCertError "string option" string string

section \<open>Validation\<close>

text \<open>\<open>str::trim\<close> on ASCII text.\<close>

definition is_ws :: "char \<Rightarrow> bool" where
  "is_ws c \<longleftrightarrow> (let n = of_char c :: nat in n = 32 \<or> 9 \<le> n \<and> n \<le> 13)"

definition trim_ws :: "string \<Rightarrow> string" where
  "trim_ws s = rev (dropWhile is_ws (rev (dropWhile is_ws s)))"

function prime_loop :: "nat \<Rightarrow> nat \<Rightarrow> bool" where
  "prime_loop n d = (if d * d \<le> n then (if n mod d = 0 then False else prime_loop n (d + 2)) else True)"
  by auto
termination
proof (relation "measure (\<lambda>(n, d). n + 2 - d)")
  fix n d :: nat
  assume "d * d \<le> n"
  then have "d \<le> n" by (cases d) (auto intro: order.trans)
  then show "((n, d + 2), (n, d)) \<in> measure (\<lambda>(n, d). n + 2 - d)" by simp
qed simp

declare prime_loop.simps [simp del]

definition is_prime :: "u32 \<Rightarrow> bool" where
  "is_prime n =
     (if n < 2 then False
      else if n mod 2 = 0 then n = 2
      else prime_loop (unat n) 3)"

fun check_weights :: "AddressSpec list \<Rightarrow> LbReason option" where
  "check_weights [] = None"
| "check_weights (a # as) =
     (if spec_weight a = 0 then Some (InstanceWeightZero (spec_address a))
      else if spec_weight a > MAX_INSTANCE_WEIGHT
      then Some (InstanceWeightTooLarge (spec_address a) (spec_weight a))
      else check_weights as)"

definition check_hash :: "HashConfig \<Rightarrow> nat \<Rightarrow> LbReason option" where
  "check_hash hash n =
     (if hash_key_kind hash = HeaderKey \<and>
         (case map_option trim_ws (hash_header hash) of None \<Rightarrow> [] | Some h \<Rightarrow> h) = []
      then Some HeaderNameMissing
      else
        let m = table_size hash in
        if m > MAX_HASH_TABLE_SIZE then Some (TableSizeTooLarge m)
        else if \<not> is_prime m then Some (TableSizeNotPrime m)
        else if n > unat m then Some (TableSmallerThanPool m n)
        else if n > 65535 then Some (PoolTooLarge n)
        else None)"

definition validate_lb :: "Upstream \<Rightarrow> LbReason + unit" where
  "validate_lb up =
     (case check_weights (addresses up) of
        Some e \<Rightarrow> Inl e
      | None \<Rightarrow>
          (case (lb_algorithm up, up_hash up) of
             (Maglev, None) \<Rightarrow> Inl MaglevNeedsHash
           | (algo, Some hash) \<Rightarrow>
               if algo \<noteq> Maglev then Inl HashNeedsMaglev
               else (case check_hash hash (length (addresses up)) of
                       Some e \<Rightarrow> Inl e | None \<Rightarrow> Inr ())
           | _ \<Rightarrow> Inr ()))"

text \<open>The checks of an outbound section. Whether the build has the \<open>outbound-http\<close> feature and
  whether a string is a CIDR of the ipnet crate are parameters.\<close>

fun check_dests :: "AllowDest list \<Rightarrow> FilterReason option" where
  "check_dests [] = None"
| "check_dests (d # ds) =
     (if trim_ws (dest_host d) = [] then Some OutboundHostEmpty
      else if dest_port d = Some 0 then Some (OutboundPortZero (dest_host d))
      else check_dests ds)"

definition validate_outbound ::
  "bool \<Rightarrow> (string \<Rightarrow> bool) \<Rightarrow> OutboundConfig \<Rightarrow> FilterReason option" where
  "validate_outbound feature is_cidr ob =
     (if \<not> feature then Some OutboundNotBuilt
      else if ob_allow ob = [] then Some OutboundAllowEmpty
      else case check_dests (ob_allow ob) of Some e \<Rightarrow> Some e | None \<Rightarrow>
      (case find (\<lambda>c. \<not> is_cidr c) (ob_allow_private ob) of
         Some c \<Rightarrow> Some (OutboundBadCidr c)
       | None \<Rightarrow>
           if ob_connect_timeout_ms ob = Some 0 then Some ConnectTimeoutZero
           else if ob_total_timeout_ms ob = Some 0 then Some TotalTimeoutZero
           else if ob_max_response_bytes ob = Some 0 then Some MaxResponseZero
           else if ob_max_concurrent ob = Some 0 then Some MaxConcurrentZero
           else None))"

definition check_ratelimit :: "RateLimitConfig \<Rightarrow> FilterReason option" where
  "check_ratelimit rl =
     (if rlc_capacity rl = 0 then Some CapacityZero
      else if rlc_refill_tokens rl > 0 \<and> rlc_refill_interval_ms rl = 0 then Some RefillIntervalZero
      else None)"

definition validate_filter ::
  "bool \<Rightarrow> (string \<Rightarrow> bool) \<Rightarrow> FilterEntry \<Rightarrow> ControlError + unit" where
  "validate_filter feature is_cidr fe =
     (let bad = (\<lambda>r. Inl (InvalidFilterConfig (fe_id fe) r)) in
      if fe_init_deadline_ms fe = Some 0 then bad InitDeadlineZero
      else if fe_request_deadline_ms fe = Some 0 then bad RequestDeadlineZero
      else if fe_max_memory_bytes fe = Some 0 then bad MaxMemoryZero
      else case Option.bind (fe_ratelimit fe) check_ratelimit of Some r \<Rightarrow> bad r | None \<Rightarrow>
      (case Option.bind (fe_outbound fe) (validate_outbound feature is_cidr) of
         Some r \<Rightarrow> bad r | None \<Rightarrow> Inr ()))"

section \<open>The primality test is correct\<close>

lemma prime_loop_correct:
  "odd n \<Longrightarrow> 1 < n \<Longrightarrow> 3 \<le> d \<Longrightarrow> odd d \<Longrightarrow> (\<forall>e. 1 < e \<and> e < d \<longrightarrow> \<not> e dvd n) \<Longrightarrow>
     prime_loop n d \<longleftrightarrow> prime_number n"
proof (induction n d rule: prime_loop.induct)
  case (1 n d)
  show ?case
  proof (cases "d * d \<le> n")
    case False
    have "e = 1 \<or> e = n" if e: "e dvd n" for e
    proof (rule ccontr)
      assume ne: "\<not> (e = 1 \<or> e = n)"
      obtain f where f: "n = e * f" using e by blast
      have "1 < e" "1 < f" using ne f 1(3) by (auto simp: nat_neq_iff)
      moreover have "f dvd n" using f by simp
      ultimately have "d \<le> e" "d \<le> f" using 1(6) e by (meson not_less)+
      then have "d * d \<le> n" using f by (simp add: mult_le_mono)
      then show False using False by simp
    qed
    then have "prime_number n" using 1(3) by (auto simp: prime_number_def)
    then show ?thesis using False by (simp add: prime_loop.simps [of n d])
  next
    case True
    show ?thesis
    proof (cases "n mod d = 0")
      case dvd: True
      then have "d dvd n" by auto
      moreover have "d \<noteq> n"
      proof
        assume "d = n"
        then have "n * n \<le> n" using True by simp
        then show False using 1(3) by (cases n) auto
      qed
      ultimately have "\<not> prime_number n" using 1(4) by (auto simp: prime_number_def)
      then show ?thesis using True dvd by (simp add: prime_loop.simps [of n d])
    next
      case False
      have "\<not> e dvd n" if e: "1 < e" "e < d + 2" for e
      proof -
        consider "e < d" | "e = d" | "e = d + 1" using e by linarith
        then show ?thesis
        proof cases
          case 3
          then have "even e" using 1(5) by simp
          then show ?thesis using 1(2) by (meson dvd_trans)
        qed (use 1(6) e False in \<open>auto simp: dvd_eq_mod_eq_0\<close>)
      qed
      then have "prime_loop n (d + 2) \<longleftrightarrow> prime_number n"
        using 1(1) [OF True False] 1(2-5) by simp
      then show ?thesis using True False by (simp add: prime_loop.simps [of n d])
    qed
  qed
qed

lemma prime_number_2: "prime_number 2"
proof -
  have "d = 1 \<or> d = 2" if "d dvd 2" for d :: nat
  proof -
    have "d \<le> 2" using that by (simp add: dvd_imp_le)
    moreover have "d \<noteq> 0" using that by (cases "d = 0") simp_all
    ultimately show ?thesis by linarith
  qed
  then show ?thesis by (simp add: prime_number_def)
qed

lemma is_prime_iff: "is_prime n \<longleftrightarrow> prime_number (unat n)"
proof -
  have lt: "n < 2 \<longleftrightarrow> unat n < 2" by (simp add: word_less_nat_alt)
  have ev: "n mod 2 = 0 \<longleftrightarrow> even (unat n)"
    by (simp add: word_unat_eq_iff unat_mod_distrib even_iff_mod_2_eq_zero)
  have two: "n = 2 \<longleftrightarrow> unat n = 2" by (simp add: word_unat_eq_iff)
  show ?thesis
  proof (cases "unat n < 2")
    case True
    then show ?thesis by (simp add: is_prime_def lt prime_number_def)
  next
    case ge: False
    show ?thesis
    proof (cases "even (unat n)")
      case True
      then have "prime_number (unat n) \<longleftrightarrow> unat n = 2"
        using ge prime_number_2 by (auto simp: prime_number_def dest: spec [of _ 2])
      then show ?thesis using True ge by (simp add: is_prime_def lt ev two)
    next
      case False
      have "\<not> e dvd unat n" if "1 < e" "e < 3" for e
      proof -
        have "e = 2" using that by simp
        then show ?thesis using False by simp
      qed
      then have "prime_loop (unat n) 3 \<longleftrightarrow> prime_number (unat n)"
        using prime_loop_correct [of "unat n" 3] False ge by simp
      then show ?thesis using False ge by (simp add: is_prime_def lt ev)
    qed
  qed
qed

section \<open>What validation guarantees\<close>

lemma check_weights_None:
  "check_weights as = None \<longleftrightarrow>
     (\<forall>a \<in> set as. spec_weight a \<noteq> 0 \<and> spec_weight a \<le> MAX_INSTANCE_WEIGHT)"
  by (induction as) (auto simp: not_less)

lemma validate_lb_Maglev:
  assumes "validate_lb up = Inr ()" "lb_algorithm up = Maglev"
  obtains hash where "up_hash up = Some hash" "is_prime (table_size hash)"
    "length (addresses up) \<le> unat (table_size hash)" "length (addresses up) \<le> 65535"
    "table_size hash \<le> MAX_HASH_TABLE_SIZE"
    "\<forall>a \<in> set (addresses up). 1 \<le> spec_weight a \<and> spec_weight a \<le> MAX_INSTANCE_WEIGHT"
proof -
  have w: "check_weights (addresses up) = None"
    using assms(1) by (auto simp: validate_lb_def split: option.splits)
  then have "\<forall>a \<in> set (addresses up). 1 \<le> spec_weight a \<and> spec_weight a \<le> MAX_INSTANCE_WEIGHT"
    by (auto simp: check_weights_None word_le_nat_alt unat_gt_0 Suc_le_eq)
  moreover obtain hash where h: "up_hash up = Some hash" "check_hash hash (length (addresses up)) = None"
    using assms w by (auto simp: validate_lb_def split: option.splits)
  ultimately show ?thesis
    using that [of hash] by (auto simp: check_hash_def Let_def not_less split: if_splits)
qed

text \<open>The entries the registry hashes for a Maglev upstream. An address string stands for its bytes.\<close>

definition addr_bytes :: "string \<Rightarrow> bytes" where
  "addr_bytes s = map of_char s"

definition maglev_entries :: "Upstream \<Rightarrow> (bytes \<times> u32) list" where
  "maglev_entries up = map (\<lambda>a. (addr_bytes (spec_address a), spec_weight a)) (addresses up)"

section \<open>Properties\<close>

text \<open>the trial division of the table-size check decides primality, for every 32-bit number.\<close>

theorem is_prime_correct:
  "is_prime n \<longleftrightarrow> 1 < unat n \<and> {d. d dvd unat n} \<subseteq> {1, unat n}"
  unfolding is_prime_iff prime_number_def by auto

text \<open>C34: a Maglev upstream that passes validation always gets a table. For every upstream accepted by
  \<open>validate_lb\<close> with at least one address, the fill loops terminate with a full table in which
  every key looks up a valid instance, every instance owns at least one slot, and the slots follow
  the weights: for some number \<open>R\<close> of rounds each instance owns \<open>R * weight / max_weight\<close> slots,
  rounded down, or one more.\<close>

theorem validated_maglev_builds:
  assumes "validate_lb up = Inr ()" "lb_algorithm up = Maglev" "addresses up \<noteq> []"
  shows "\<exists>hash tab R. up_hash up = Some hash \<and>
    maglev_build (maglev_entries up) (unat (table_size hash)) = Some tab \<and>
    length tab = unat (table_size hash) \<and>
    (\<forall>h. \<exists>i<length (addresses up). maglev_lookup tab h = Some i) \<and>
    (\<forall>i<length (addresses up).
       let w = unat (spec_weight (addresses up ! i));
           mx = Max (set (map (unat \<circ> spec_weight) (addresses up)));
           c = count_list tab (of_nat i)
       in 1 \<le> c \<and> R * w div mx \<le> c \<and> c \<le> R * w div mx + 1)"
proof -
  obtain hash where h: "up_hash up = Some hash" "is_prime (table_size hash)"
    "length (addresses up) \<le> unat (table_size hash)" "length (addresses up) \<le> 65535"
    "\<forall>a \<in> set (addresses up). 1 \<le> spec_weight a"
    using validate_lb_Maglev [OF assms(1,2)] by metis
  have ws: "map (unat \<circ> snd) (maglev_entries up) = map (unat \<circ> spec_weight) (addresses up)"
    by (simp add: maglev_entries_def)
  have "\<forall>(nm, w) \<in> set (maglev_entries up). 1 \<le> w" using h(5) by (auto simp: maglev_entries_def)
  from maglev_build_ok [OF h(2) [unfolded is_prime_iff] _ _ _ this, unfolded ws] obtain tab R where
    "maglev_build (maglev_entries up) (unat (table_size hash)) = Some tab"
    "length tab = unat (table_size hash)"
    "\<forall>h. \<exists>i<length (addresses up). maglev_lookup tab h = Some i"
    "\<forall>i<length (addresses up). 1 \<le> count_list tab (of_nat i) \<and>
       R * unat (spec_weight (addresses up ! i)) div Max (set (map (unat \<circ> spec_weight) (addresses up)))
         \<le> count_list tab (of_nat i) \<and>
       count_list tab (of_nat i) \<le>
         R * unat (spec_weight (addresses up ! i)) div Max (set (map (unat \<circ> spec_weight) (addresses up))) + 1"
    using h(3,4) assms(3) by (auto simp: maglev_entries_def)
  then show ?thesis
    using h(1) by (intro exI [of _ hash] exI [of _ tab] exI [of _ R]) (simp only: Let_def simp_thms)
qed

text \<open>An upstream of two instances with the smallest odd table.\<close>

definition example_upstream :: Upstream where
  "example_upstream = \<lparr>up_name = ''u'', addresses = [Bare ''a:1'', Bare ''b:2''],
     lb_algorithm = Maglev,
     up_hash = Some \<lparr>hash_key_kind = SourceIpKey, hash_header = None, table_size = 3\<rparr>,
     up_health = HealthConfig_default ''/healthz'', request_timeout_ms = 30000, up_max_retries = 1,
     overall_timeout_ms = 0, circuit_breaker = \<lparr>cb_max_requests = 0\<rparr>,
     outlier_detection = OutlierDetection_default\<rparr>"

lemma example_upstream_valid: "validate_lb example_upstream = Inr ()"
proof -
  have "is_prime 3" by (simp add: is_prime_def prime_loop.simps)
  then show ?thesis
    by (simp add: example_upstream_def validate_lb_def check_hash_def default_instance_weight_def
        MAX_INSTANCE_WEIGHT_def MAX_HASH_TABLE_SIZE_def word_less_nat_alt)
qed

theorem validated_maglev_builds_witness:
  "\<exists>tab. maglev_build (maglev_entries example_upstream) 3 = Some tab \<and> length tab = 3"
  using validated_maglev_builds [OF example_upstream_valid] by (auto simp: example_upstream_def)

end
