(* ===== verification/Instance.thy ===== *)
theory Instance
  imports Manifest
begin

text \<open>
  One backend instance and its health state machine, \<open>control/src/upstream/instance.rs\<close>. The
  transitions hold the instance's lock for their whole body, so each is one function on the
  instance; a poisoned lock makes them do nothing. The abstract machine at the end says what the
  counters implement, and every history of probes refines it.
\<close>

section \<open>The instance\<close>

record HealthCounters =
  consecutive_ok :: u32
  consecutive_fail :: u32
  ever_healthy :: bool
  consecutive_gw_fail :: u32
  outlier_eject_count :: u32

record UpstreamInstance =
  inst_address :: string
  inst_weight :: u32
  healthy :: bool
  inst_in_flight :: usize
  counters :: HealthCounters
  poisoned :: bool
  ok_threshold :: u32
  fail_threshold :: u32
  outlier_ejected_until_ms :: u64

definition UpstreamInstance_new :: "string \<Rightarrow> u32 \<Rightarrow> HealthConfig \<Rightarrow> UpstreamInstance" where
  "UpstreamInstance_new addr weight health =
     \<lparr>inst_address = addr,
      inst_weight = max weight 1,
      healthy = False,
      inst_in_flight = 0,
      counters = \<lparr>consecutive_ok = 0, consecutive_fail = 0, ever_healthy = False,
                  consecutive_gw_fail = 0, outlier_eject_count = 0\<rparr>,
      poisoned = False,
      ok_threshold = max (healthy_threshold health) 1,
      fail_threshold = max (unhealthy_threshold health) 1,
      outlier_ejected_until_ms = 0\<rparr>"

definition is_healthy :: "UpstreamInstance \<Rightarrow> bool" where
  "is_healthy i = healthy i"

definition is_outlier_ejected :: "UpstreamInstance \<Rightarrow> u64 \<Rightarrow> bool" where
  "is_outlier_ejected i now_ms \<longleftrightarrow> outlier_ejected_until_ms i > now_ms"

definition record_probe_success :: "UpstreamInstance \<Rightarrow> UpstreamInstance" where
  "record_probe_success i =
     (if poisoned i then i
      else
        let c = (counters i)\<lparr>consecutive_fail := 0\<rparr> in
        if healthy i then i\<lparr>counters := c\<rparr>
        else
          let c = c\<lparr>consecutive_ok := sat_add (consecutive_ok c) 1\<rparr>;
              need = (if ever_healthy c then ok_threshold i else 1)
          in if consecutive_ok c \<ge> need
             then i\<lparr>counters := c\<lparr>ever_healthy := True, consecutive_ok := 0\<rparr>, healthy := True\<rparr>
             else i\<lparr>counters := c\<rparr>)"

definition record_failure :: "UpstreamInstance \<Rightarrow> UpstreamInstance" where
  "record_failure i =
     (if poisoned i then i
      else
        let c = (counters i)\<lparr>consecutive_ok := 0\<rparr>;
            c = c\<lparr>consecutive_fail := sat_add (consecutive_fail c) 1\<rparr>
        in if healthy i \<and> consecutive_fail c \<ge> fail_threshold i
           then i\<lparr>counters := c\<lparr>consecutive_fail := 0\<rparr>, healthy := False\<rparr>
           else i\<lparr>counters := c\<rparr>)"

definition record_probe_failure :: "UpstreamInstance \<Rightarrow> UpstreamInstance" where
  "record_probe_failure i = record_failure i"

definition record_passive_failure :: "UpstreamInstance \<Rightarrow> UpstreamInstance" where
  "record_passive_failure i = record_failure i"

section \<open>The abstract machine\<close>

datatype health_event = ProbeOk | ProbeFail | PassiveFail

fun health_step :: "health_event \<Rightarrow> UpstreamInstance \<Rightarrow> UpstreamInstance" where
  "health_step ProbeOk i = record_probe_success i"
| "health_step ProbeFail i = record_probe_failure i"
| "health_step PassiveFail i = record_passive_failure i"

text \<open>Never yet healthy; up, with the failures since the last success; or ejected, with the
  successes since the last failure.\<close>

datatype health_abs = Never | Up nat | Down nat

fun abs_step :: "nat \<Rightarrow> nat \<Rightarrow> health_event \<Rightarrow> health_abs \<Rightarrow> health_abs" where
  "abs_step okt failt ProbeOk Never = Up 0"
| "abs_step okt failt ProbeOk (Up k) = Up 0"
| "abs_step okt failt ProbeOk (Down k) = (if Suc k \<ge> okt then Up 0 else Down (Suc k))"
| "abs_step okt failt _ Never = Never"
| "abs_step okt failt _ (Up k) = (if Suc k \<ge> failt then Down 0 else Up (Suc k))"
| "abs_step okt failt _ (Down k) = Down 0"

definition health_view :: "UpstreamInstance \<Rightarrow> health_abs" where
  "health_view i =
     (if healthy i then Up (unat (consecutive_fail (counters i)))
      else if ever_healthy (counters i) then Down (unat (consecutive_ok (counters i)))
      else Never)"

definition health_inv :: "UpstreamInstance \<Rightarrow> bool" where
  "health_inv i \<longleftrightarrow> (let c = counters i in
     \<not> poisoned i \<and> 1 \<le> ok_threshold i \<and> 1 \<le> fail_threshold i \<and>
     (if healthy i
      then ever_healthy c \<and> consecutive_ok c = 0 \<and> consecutive_fail c < fail_threshold i
      else if ever_healthy c then consecutive_ok c < ok_threshold i else consecutive_ok c = 0))"

lemma unat_sat_suc:
  fixes x :: u32
  assumes "x < t"
  shows "unat (sat_add x 1) = Suc (unat x)"
  using assms unat_le_max [of t] by (simp add: unat_sat_add word_less_nat_alt)

lemma word32_ge1: "1 \<le> max (w :: u32) 1"
  by simp

lemma health_step_refines:
  assumes "health_inv i"
  shows "health_inv (health_step e i) \<and>
     health_view (health_step e i) =
       abs_step (unat (ok_threshold i)) (unat (fail_threshold i)) e (health_view i) \<and>
     ok_threshold (health_step e i) = ok_threshold i \<and>
     fail_threshold (health_step e i) = fail_threshold i"
proof -
  note d = health_inv_def health_view_def Let_def
  have fl: ?thesis if "e \<noteq> ProbeOk"
  proof -
    have st: "health_step e i = record_failure i"
      using that by (cases e) (simp_all add: record_probe_failure_def record_passive_failure_def)
    have ab: "abs_step okt failt e a = abs_step okt failt ProbeFail a" for okt failt a
      using that by (cases e; cases a) simp_all
    show ?thesis
    proof (cases "healthy i")
      case True
      have lt: "consecutive_fail (counters i) < fail_threshold i" using assms True by (simp add: d)
      show ?thesis
        unfolding st ab using assms True unat_sat_suc [OF lt]
        by (auto simp: d record_failure_def word_le_nat_alt word_less_nat_alt)
    next
      case False
      then show ?thesis
        unfolding st ab using assms
        by (auto simp: d record_failure_def word_le_nat_alt word_less_nat_alt)
    qed
  qed
  have ok: ?thesis if "e = ProbeOk"
  proof (cases "healthy i \<or> \<not> ever_healthy (counters i)")
    case True
    then show ?thesis
    proof (cases "healthy i")
      case False
      with True have "consecutive_ok (counters i) = 0" using assms by (simp add: d)
      moreover have "0 < unat (fail_threshold i)"
        using assms by (simp add: d word_le_nat_alt Suc_le_eq)
      ultimately show ?thesis
        using assms that True False by (simp add: d record_probe_success_def word_less_nat_alt)
    qed (use assms that in \<open>simp add: d record_probe_success_def word_less_nat_alt\<close>)
  next
    case False
    then have lt: "consecutive_ok (counters i) < ok_threshold i" using assms by (simp add: d)
    show ?thesis
      using assms that False unat_sat_suc [OF lt]
      by (auto simp: d record_probe_success_def word_le_nat_alt word_less_nat_alt)
  qed
  show ?thesis using fl ok by (cases "e = ProbeOk") simp_all
qed

lemma health_run_refines:
  assumes "health_inv i"
  shows "health_inv (fold health_step es i) \<and>
     health_view (fold health_step es i) =
       fold (abs_step (unat (ok_threshold i)) (unat (fail_threshold i))) es (health_view i)"
  using assms
proof (induction es arbitrary: i)
  case (Cons e es)
  then show ?case using health_step_refines [OF Cons.prems, of e] by simp
qed simp

lemma new_instance_inv: "health_inv (UpstreamInstance_new addr w h)"
  by (simp add: health_inv_def UpstreamInstance_new_def)

lemma abs_fail_step:
  assumes "e \<noteq> ProbeOk"
  shows "abs_step okt failt e (Up k) = (if Suc k \<ge> failt then Down 0 else Up (Suc k))"
    and "abs_step okt failt e (Down j) = Down 0"
    and "abs_step okt failt e Never = Never"
  using assms by (cases e; simp)+

lemma abs_fail_down:
  "ProbeOk \<notin> set fs \<Longrightarrow> fold (abs_step okt failt) fs (Down 0) = Down 0"
  by (induction fs) (auto simp: abs_fail_step)

lemma abs_fail_never:
  "ProbeOk \<notin> set fs \<Longrightarrow> fold (abs_step okt failt) fs Never = Never"
  by (induction fs) (auto simp: abs_fail_step)

lemma abs_fail_up:
  "ProbeOk \<notin> set fs \<Longrightarrow> k < failt \<Longrightarrow> fold (abs_step okt failt) fs (Up k) =
     (if k + length fs \<ge> failt then Down 0 else Up (k + length fs))"
proof (induction fs arbitrary: k)
  case (Cons e fs)
  then have ne: "e \<noteq> ProbeOk" "ProbeOk \<notin> set fs" by auto
  show ?case
  proof (cases "Suc k \<ge> failt")
    case True
    then show ?thesis using Cons.prems(2) by (simp add: abs_fail_step [OF ne(1)] abs_fail_down [OF ne(2)])
  next
    case False
    then show ?thesis using Cons.IH [OF ne(2), of "Suc k"] by (simp add: abs_fail_step [OF ne(1)])
  qed
qed simp

lemma abs_ok_run:
  "k < okt \<Longrightarrow> fold (abs_step okt failt) (replicate n ProbeOk) (Down k) =
     (if k + n \<ge> okt then Up 0 else Down (k + n))"
proof (induction n arbitrary: k)
  case (Suc n)
  have up: "fold (abs_step okt failt) (replicate m ProbeOk) (Up 0) = Up 0" for m
    by (induction m) (simp_all del: fold_replicate)
  show ?case using Suc.IH [of "Suc k"] Suc.prems by (simp add: up del: fold_replicate)
qed simp

lemma healthy_view: "is_healthy i \<longleftrightarrow> (\<exists>k. health_view i = Up k)"
  by (simp add: is_healthy_def health_view_def)

section \<open>Properties\<close>

text \<open>The instance after a history of probe results and passive failures.\<close>

definition after :: "string \<Rightarrow> u32 \<Rightarrow> HealthConfig \<Rightarrow> health_event list \<Rightarrow> UpstreamInstance" where
  "after addr w h es = fold health_step es (UpstreamInstance_new addr w h)"

lemma after_view:
  "health_view (after addr w h es) =
     fold (abs_step (max (unat (healthy_threshold h)) 1) (max (unat (unhealthy_threshold h)) 1)) es Never"
  using health_run_refines [OF new_instance_inv, of es addr w h]
  by (simp add: after_def unat_max) (simp add: UpstreamInstance_new_def health_view_def unat_max)

text \<open>C35: the counters implement the health machine. After every history of probes and passive
  failures the instance's view is that of the abstract machine run on the history: never yet
  healthy, up with the failures since the last success, or ejected with the successes since the
  last failure. It is in rotation exactly in the up states.\<close>

theorem health_refines:
  "health_view (after addr w h es) =
     fold (abs_step (max (unat (healthy_threshold h)) 1) (max (unat (unhealthy_threshold h)) 1)) es Never
   \<and> (is_healthy (after addr w h es) \<longleftrightarrow> (\<exists>k. health_view (after addr w h es) = Up k))"
  by (simp add: after_view healthy_view)

text \<open>thresholds of the health machine. A fresh instance is out of rotation until its first
  successful probe, which alone puts it in. From then on: after a success it stays in rotation for
  exactly fewer than \<open>unhealthy_threshold\<close> further consecutive failures of either kind, and once
  ejected it returns exactly when \<open>healthy_threshold\<close> consecutive probes have succeeded (both
  thresholds clamped to at least one).\<close>

theorem health_thresholds:
  assumes "ProbeOk \<notin> set fs"
  shows "\<not> is_healthy (after addr w h fs) \<and> is_healthy (after addr w h (fs @ [ProbeOk])) \<and>
    (is_healthy (after addr w h (es @ [ProbeOk])) \<longrightarrow>
      (is_healthy (after addr w h (es @ [ProbeOk] @ fs))
         \<longleftrightarrow> length fs < max (unat (unhealthy_threshold h)) 1) \<and>
      (\<not> is_healthy (after addr w h (es @ [ProbeOk] @ fs)) \<longrightarrow>
        (is_healthy (after addr w h (es @ [ProbeOk] @ fs @ replicate n ProbeOk))
           \<longleftrightarrow> max (unat (healthy_threshold h)) 1 \<le> n)))"
proof -
  define okt where "okt = max (unat (healthy_threshold h)) 1"
  define failt where "failt = max (unat (unhealthy_threshold h)) 1"
  let ?s = "abs_step okt failt"
  have pos: "0 < okt" "0 < failt" by (simp_all add: okt_def failt_def)
  have view: "is_healthy (after addr w h xs) \<longleftrightarrow> (\<exists>k. fold ?s xs Never = Up k)" for xs
    by (simp add: healthy_view after_view okt_def failt_def)
  have fresh: "\<not> is_healthy (after addr w h fs)" "is_healthy (after addr w h (fs @ [ProbeOk]))"
    by (simp_all add: view abs_fail_never [OF assms])
  have rest: "(is_healthy (after addr w h (es @ [ProbeOk] @ fs)) \<longleftrightarrow> length fs < failt) \<and>
      (\<not> is_healthy (after addr w h (es @ [ProbeOk] @ fs)) \<longrightarrow>
        (is_healthy (after addr w h (es @ [ProbeOk] @ fs @ replicate n ProbeOk)) \<longleftrightarrow> okt \<le> n))"
    if hh: "is_healthy (after addr w h (es @ [ProbeOk]))"
  proof -
    have up0: "?s ProbeOk (fold ?s es Never) = Up 0"
      using hh by (cases "fold ?s es Never") (auto simp: view split: if_splits)
    have run: "fold ?s (es @ [ProbeOk] @ fs) Never =
        (if length fs \<ge> failt then Down 0 else Up (length fs))"
      using abs_fail_up [OF assms pos(2)] by (simp add: up0)
    have bk: "length fs \<ge> failt \<Longrightarrow> fold ?s (es @ [ProbeOk] @ fs @ replicate n ProbeOk) Never =
        (if n \<ge> okt then Up 0 else Down n)"
      using run abs_ok_run [OF pos(1), of failt n] by (simp del: fold_replicate)
    show ?thesis
      unfolding view using run bk by (auto simp del: fold_replicate fold_append)
  qed
  show ?thesis using fresh rest unfolding okt_def failt_def by blast
qed

theorem health_thresholds_witness:
  "is_healthy (after ''a:1'' 1 (HealthConfig_default ''/hz'')
     [PassiveFail, ProbeOk, ProbeFail, PassiveFail])"
  using health_thresholds [of "[ProbeFail, PassiveFail]" "''a:1''" 1 "HealthConfig_default ''/hz''"
      "[PassiveFail]"] health_thresholds [of "[PassiveFail]" "''a:1''" 1 "HealthConfig_default ''/hz''"]
  by (simp add: HealthConfig_default_def)

end
