(* ===== verification/Rng.thy ===== *)
theory Rng
  imports Prelude
begin

text \<open>
  The SplitMix64 generator of \<open>control/src/rng.rs\<close> and the bounded draws of the two-choices
  load balancer. The thread-local state is passed explicitly; the rejection loop of Lemire's
  method is a partial function, proved to return from every state.
\<close>

section \<open>The generator\<close>

definition GOLDEN_GAMMA :: u64 where "GOLDEN_GAMMA = 0x9E3779B97F4A7C15"

definition mix :: "u64 \<Rightarrow> u64" where
  "mix z0 =
     (let z1 = xor z0 (drop_bit 30 z0) * 0xBF58476D1CE4E5B9;
          z2 = xor z1 (drop_bit 27 z1) * 0x94D049BB133111EB
      in xor z2 (drop_bit 31 z2))"

text \<open>The seed of a thread, from a clock reading and its value of the thread counter.\<close>

definition seed :: "u64 \<Rightarrow> u64 \<Rightarrow> u64" where
  "seed nanos counter = mix (xor nanos (counter * GOLDEN_GAMMA))"

definition next_u64 :: "u64 \<Rightarrow> u64 \<times> u64" where
  "next_u64 s = (let z = s + GOLDEN_GAMMA in (z, mix z))"

text \<open>The multiply-shift of Lemire's method: the low word decides rejection, the high word is the
  result.\<close>

definition wide :: "u64 \<Rightarrow> u64 \<Rightarrow> 128 word" where
  "wide draw n = ucast draw * ucast n"

partial_function (option) reject :: "u64 \<Rightarrow> u64 \<Rightarrow> u64 \<Rightarrow> 128 word \<Rightarrow> (u64 \<times> 128 word) option" where
  "reject n threshold s m =
     (if (ucast m :: u64) < threshold
      then (let (s', draw) = next_u64 s in reject n threshold s' (wide draw n))
      else Some (s, m))"

definition below :: "u32 \<Rightarrow> u64 \<Rightarrow> (u64 \<times> u32) option" where
  "below n32 s =
     (let n = ucast n32 :: u64;
          (s1, draw) = next_u64 s;
          m = wide draw n;
          l = ucast m :: u64
      in map_option (\<lambda>(s', m'). (s', ucast (drop_bit 64 m') :: u32))
           (if l < n then reject n ((- n) mod n) s1 m else Some (s1, m)))"

definition two_distinct_below :: "u32 \<Rightarrow> u64 \<Rightarrow> (u64 \<times> u32 \<times> u32) option" where
  "two_distinct_below n s =
     (case below n s of
        None \<Rightarrow> None
      | Some (s1, i) \<Rightarrow>
          (case below (n - 1) s1 of
             None \<Rightarrow> None
           | Some (s2, j) \<Rightarrow> Some (s2, i, if j \<ge> i then j + 1 else j)))"

section \<open>Facts about the generator\<close>

lemma mix_inj: "mix x = mix y \<longleftrightarrow> x = y"
proof
  assume "mix x = mix y"
  then have 1: "xor x (drop_bit 30 x) * 0xBF58476D1CE4E5B9 = xor y (drop_bit 30 y) * 0xBF58476D1CE4E5B9"
    unfolding mix_def Let_def
    by (rule xorshift_inj [OF zero_less_numeral, THEN
          odd_mult_inj [of "0x319642b2d24d8ec3", rotated], THEN
          xorshift_inj [OF zero_less_numeral]]) simp
  then have "xor x (drop_bit 30 x) = xor y (drop_bit 30 y)"
    by (rule odd_mult_inj [of "0x96de1b173f119089", rotated]) simp
  then show "x = y" by (rule xorshift_inj [OF zero_less_numeral])
qed simp

lemma mix_surj: "\<exists>z. mix z = w"
  using inj_word_surj [of mix] mix_inj by (metis injI surjD)

text \<open>The states visited from \<open>s\<close>, and that they visit every word.\<close>

lemma gamma_steps: "\<exists>k. s + of_nat (Suc k) * GOLDEN_GAMMA = z"
proof -
  define d where "d = (z - s) * 0xf1de83e19937733d - 1"
  have "of_nat (Suc (unat d)) = (z - s) * (0xf1de83e19937733d :: u64)" by (simp add: d_def)
  then have "s + of_nat (Suc (unat d)) * GOLDEN_GAMMA = s + (z - s) * (0xf1de83e19937733d * GOLDEN_GAMMA)"
    by (simp only: mult.assoc)
  also have "0xf1de83e19937733d * GOLDEN_GAMMA = 1" by (simp add: GOLDEN_GAMMA_def)
  finally have "s + of_nat (Suc (unat d)) * GOLDEN_GAMMA = z" by simp
  then show ?thesis by blast
qed

lemma unat_wide: "unat (wide draw n) = unat draw * unat n"
proof -
  have "unat draw * unat n \<le> (2 ^ 64 - 1) * (2 ^ 64 - 1)"
    by (intro mult_le_mono) (use unat_le_max [of draw] unat_le_max [of n] in simp_all)
  then have "unat draw * unat n < 2 ^ 128" by (simp add: order.strict_trans1)
  then show ?thesis
    by (simp add: wide_def unat_word_ariths unat_ucast_up)
qed

definition accepts :: "u64 \<Rightarrow> u64 \<Rightarrow> bool" where
  "accepts n draw \<longleftrightarrow> \<not> (ucast (wide draw n) :: u64) < (- n) mod n"

lemma unat_low: "unat (ucast (m :: 128 word) :: u64) = unat m mod 2 ^ 64"
  by (simp add: unsigned_ucast_eq take_bit_eq_mod)

lemma unat_threshold:
  assumes "(n :: u64) \<noteq> 0"
  shows "unat ((- n) mod n) = 2 ^ 64 mod unat n"
proof -
  have n: "0 < unat n" "unat n < 2 ^ 64"
    using assms unsigned_less [of n, where 'a = nat] by (simp_all add: unat_gt_0)
  have "unat (- n) = 2 ^ 64 - unat n"
    using assms by (simp add: unat_uminus)
  then have "unat ((- n) mod n) = (2 ^ 64 - unat n) mod unat n" by (simp add: unat_mod_distrib)
  also have "\<dots> = 2 ^ 64 mod unat n" using n by (simp add: le_mod_geq)
  finally show ?thesis .
qed

lemma accepts_iff:
  "n \<noteq> 0 \<Longrightarrow> accepts n draw \<longleftrightarrow> 2 ^ 64 mod unat n \<le> unat draw * unat n mod 2 ^ 64"
  by (simp add: accepts_def word_less_nat_alt unat_low unat_wide unat_threshold not_less)

lemma accepts_one: "n \<noteq> 0 \<Longrightarrow> accepts n 1"
  using unsigned_less [of n, where 'a = nat] mod_less_divisor [of "unat n" "2 ^ 64"]
  by (simp add: accepts_iff unat_gt_0 less_imp_le)

lemma reject_returns:
  "accepts n (mix (s + of_nat (Suc k) * GOLDEN_GAMMA)) \<Longrightarrow>
     \<exists>r. reject n ((- n) mod n) s m = Some r"
proof (induction k arbitrary: s m)
  case 0
  then show ?case
    by (subst reject.simps, subst reject.simps) (auto simp: next_u64_def accepts_def Let_def)
next
  case (Suc k)
  have "s + of_nat (Suc (Suc k)) * GOLDEN_GAMMA = (s + GOLDEN_GAMMA) + of_nat (Suc k) * GOLDEN_GAMMA"
    by (simp add: algebra_simps)
  with Suc.prems have "accepts n (mix ((s + GOLDEN_GAMMA) + of_nat (Suc k) * GOLDEN_GAMMA))" by (simp only:)
  from Suc.IH [OF this] show ?case
    by (subst reject.simps) (simp add: next_u64_def Let_def)
qed

lemma reject_result:
  assumes "reject n t s m = Some r"
  shows "\<not> (ucast (snd r) :: u64) < t \<and> (snd r = m \<or> (\<exists>draw. snd r = wide draw n))"
proof (rule reject.raw_induct [OF _ assms, where P = "\<lambda>n t s m r. \<not> (ucast (snd r) :: u64) < t \<and>
      (snd r = m \<or> (\<exists>draw. snd r = wide draw n))"], goal_cases)
  case (1 rej n t s m r)
  show ?case
  proof (cases "(ucast m :: u64) < t")
    case True
    then have "rej n t (fst (next_u64 s)) (wide (snd (next_u64 s)) n) = Some r"
      using 1(2) by (simp add: case_prod_unfold Let_def)
    from 1(1) [OF this] show ?thesis by auto
  qed (use 1(2) in auto)
qed

lemma below_returns: "n \<noteq> 0 \<Longrightarrow> \<exists>r. below n s = Some r"
proof -
  assume n: "n \<noteq> 0"
  then have "(ucast n :: u64) \<noteq> 0" by (simp add: ucast_up_eq_0)
  then have acc: "accepts (ucast n) 1" by (rule accepts_one)
  obtain z where z: "mix z = 1" using mix_surj by blast
  have "\<exists>r. reject (ucast n) ((- ucast n) mod ucast n) s' m = Some r" for s' m
    using reject_returns gamma_steps [of s' z] acc z by metis
  then show ?thesis by (auto simp: below_def Let_def split: prod.split)
qed

lemma below_draw:
  assumes "n \<noteq> 0" "below n s = Some (s', v)"
  obtains draw where "accepts (ucast n) draw" "unat v = unat draw * unat n div 2 ^ 64"
proof -
  let ?n = "ucast n :: u64"
  have n0: "?n \<noteq> 0" using assms(1) by (simp add: ucast_up_eq_0)
  have un: "unat ?n = unat n" by (simp add: unat_ucast_up)
  obtain m where m: "v = ucast (drop_bit 64 m)" "\<not> (ucast m :: u64) < (- ?n) mod ?n"
    "\<exists>draw. m = wide draw ?n"
  proof (cases "(ucast (wide (snd (next_u64 s)) ?n) :: u64) < ?n")
    case True
    then obtain m where "reject ?n ((- ?n) mod ?n) (fst (next_u64 s)) (wide (snd (next_u64 s)) ?n)
        = Some (s', m)" "v = ucast (drop_bit 64 m)"
      using assms(2) by (auto simp: below_def Let_def case_prod_unfold)
    then show ?thesis using reject_result [of ?n] that by fastforce
  next
    case False
    have "(- ?n) mod ?n < ?n"
      using n0 by (simp add: word_less_nat_alt unat_threshold unat_gt_0)
    then have "\<not> (ucast (wide (snd (next_u64 s)) ?n) :: u64) < (- ?n) mod ?n"
      using False by (meson less_trans)
    moreover have "v = ucast (drop_bit 64 (wide (snd (next_u64 s)) ?n))"
      using assms(2) False by (simp add: below_def Let_def case_prod_unfold)
    ultimately show ?thesis using that by blast
  qed
  then obtain draw where d: "m = wide draw ?n" by blast
  have "unat draw * unat n div 2 ^ 64 < 2 ^ 32"
  proof -
    have "unat draw * unat n < 2 ^ 64 * 2 ^ 32"
      by (intro mult_strict_mono) (use unsigned_less [of draw, where 'a = nat]
          unsigned_less [of n, where 'a = nat] in simp_all)
    then show ?thesis by (simp add: div_less_iff_less_mult mult.commute)
  qed
  then have "unat v = unat draw * unat n div 2 ^ 64"
    unfolding m(1) d unat_wide [of draw ?n, unfolded un, symmetric] unat_drop_bit [symmetric]
    by (simp add: unsigned_ucast_eq take_bit_nat_eq_self)
  then show ?thesis using that m(2) d by (simp add: accepts_def)
qed

lemma below_less: "n \<noteq> 0 \<Longrightarrow> below n s = Some (s', v) \<Longrightarrow> v < n"
proof -
  assume n: "n \<noteq> 0" "below n s = Some (s', v)"
  obtain draw where "accepts (ucast n) draw" "unat v = unat draw * unat n div 2 ^ 64"
    by (rule below_draw [OF n])
  moreover have "unat draw * unat n < unat n * 2 ^ 64"
    using unsigned_less [of draw, where 'a = nat] n(1) by (simp add: unat_gt_0 mult.commute)
  ultimately show ?thesis by (simp add: word_less_nat_alt div_less_iff_less_mult)
qed

text \<open>A half-open interval of length \<open>n * q\<close> holds \<open>q\<close> multiples of \<open>n\<close>.\<close>

lemma card_multiples:
  fixes a n q :: nat
  assumes "0 < n"
  shows "card {r. a \<le> r * n \<and> r * n < a + n * q} = q"
proof -
  let ?c = "(a + n - 1) div n"
  have lo: "a \<le> r * n \<longleftrightarrow> ?c \<le> r" for r
  proof -
    have "?c \<le> r \<longleftrightarrow> a + n - 1 < Suc r * n"
      using assms by (simp only: less_Suc_eq_le [symmetric] div_less_iff_less_mult)
    also have "\<dots> \<longleftrightarrow> a \<le> r * n" using assms by auto
    finally show ?thesis by simp
  qed
  have hi: "r * n < a + n * q \<longleftrightarrow> r < ?c + q" for r
  proof (cases "r < q")
    case True
    then have "r * n < a + n * q" using assms by (simp add: trans_less_add2 mult.commute)
    then show ?thesis using True by simp
  next
    case False
    then obtain d where d: "r = q + d" by (metis le_add_diff_inverse not_less)
    show ?thesis using lo [of d] by (simp add: d algebra_simps not_le [symmetric])
  qed
  have "{r. a \<le> r * n \<and> r * n < a + n * q} = {?c ..< ?c + q}" by (auto simp: lo hi)
  then show ?thesis by simp
qed

lemma interval_div:
  fixes M v t x :: nat
  assumes "0 < M"
  shows "t \<le> x mod M \<and> x div M = v \<longleftrightarrow> v * M + t \<le> x \<and> x < (v + 1) * M"
proof -
  define d r where "d = x div M" and "r = x mod M"
  have x: "x = d * M + r" and r: "r < M" using assms by (simp_all add: d_def r_def)
  have "d = v" if "v * M \<le> x" "x < (v + 1) * M"
    using that by (auto simp: d_def intro!: div_nat_eqI simp: mult.commute)
  then show ?thesis unfolding d_def [symmetric] r_def [symmetric] using x r by auto
qed

lemma uniform_draws:
  fixes n :: u64
  assumes "n \<noteq> 0" "v < unat n"
  shows "card {draw. accepts n draw \<and> unat draw * unat n div 2 ^ 64 = v} = 2 ^ 64 div unat n"
proof -
  let ?n = "unat n" and ?t = "2 ^ 64 mod unat n" and ?q = "2 ^ 64 div unat n :: nat"
  let ?R = "{r. v * 2 ^ 64 + ?t \<le> r * ?n \<and> r * ?n < (v * 2 ^ 64 + ?t) + ?n * ?q}"
  have n: "0 < ?n" using assms(1) by (simp add: unat_gt_0)
  have fin: "(v * 2 ^ 64 + ?t) + ?n * ?q = (v + 1) * 2 ^ 64"
    by (simp add: algebra_simps mod_mult_div_eq)
  have iff: "?t \<le> x mod 2 ^ 64 \<and> x div 2 ^ 64 = v \<longleftrightarrow> v * 2 ^ 64 + ?t \<le> x \<and> x < (v + 1) * 2 ^ 64"
    for x :: nat
    by (rule interval_div) simp
  have small: "r < 2 ^ 64" if "r \<in> ?R" for r
  proof (rule ccontr)
    assume "\<not> r < 2 ^ 64"
    then have big: "2 ^ 64 * ?n \<le> r * ?n" by (intro mult_le_mono1) simp
    have "r * ?n < (v + 1) * 2 ^ 64" using that fin by (simp only: mem_Collect_eq)
    also have "\<dots> \<le> ?n * 2 ^ 64" using assms(2) by (intro mult_le_mono1) simp
    also have "\<dots> = 2 ^ 64 * ?n" by (rule mult.commute)
    also note big
    finally show False by simp
  qed
  have mem: "accepts n draw \<and> unat draw * ?n div 2 ^ 64 = v \<longleftrightarrow> unat draw \<in> ?R" for draw
    by (simp only: accepts_iff [OF assms(1)] iff fin mem_Collect_eq)
  have "?R = unat ` {draw :: u64. unat draw \<in> ?R}"
  proof (intro equalityI subsetI)
    fix r assume r: "r \<in> ?R"
    then have "unat (of_nat r :: u64) = r" using small by (simp only: unat_of_nat len_num1 mod_less) simp
    then show "r \<in> unat ` {draw :: u64. unat draw \<in> ?R}"
      using r by (intro image_eqI [of _ _ "of_nat r"]) (simp_all only: mem_Collect_eq)
  qed blast
  moreover have "card (unat ` {draw :: u64. unat draw \<in> ?R}) = card {draw :: u64. unat draw \<in> ?R}"
    by (rule card_image) (simp add: inj_on_def word_unat_eq_iff)
  ultimately have "card {draw :: u64. unat draw \<in> ?R} = card ?R" by (simp only:)
  then show ?thesis unfolding mem card_multiples [OF n] .
qed

lemma skip_ok:
  fixes i j n :: u32
  assumes "i < n" "j < n - 1"
  shows "(if j \<ge> i then j + 1 else j) < n \<and> i \<noteq> (if j \<ge> i then j + 1 else j)"
    and "unat (if j \<ge> i then j + 1 else j) = (if unat i \<le> unat j then unat j + 1 else unat j)"
proof -
  have "1 \<le> n" using assms(1) by (auto simp: word_le_nat_alt word_less_nat_alt)
  then have "unat (n - 1) = unat n - 1" by (simp add: unat_sub)
  then have j: "unat j + 1 < unat n" using assms(2) by (simp add: word_less_nat_alt)
  then have "unat (j + 1) = unat j + 1"
    using unsigned_less [of n, where 'a = nat] by (simp add: unat_word_ariths)
  with j assms show "(if j \<ge> i then j + 1 else j) < n \<and> i \<noteq> (if j \<ge> i then j + 1 else j)"
    "unat (if j \<ge> i then j + 1 else j) = (if unat i \<le> unat j then unat j + 1 else unat j)"
    by (auto simp: word_less_nat_alt word_le_nat_alt)
qed

lemma two_distinct_sample:
  fixes n :: u32
  assumes "2 \<le> n"
  shows "\<exists>s' i j. two_distinct_below n s = Some (s', i, j) \<and> i < n \<and> j < n \<and> i \<noteq> j"
proof -
  have n: "n \<noteq> 0" "n - 1 \<noteq> 0" using assms by (auto simp: word_le_nat_alt unat_eq_zero)
  obtain s1 i where i: "below n s = Some (s1, i)" using below_returns [OF n(1)] by fastforce
  obtain s2 j where j: "below (n - 1) s1 = Some (s2, j)" using below_returns [OF n(2)] by fastforce
  show ?thesis
    using skip_ok [OF below_less [OF n(1) i] below_less [OF n(2) j]] below_less [OF n(1) i]
    by (auto simp: two_distinct_below_def i j)
qed

section \<open>Properties\<close>

text \<open>The generator has full period and no repeats: from any state, every 64-bit word is drawn at
  some step, and two draws of the stream at states that differ are different.\<close>

theorem rng_full_period:
  "(\<exists>k. snd (next_u64 (s + of_nat k * GOLDEN_GAMMA)) = w) \<and>
   (snd (next_u64 s) = snd (next_u64 s') \<longleftrightarrow> s = s') \<and>
   fst (next_u64 s) = s + GOLDEN_GAMMA"
proof (intro conjI)
  obtain z where z: "mix z = w" using mix_surj by blast
  obtain k where "s + of_nat (Suc k) * GOLDEN_GAMMA = z" using gamma_steps by blast
  then have "(s + of_nat k * GOLDEN_GAMMA) + GOLDEN_GAMMA = z" by (simp add: algebra_simps)
  then show "\<exists>k. snd (next_u64 (s + of_nat k * GOLDEN_GAMMA)) = w"
    using z by (intro exI [of _ k]) (simp add: next_u64_def)
qed (simp_all add: next_u64_def mix_inj Let_def)

text \<open>a bounded draw always returns, is in range, and is unbiased. From every generator state the
  rejection loop ends; the result is below \<open>n\<close> and comes from an accepted 64-bit draw; and each
  value below \<open>n\<close> is the result of exactly the same number of accepted draws.\<close>

theorem below_uniform:
  assumes "n \<noteq> 0"
  shows "(\<exists>s' v draw. below n s = Some (s', v) \<and> v < n \<and> accepts (ucast n) draw \<and>
            unat v = unat draw * unat n div 2 ^ 64) \<and>
         (\<forall>v<n. card {draw. accepts (ucast n) draw \<and> unat draw * unat n div 2 ^ 64 = unat v}
                 = 2 ^ 64 div unat n)"
proof -
  obtain s' v where b: "below n s = Some (s', v)" using below_returns [OF assms] by fastforce
  obtain draw where "accepts (ucast n) draw" "unat v = unat draw * unat n div 2 ^ 64"
    by (rule below_draw [OF assms b])
  moreover have "card {draw. accepts (ucast n) draw \<and> unat draw * unat n div 2 ^ 64 = unat x}
      = 2 ^ 64 div unat n" if "x < n" for x
    using uniform_draws [of "ucast n" "unat x"] assms that
    by (simp add: ucast_up_eq_0 unat_ucast_up word_less_nat_alt)
  ultimately show ?thesis using b below_less [OF assms b] by blast
qed

theorem below_uniform_witness:
  "\<exists>s' v. below 3 42 = Some (s', v) \<and> v < 3"
  using below_uniform [of 3 42] by auto

text \<open>the two candidates of power-of-two-choices. For at least two choices the function returns
  two different indices in range, and the skip over the first index is a bijection between pairs of
  independent draws and ordered pairs of distinct indices, so no pair is favoured.\<close>

theorem two_distinct_ok:
  assumes "2 \<le> n"
  shows "(\<exists>s' i j. two_distinct_below n s = Some (s', i, j) \<and> i < n \<and> j < n \<and> i \<noteq> j) \<and>
         bij_betw (\<lambda>(i, j). (i, if j \<ge> i then j + 1 else j))
           ({..<n} \<times> {..<n - 1}) {(i, j). i < n \<and> j < n \<and> i \<noteq> j}"
proof -
  have n1: "unat (n - 1) = unat n - 1"
    using assms by (simp add: unat_sub word_le_nat_alt)
  note skip = skip_ok [where n = n]
  have "\<exists>s' i j. two_distinct_below n s = Some (s', i, j) \<and> i < n \<and> j < n \<and> i \<noteq> j"
    by (rule two_distinct_sample [OF assms])
  moreover have "bij_betw (\<lambda>(i, j). (i, if j \<ge> i then j + 1 else j))
      ({..<n} \<times> {..<n - 1}) {(i, j). i < n \<and> j < n \<and> i \<noteq> j}"
  proof (rule bij_betw_byWitness [where f' = "\<lambda>(i, j). (i, if j > i then j - 1 else j)"])
    show "(\<lambda>(i, j). (i, if j \<ge> i then j + 1 else j)) ` ({..<n} \<times> {..<n - 1})
        \<subseteq> {(i, j). i < n \<and> j < n \<and> i \<noteq> j}"
      using skip(1) by fastforce
    show "\<forall>p\<in>{..<n} \<times> {..<n - 1}. (\<lambda>(i, j). (i, if j > i then j - 1 else j))
        ((\<lambda>(i, j). (i, if j \<ge> i then j + 1 else j)) p) = p"
      using skip(2) by (fastforce simp: word_less_nat_alt word_le_nat_alt split: if_splits)
    have pred: "unat (j - 1) = unat j - 1" if "i < j" for i j :: u32
      using that by (simp add: unat_sub word_le_nat_alt word_less_nat_alt)
    show "\<forall>p\<in>{(i, j). i < n \<and> j < n \<and> i \<noteq> j}. (\<lambda>(i, j). (i, if j \<ge> i then j + 1 else j))
        ((\<lambda>(i, j). (i, if j > i then j - 1 else j)) p) = p"
      using pred by (auto simp: word_less_nat_alt word_le_nat_alt word_unat_eq_iff)
    show "(\<lambda>(i, j). (i, if j > i then j - 1 else j)) ` {(i, j). i < n \<and> j < n \<and> i \<noteq> j}
        \<subseteq> {..<n} \<times> {..<n - 1}"
      using pred n1 by (auto simp: word_less_nat_alt word_unat_eq_iff)
  qed
  ultimately show ?thesis by blast
qed

theorem two_distinct_ok_witness:
  "\<exists>s' i j. two_distinct_below 5 7 = Some (s', i, j) \<and> i < 5 \<and> j < 5 \<and> i \<noteq> j"
  using two_distinct_ok [of 5 7] by simp

end
