(* ===== verification/Upstream.thy ===== *)
theory Upstream
  imports Instance Rng Net
begin

text \<open>
  Upstream groups and the choice of an instance, \<open>control/src/upstream/mod.rs\<close>, \<open>lb.rs\<close> and
  \<open>outlier.rs\<close>. Instances are shared between groups through reference-counted pointers, so they
  live in a heap, a list indexed by identity, and a group holds identities. A pick makes two passes
  over the instances while other threads may change them: the values the two passes read are an
  argument, a pair of heaps, equal when nothing interferes. The clock and the state of the thread's
  random generator are arguments.
\<close>

section \<open>Groups\<close>

type_synonym inst_heap = "UpstreamInstance list"

datatype HashKeySource = HeaderSource string | SourceIp

datatype HashInput = HashBytes bytes | HashIp IpAddr

fun hash_input :: "HashInput \<Rightarrow> u64" where
  "hash_input (HashBytes b) = hash64 b"
| "hash_input (HashIp (V4 a)) = hash64 (v4_octets a)"
| "hash_input (HashIp (V6 a)) = hash64 (v6_octets a)"

datatype LbState = LbRoundRobin | LbLeastRequest | LbMaglev "u16 list"

text \<open>Durations are in milliseconds.\<close>

record UpstreamGroup =
  g_name :: string
  g_health :: HealthConfig
  instances :: "nat list"
  request_timeout :: nat
  overall_timeout :: nat
  max_retries :: u64
  rr :: usize
  max_requests :: usize
  in_flight :: usize
  outlier_consecutive :: u32
  outlier_base_ejection :: nat
  outlier_max_ejection_percent :: u32
  lb :: LbState
  hash_key :: "HashKeySource option"

record Pick =
  pick_instance :: nat
  pick_load :: "nat option"

section \<open>Eligibility\<close>

definition outlier_enabled :: "UpstreamGroup \<Rightarrow> bool" where
  "outlier_enabled g \<longleftrightarrow> outlier_consecutive g > 0"

definition eligibility_ctx :: "UpstreamGroup \<Rightarrow> u64 \<Rightarrow> bool \<times> u64" where
  "eligibility_ctx g clock =
     (let check_outlier = outlier_enabled g in (check_outlier, if check_outlier then clock else 0))"

definition is_eligible :: "inst_heap \<Rightarrow> nat option \<Rightarrow> bool \<times> u64 \<Rightarrow> nat \<Rightarrow> bool" where
  "is_eligible h exclude ctx i \<longleftrightarrow>
     is_healthy (h ! i) \<and>
     (\<not> fst ctx \<or> \<not> is_outlier_ejected (h ! i) (snd ctx)) \<and>
     (case exclude of None \<Rightarrow> True | Some ex \<Rightarrow> i \<noteq> ex)"

definition has_eligible :: "UpstreamGroup \<Rightarrow> inst_heap \<Rightarrow> u64 \<Rightarrow> bool" where
  "has_eligible g h clock =
     (let (check_outlier, now_ms) = eligibility_ctx g clock in
      \<exists>i \<in> set (instances g). is_healthy (h ! i) \<and>
        (\<not> check_outlier \<or> \<not> is_outlier_ejected (h ! i) now_ms))"

section \<open>Round robin\<close>

text \<open>What one pick reads: the clock, and the instances in its first and its second pass.\<close>

record view =
  v_clock :: u64
  v_first :: inst_heap
  v_second :: inst_heap

fun rr_scan :: "(nat \<Rightarrow> bool) \<Rightarrow> nat \<Rightarrow> nat \<Rightarrow> nat option \<Rightarrow> nat list \<Rightarrow> nat option" where
  "rr_scan el tgt seen lst [] = lst"
| "rr_scan el tgt seen lst (i # is) =
     (if el i
      then if seen = tgt then Some i else rr_scan el tgt (seen + 1) (Some i) is
      else rr_scan el tgt seen lst is)"

definition unmetered_pick :: "nat \<Rightarrow> Pick" where
  "unmetered_pick i = \<lparr>pick_instance = i, pick_load = None\<rparr>"

definition round_robin_pick ::
  "UpstreamGroup \<Rightarrow> view \<Rightarrow> nat option \<Rightarrow> UpstreamGroup \<times> Pick option" where
  "round_robin_pick g v exclude =
     (let ctx = eligibility_ctx g (v_clock v);
          eligible = length (filter (is_eligible (v_first v) exclude ctx) (instances g))
      in if eligible = 0 then (g, None)
         else
           let tgt = unat (rr g) mod eligible;
               g = g\<lparr>rr := rr g + 1\<rparr>
           in (g, map_option unmetered_pick
                    (rr_scan (is_eligible (v_second v) exclude ctx) tgt 0 None (instances g))))"

section \<open>Least request\<close>

definition lower_load :: "UpstreamInstance \<Rightarrow> UpstreamInstance \<Rightarrow> bool" where
  "lower_load a b =
     (let la = (ucast (inst_in_flight a) + 1) * (ucast (inst_weight b) :: 128 word);
          lb = (ucast (inst_in_flight b) + 1) * (ucast (inst_weight a) :: 128 word)
      in la \<le> lb)"

definition metered_pick :: "inst_heap \<Rightarrow> nat \<Rightarrow> inst_heap \<times> Pick" where
  "metered_pick h i =
     (h[i := (h ! i)\<lparr>inst_in_flight := inst_in_flight (h ! i) + 1\<rparr>],
      \<lparr>pick_instance = i, pick_load = Some i\<rparr>)"

definition drop_pick :: "inst_heap \<Rightarrow> Pick \<Rightarrow> inst_heap" where
  "drop_pick h p =
     (case pick_load p of
        None \<Rightarrow> h
      | Some i \<Rightarrow> h[i := (h ! i)\<lparr>inst_in_flight := inst_in_flight (h ! i) - 1\<rparr>])"

fun capture ::
  "(nat \<Rightarrow> bool) \<Rightarrow> u32 \<Rightarrow> u32 \<Rightarrow> u32 \<Rightarrow> nat option \<times> nat option \<Rightarrow> nat list \<Rightarrow> nat option \<times> nat option" where
  "capture el lo hi seen cand [] = cand"
| "capture el lo hi seen (cand_lo, cand_hi) (i # is) =
     (if el i
      then capture el lo hi (seen + 1)
             (if seen = lo then Some i else cand_lo, if seen = hi then Some i else cand_hi) is
      else capture el lo hi seen (cand_lo, cand_hi) is)"

text \<open>The heap \<open>h\<close> is the one the chosen instance's load is incremented in. The outer option is
  termination of the rejection sampling; a returned pick comes with the heap and the generator.\<close>

definition least_request_pick ::
  "UpstreamGroup \<Rightarrow> view \<Rightarrow> inst_heap \<Rightarrow> u64 \<Rightarrow> nat option \<Rightarrow> (inst_heap \<times> u64 \<times> Pick option) option" where
  "least_request_pick g v h s exclude =
     (let ctx = eligibility_ctx g (v_clock v);
          el = is_eligible (v_second v) exclude ctx;
          n = length (filter (is_eligible (v_first v) exclude ctx) (instances g))
      in if n = 0 then Some (h, s, None)
         else if n = 1
         then (case find el (instances g) of
                 None \<Rightarrow> Some (h, s, None)
               | Some only \<Rightarrow> (let (h', p) = metered_pick h only in Some (h', s, Some p)))
         else
           (case two_distinct_below (of_nat n) s of
              None \<Rightarrow> None
            | Some (s', a, b) \<Rightarrow>
                (let (lo, hi) = (if a \<le> b then (a, b) else (b, a)) in
                 case capture el lo hi 0 (None, None) (instances g) of
                   (Some x, Some y) \<Rightarrow>
                     (let chosen = (if lower_load (v_second v ! x) (v_second v ! y) then x else y);
                          (h', p) = metered_pick h chosen
                      in Some (h', s', Some p))
                 | _ \<Rightarrow> Some (h, s', None))))"

section \<open>Maglev, and the dispatch\<close>

text \<open>The affinity check reads the clock and the heap once, before the round-robin fallback.\<close>

definition maglev_primary ::
  "UpstreamGroup \<Rightarrow> u16 list \<Rightarrow> u64 \<times> inst_heap \<Rightarrow> nat option \<Rightarrow> HashInput option \<Rightarrow> nat option" where
  "maglev_primary g tab aff exclude key =
     (case key of
        None \<Rightarrow> None
      | Some k \<Rightarrow>
          (let ctx = eligibility_ctx g (fst aff) in
           case maglev_lookup tab (hash_input k) of
             None \<Rightarrow> None
           | Some idx \<Rightarrow>
               if idx < length (instances g) \<and> is_eligible (snd aff) exclude ctx (instances g ! idx)
               then Some (instances g ! idx) else None))"

definition maglev_pick ::
  "UpstreamGroup \<Rightarrow> u16 list \<Rightarrow> u64 \<times> inst_heap \<Rightarrow> view \<Rightarrow> nat option \<Rightarrow> HashInput option \<Rightarrow>
   UpstreamGroup \<times> Pick option" where
  "maglev_pick g tab aff v exclude key =
     (case maglev_primary g tab aff exclude key of
        Some i \<Rightarrow> (g, Some (unmetered_pick i))
      | None \<Rightarrow> round_robin_pick g v exclude)"

definition pick_dispatch ::
  "UpstreamGroup \<Rightarrow> u64 \<times> inst_heap \<Rightarrow> view \<Rightarrow> inst_heap \<Rightarrow> u64 \<Rightarrow> nat option \<Rightarrow> HashInput option \<Rightarrow>
   (UpstreamGroup \<times> inst_heap \<times> u64 \<times> Pick option) option" where
  "pick_dispatch g aff v h s exclude key =
     (case lb g of
        LbRoundRobin \<Rightarrow> (let (g', p) = round_robin_pick g v exclude in Some (g', h, s, p))
      | LbLeastRequest \<Rightarrow>
          map_option (\<lambda>(h', s', p). (g, h', s', p)) (least_request_pick g v h s exclude)
      | LbMaglev tab \<Rightarrow> (let (g', p) = maglev_pick g tab aff v exclude key in Some (g', h, s, p)))"

text \<open>A pick that nothing interferes with.\<close>

definition pick_quiet ::
  "UpstreamGroup \<Rightarrow> inst_heap \<Rightarrow> u64 \<Rightarrow> u64 \<Rightarrow> nat option \<Rightarrow> HashInput option \<Rightarrow>
   (UpstreamGroup \<times> inst_heap \<times> u64 \<times> Pick option) option" where
  "pick_quiet g h clock s exclude key =
     pick_dispatch g (clock, h) \<lparr>v_clock = clock, v_first = h, v_second = h\<rparr> h s exclude key"

definition pick :: "UpstreamGroup \<Rightarrow> inst_heap \<Rightarrow> u64 \<Rightarrow> u64 \<Rightarrow> HashInput option \<Rightarrow>
   (UpstreamGroup \<times> inst_heap \<times> u64 \<times> Pick option) option" where
  "pick g h clock s key = pick_quiet g h clock s None key"

definition pick_excluding :: "UpstreamGroup \<Rightarrow> inst_heap \<Rightarrow> u64 \<Rightarrow> u64 \<Rightarrow> nat \<Rightarrow> HashInput option \<Rightarrow>
   (UpstreamGroup \<times> inst_heap \<times> u64 \<times> Pick option) option" where
  "pick_excluding g h clock s exclude key = pick_quiet g h clock s (Some exclude) key"

section \<open>Outlier detection\<close>

definition OUTLIER_BACKOFF_SHIFT_CAP :: u32 where "OUTLIER_BACKOFF_SHIFT_CAP = 6"

text \<open>A \<open>Duration\<close> has 64 bits of seconds, so in milliseconds it is below this bound.\<close>

definition DURATION_MAX_MS :: nat where "DURATION_MAX_MS = 2 ^ 64 * 1000 - 1"

definition ejection_window :: "nat \<Rightarrow> u32 \<Rightarrow> u64" where
  "ejection_window base_ms eject_count =
     (let shift = min eject_count OUTLIER_BACKOFF_SHIFT_CAP;
          window = min (base_ms * unat (push_bit (unat shift) 1 :: u32)) DURATION_MAX_MS
      in of_nat window)"

definition set_counters :: "inst_heap \<Rightarrow> nat \<Rightarrow> HealthCounters \<Rightarrow> inst_heap" where
  "set_counters h i c = h[i := (h ! i)\<lparr>counters := c\<rparr>]"

definition ejected_now :: "UpstreamGroup \<Rightarrow> inst_heap \<Rightarrow> u64 \<Rightarrow> nat list" where
  "ejected_now g h now_ms = filter (\<lambda>i. is_outlier_ejected (h ! i) now_ms) (instances g)"

definition record_outcome ::
  "UpstreamGroup \<Rightarrow> inst_heap \<Rightarrow> u64 \<Rightarrow> nat \<Rightarrow> bool \<Rightarrow> inst_heap \<times> bool" where
  "record_outcome g h now_ms i gateway_failure =
     (if \<not> outlier_enabled g then (h, False)
      else if poisoned (h ! i) then (h, False)
      else
        let c = counters (h ! i) in
        if \<not> gateway_failure
        then (set_counters h i (c\<lparr>consecutive_gw_fail := 0, outlier_eject_count := 0\<rparr>), False)
        else
          let c = c\<lparr>consecutive_gw_fail := sat_add (consecutive_gw_fail c) 1\<rparr> in
          if consecutive_gw_fail c < outlier_consecutive g then (set_counters h i c, False)
          else
            let already_ejected = of_nat (length (ejected_now g h now_ms)) :: usize in
            if (already_ejected + 1) * 100
               > ucast (outlier_max_ejection_percent g) * (of_nat (length (instances g)) :: usize)
            then (set_counters h i (c\<lparr>consecutive_gw_fail := 0\<rparr>), False)
            else
              let h = h[i := (h ! i)\<lparr>outlier_ejected_until_ms :=
                         sat_add now_ms (ejection_window (outlier_base_ejection g) (outlier_eject_count c))\<rparr>]
              in (set_counters h i (c\<lparr>outlier_eject_count := sat_add (outlier_eject_count c) 1,
                                       consecutive_gw_fail := 0\<rparr>), True))"

section \<open>The passes over the instances\<close>

lemma rr_scan_eq:
  "seen \<le> tgt \<Longrightarrow> rr_scan el tgt seen lst is =
     (let es = filter el is in
      if tgt - seen < length es then Some (es ! (tgt - seen))
      else if es = [] then lst else Some (List.last es))"
proof (induction "is" arbitrary: seen lst)
  case (Cons i "is")
  show ?case
  proof (cases "el i \<and> seen \<noteq> tgt")
    case True
    then have "Suc seen \<le> tgt" "tgt - seen = Suc (tgt - Suc seen)" using Cons.prems by auto
    then show ?thesis using Cons.IH [of "Suc seen" "Some i"] True by (simp add: Let_def)
  qed (use Cons in \<open>auto simp: Let_def\<close>)
qed simp

lemma capture_eq:
  assumes "unat seen + length (filter el is) < 2 ^ 32"
  shows "capture el lo hi seen cand is =
     (let es = filter el is;
          at = (\<lambda>k c. if seen \<le> k \<and> unat k - unat seen < length es
                      then Some (es ! (unat k - unat seen)) else c)
      in (at lo (fst cand), at hi (snd cand)))"
  using assms
proof (induction "is" arbitrary: seen cand)
  case Nil
  then show ?case by (cases cand) simp
next
  case (Cons i "is")
  obtain cl ch where cand: "cand = (cl, ch)" by (cases cand)
  show ?case
  proof (cases "el i")
    case False
    then show ?thesis using Cons unfolding cand by (simp add: Let_def)
  next
    case True
    then have lt: "unat seen + Suc (length (filter el is)) < 2 ^ 32" using Cons.prems by simp
    have suc: "unat (seen + 1) = Suc (unat seen)" using lt by (simp add: unat_word_ariths)
    have idx: "(i # es) ! (unat k - unat seen) = (if k = seen then i else es ! (unat k - Suc (unat seen)))"
      if "seen \<le> k" for k and es
      using that by (cases "k = seen") (auto simp: word_le_nat_alt nth_Cons' word_unat_eq_iff)
    have key: "(if seen + 1 \<le> k \<and> unat k - unat (seen + 1) < length es then Some (es ! (unat k - unat (seen + 1)))
                else if seen = k then Some i else c) =
               (if seen \<le> k \<and> unat k - unat seen < length (i # es)
                then Some ((i # es) ! (unat k - unat seen)) else c)" for k c and es
      using idx [of k es] by (auto simp: suc word_le_nat_alt word_unat_eq_iff)
    let ?c = "(if seen = lo then Some i else cl, if seen = hi then Some i else ch)"
    have step: "capture el lo hi seen (cl, ch) (i # is) = capture el lo hi (seen + 1) ?c is"
      using True by simp
    have "unat (seen + 1) + length (filter el is) < 2 ^ 32" using lt suc by simp
    from Cons.IH [OF this, of ?c] show ?thesis
      by (simp only: step key Let_def fst_conv snd_conv filter.simps True if_True cand)
  qed
qed

lemma capture_sound:
  assumes "capture el lo hi seen (None, None) is = (Some x, Some y)"
  shows "x \<in> set is \<and> el x \<and> y \<in> set is \<and> el y"
proof -
  have "fst (capture el lo hi seen c is) \<in> {fst c} \<union> Some ` (set is \<inter> Collect el) \<and>
        snd (capture el lo hi seen c is) \<in> {snd c} \<union> Some ` (set is \<inter> Collect el)" for c
  proof (induction "is" arbitrary: seen c)
    case (Cons i "is")
    show ?case
      using Cons.IH [of "seen + 1" "(if seen = lo then Some i else fst c, if seen = hi then Some i else snd c)"]
        Cons.IH [of seen c]
      by (cases c) (auto split: if_splits)
  qed simp
  from this [of "(None, None)"] assms show ?thesis by auto
qed

lemma rr_pick_quiet:
  assumes "v_second v = v_first v"
  shows "round_robin_pick g v ex =
     (let es = filter (is_eligible (v_first v) ex (eligibility_ctx g (v_clock v))) (instances g)
      in if es = [] then (g, None)
         else (g\<lparr>rr := rr g + 1\<rparr>, Some (unmetered_pick (es ! (unat (rr g) mod length es)))))"
  using rr_scan_eq [of 0] assms by (simp add: round_robin_pick_def Let_def)

lemma rr_pick_sound:
  assumes "round_robin_pick g v ex = (g', Some p)"
  shows "pick_instance p \<in> set (instances g) \<and>
    is_eligible (v_second v) ex (eligibility_ctx g (v_clock v)) (pick_instance p) \<and> pick_load p = None"
proof -
  let ?el = "is_eligible (v_second v) ex (eligibility_ctx g (v_clock v))"
  obtain tgt i where i: "rr_scan ?el tgt 0 None (instances g) = Some i" "p = unmetered_pick i"
    using assms by (auto simp: round_robin_pick_def Let_def split: if_splits)
  have "i \<in> set (filter ?el (instances g))"
    using i(1) rr_scan_eq [of 0 tgt ?el None "instances g"]
    by (auto simp: Let_def simp del: set_filter split: if_splits intro: nth_mem last_in_set)
  then show ?thesis by (simp add: i(2) unmetered_pick_def)
qed

lemma metered_fields [simp]:
  "pick_instance (snd (metered_pick h i)) = i" "pick_load (snd (metered_pick h i)) = Some i"
  "fst (metered_pick h i) = h[i := (h ! i)\<lparr>inst_in_flight := inst_in_flight (h ! i) + 1\<rparr>]"
  by (simp_all add: metered_pick_def)

lemma lr_pick_sound:
  assumes "least_request_pick g v h s ex = Some (h', s', Some p)"
  shows "pick_instance p \<in> set (instances g) \<and>
    is_eligible (v_second v) ex (eligibility_ctx g (v_clock v)) (pick_instance p) \<and>
    (h', p) = metered_pick h (pick_instance p)"
  using assms unfolding least_request_pick_def
  by (auto simp: Let_def metered_pick_def find_Some_iff dest!: capture_sound
      split: if_splits option.splits prod.splits)

lemma lr_none_heap: "least_request_pick g v h s ex = Some (h', s', None) \<Longrightarrow> h' = h"
  unfolding least_request_pick_def
  by (auto simp: Let_def metered_pick_def split: if_splits option.splits prod.splits)

lemma maglev_primary_sound:
  "maglev_primary g tab aff ex key = Some i \<Longrightarrow>
     i \<in> set (instances g) \<and> is_eligible (snd aff) ex (eligibility_ctx g (fst aff)) i"
  by (auto simp: maglev_primary_def Let_def split: option.splits if_splits)

lemma eligibleD:
  "is_eligible h ex (eligibility_ctx g clock) i \<Longrightarrow>
     is_healthy (h ! i) \<and> (outlier_enabled g \<longrightarrow> \<not> is_outlier_ejected (h ! i) clock) \<and> ex \<noteq> Some i"
  by (auto simp: is_eligible_def eligibility_ctx_def Let_def)

lemma has_eligible_iff:
  "has_eligible g h clock \<longleftrightarrow>
     (\<exists>i \<in> set (instances g). is_eligible h None (eligibility_ctx g clock) i)"
  by (simp add: has_eligible_def is_eligible_def eligibility_ctx_def Let_def)

text \<open>How a pick of each kind ends.\<close>

lemma dispatch_sound:
  assumes "pick_dispatch g aff v h s ex key = Some (g', h', s', Some p)"
  shows "pick_instance p \<in> set (instances g) \<and>
    (\<exists>(clock, heap) \<in> {aff, (v_clock v, v_second v)}.
       is_eligible heap ex (eligibility_ctx g clock) (pick_instance p)) \<and>
    (pick_load p = None \<and> h' = h \<or> (h', p) = metered_pick h (pick_instance p))"
proof (cases "lb g")
  case LbRoundRobin
  then show ?thesis
    using assms rr_pick_sound [of g v ex g' p]
    by (auto simp: pick_dispatch_def split: prod.splits)
next
  case LbLeastRequest
  then show ?thesis
    using assms lr_pick_sound [of g v h s ex h' s' p] by (auto simp: pick_dispatch_def)
next
  case (LbMaglev tab)
  then have mp: "maglev_pick g tab aff v ex key = (g', Some p)" "h' = h"
    using assms by (auto simp: pick_dispatch_def split: prod.splits)
  show ?thesis
  proof (cases "maglev_primary g tab aff ex key")
    case None
    then show ?thesis using mp rr_pick_sound [of g v ex g' p] by (auto simp: maglev_pick_def)
  next
    case (Some i)
    then show ?thesis
      using mp maglev_primary_sound [OF Some] by (cases aff) (auto simp: maglev_pick_def unmetered_pick_def)
  qed
qed

lemma dispatch_none_heap:
  assumes "pick_dispatch g aff v h s ex key = Some (g', h', s', None)"
  shows "h' = h"
  using assms lr_none_heap [of g v h s ex h' s']
  by (auto simp: pick_dispatch_def split: LbState.splits prod.splits)

text \<open>A quiet least-request pick with at least two eligible instances compares two of them.\<close>

lemma lr_quiet_two:
  assumes len: "length (instances g) < 2 ^ 32" and dist: "distinct (instances g)"
    and v: "v_second v = v_first v"
    and el: "el = is_eligible (v_first v) ex (eligibility_ctx g (v_clock v))"
    and two: "2 \<le> length (filter el (instances g))"
  shows "\<exists>s' x y. x \<noteq> y \<and> {x, y} \<subseteq> set (filter el (instances g)) \<and>
     least_request_pick g v h s ex =
       (let c = (if lower_load (v_second v ! x) (v_second v ! y) then x else y);
            (h', p) = metered_pick h c
        in Some (h', s', Some p))"
proof -
  let ?es = "filter el (instances g)"
  let ?n = "of_nat (length ?es) :: u32"
  have le: "length ?es < 2 ^ 32" using len length_filter_le [of el "instances g"] by linarith
  then have n: "unat ?n = length ?es" by (simp add: unat_of_nat)
  then have "2 \<le> ?n" using two by (simp add: word_le_nat_alt)
  then obtain s' a b where ab: "two_distinct_below ?n s = Some (s', a, b)" "a < ?n" "b < ?n" "a \<noteq> b"
    using two_distinct_sample by blast
  define lo hi where "lo = min a b" and "hi = max a b"
  have pair: "(if a \<le> b then (a, b) else (b, a)) = (lo, hi)" by (simp add: lo_def hi_def min_def max_def)
  have lt: "unat lo < length ?es" "unat hi < length ?es" "unat lo \<noteq> unat hi"
    using ab n by (auto simp: lo_def hi_def min_def max_def word_less_nat_alt word_unat_eq_iff)
  have cap: "capture el lo hi 0 (None, None) (instances g) = (Some (?es ! unat lo), Some (?es ! unat hi))"
    using capture_eq [of 0 el "instances g" lo hi "(None, None)"] le lt by (simp add: Let_def)
  have "distinct ?es" using dist by simp
  then have ne: "?es ! unat lo \<noteq> ?es ! unat hi" using lt nth_eq_iff_index_eq by blast
  have mem: "{?es ! unat lo, ?es ! unat hi} \<subseteq> set ?es" using lt nth_mem by blast
  have n01: "length ?es \<noteq> 0" "length ?es \<noteq> 1" using two by auto
  have "least_request_pick g v h s ex =
       (let c = (if lower_load (v_second v ! (?es ! unat lo)) (v_second v ! (?es ! unat hi))
                 then ?es ! unat lo else ?es ! unat hi);
            (h', p) = metered_pick h c
        in Some (h', s', Some p))"
    unfolding least_request_pick_def Let_def v el [symmetric] if_not_P [OF n01(1)] if_not_P [OF n01(2)]
      ab(1) option.case prod.case pair cap by (rule refl)
  with ne mem show ?thesis by blast
qed

lemma lr_quiet_one:
  assumes one: "length (filter (is_eligible (v_first v) ex (eligibility_ctx g (v_clock v))) (instances g)) = 1"
    and i: "find (is_eligible (v_second v) ex (eligibility_ctx g (v_clock v))) (instances g) = Some i"
  shows "least_request_pick g v h s ex = (let (h', p) = metered_pick h i in Some (h', s, Some p))"
proof -
  from one have ne: "length (filter (is_eligible (v_first v) ex (eligibility_ctx g (v_clock v))) (instances g)) \<noteq> 0"
    by linarith
  show ?thesis
    unfolding least_request_pick_def Let_def if_not_P [OF ne] if_P [OF one] i option.case by (rule refl)
qed

lemma dispatch_returns:
  assumes "length (instances g) < 2 ^ 32"
  shows "\<exists>r. pick_dispatch g aff v h s ex key = Some r"
proof -
  let ?n = "length (filter (is_eligible (v_first v) ex (eligibility_ctx g (v_clock v))) (instances g))"
  have "?n < 2 ^ 32" using assms length_filter_le le_less_trans by blast
  then have "\<exists>s' i j. two_distinct_below (of_nat ?n) s = Some (s', i, j)" if "?n \<noteq> 0" "?n \<noteq> 1"
    using two_distinct_sample [of "of_nat ?n" s] that by (auto simp: word_le_nat_alt unat_of_nat)
  then have "\<exists>r. least_request_pick g v h s ex = Some r"
    unfolding least_request_pick_def Let_def
    by (cases "?n = 0"; cases "?n = 1") (auto split: option.splits prod.splits)
  then show ?thesis
    by (auto simp: pick_dispatch_def split: LbState.splits prod.splits)
qed

lemma lower_load_nat:
  "lower_load a b \<longleftrightarrow>
     (unat (inst_in_flight a) + 1) * unat (inst_weight b) \<le> (unat (inst_in_flight b) + 1) * unat (inst_weight a)"
proof -
  have prod: "unat ((ucast (x :: usize) + 1) * (ucast (y :: u32) :: 128 word)) = (unat x + 1) * unat y" for x y
  proof -
    have x: "unat x + 1 \<le> 2 ^ 64" using unsigned_less [of x, where 'a = nat] by simp
    have y: "unat y < 2 ^ 32" using unsigned_less [of y, where 'a = nat] by simp
    have "(unat x + 1) * unat y \<le> 2 ^ 64 * 2 ^ 32" using x y by (intro mult_mono) simp_all
    then have "(unat x + 1) * unat y < 2 ^ 128" by (rule le_less_trans) simp
    moreover have "unat (ucast x + 1 :: 128 word) = unat x + 1"
      using x by (simp add: unat_word_ariths unat_ucast_up)
    ultimately show ?thesis by (simp add: unat_word_ariths(2) unat_ucast_up)
  qed
  show ?thesis by (simp add: lower_load_def Let_def word_le_nat_alt prod)
qed

section \<open>Properties of the pick\<close>

text \<open>C24: a pick never hands out an instance that may not serve. Whatever other threads do to the
  instances while the pick runs, a returned instance belongs to the group, is not the one excluded by
  a retry, and was healthy and not outlier-ejected when the pick read it.\<close>

theorem pick_sound:
  assumes "pick_dispatch g aff v h s ex key = Some (g', h', s', Some p)"
  shows "pick_instance p \<in> set (instances g) \<and> ex \<noteq> Some (pick_instance p) \<and>
    (\<exists>(clock, heap) \<in> {aff, (v_clock v, v_second v)}.
       is_healthy (heap ! pick_instance p) \<and>
       (outlier_enabled g \<longrightarrow> \<not> is_outlier_ejected (heap ! pick_instance p) clock))"
  using dispatch_sound [OF assms] eligibleD by blast

definition example_group :: UpstreamGroup where
  "example_group = \<lparr>g_name = ''u'', g_health = HealthConfig_default ''/hz'', instances = [0, 1, 2],
     request_timeout = 30000, overall_timeout = 0, max_retries = 1, rr = 0, max_requests = 0,
     in_flight = 0, outlier_consecutive = 2, outlier_base_ejection = 1000,
     outlier_max_ejection_percent = 50, lb = LbRoundRobin, hash_key = None\<rparr>"

definition example_heap :: inst_heap where
  "example_heap = map (\<lambda>i. i\<lparr>healthy := True\<rparr>)
     (replicate 3 (UpstreamInstance_new ''a:1'' 1 (HealthConfig_default ''/hz'')))"

lemma example_pick:
  "pick_quiet example_group example_heap 5 0 (Some 0) None =
     Some (example_group\<lparr>rr := 1\<rparr>, example_heap, 0, Some (unmetered_pick 1))"
  by (simp add: pick_quiet_def pick_dispatch_def round_robin_pick_def example_group_def
      example_heap_def is_eligible_def is_healthy_def is_outlier_ejected_def eligibility_ctx_def
      outlier_enabled_def UpstreamInstance_new_def numeral_3_eq_3)

theorem pick_sound_witness:
  "(1 :: nat) \<in> set (instances example_group)"
  using pick_sound [OF example_pick [unfolded pick_quiet_def]] by (simp add: unmetered_pick_def)



section \<open>Fairness of round robin\<close>

text \<open>The instances that successive round-robin picks return while the instances do not change.\<close>

fun rr_picks :: "nat \<Rightarrow> UpstreamGroup \<Rightarrow> inst_heap \<Rightarrow> u64 \<Rightarrow> nat option \<Rightarrow> nat list" where
  "rr_picks 0 g h clock ex = []"
| "rr_picks (Suc m) g h clock ex =
     (let (g', p) = round_robin_pick g \<lparr>v_clock = clock, v_first = h, v_second = h\<rparr> ex
      in (case p of None \<Rightarrow> [] | Some q \<Rightarrow> [pick_instance q]) @ rr_picks m g' h clock ex)"

lemma rr_picks_eq:
  assumes "filter (is_eligible h ex (eligibility_ctx g clock)) (instances g) = es" "es \<noteq> []"
    and "unat (rr g) + m \<le> 2 ^ 64"
  shows "rr_picks m g h clock ex = map (\<lambda>j. es ! ((unat (rr g) + j) mod length es)) [0..<m]"
  using assms
proof (induction m arbitrary: g)
  case (Suc m)
  let ?g = "g\<lparr>rr := rr g + 1\<rparr>"
  have es: "filter (is_eligible h ex (eligibility_ctx ?g clock)) (instances ?g) = es"
    using Suc.prems(1) by (simp add: eligibility_ctx_def outlier_enabled_def)
  have tail: "rr_picks m ?g h clock ex = map (\<lambda>j. es ! ((unat (rr g) + Suc j) mod length es)) [0..<m]"
  proof (cases m)
    case (Suc m')
    then have "unat (rr g + 1) = unat (rr g) + 1" using Suc.prems(3) by (simp add: unat_word_ariths)
    then show ?thesis using Suc.IH [OF es Suc.prems(2)] Suc.prems(3) by simp
  qed simp
  have "rr_picks (Suc m) g h clock ex = es ! (unat (rr g) mod length es) # rr_picks m ?g h clock ex"
    using Suc.prems(1,2) by (simp add: rr_pick_quiet Let_def unmetered_pick_def)
  also have "\<dots> = map (\<lambda>j. es ! ((unat (rr g) + j) mod length es)) (0 # map Suc [0..<m])"
    by (simp add: tail)
  also have "0 # map Suc [0..<m] = [0..<Suc m]" by (simp add: map_Suc_upt upt_conv_Cons)
  finally show ?case .
qed simp

lemma count_list_distinct: "distinct xs \<Longrightarrow> x \<in> set xs \<Longrightarrow> count_list xs x = 1"
  by (induction xs) (auto simp: count_list_0_iff)

lemma cyclic_count:
  assumes "distinct es" "x \<in> set es"
  shows "m div length es \<le> count_list (map (\<lambda>j. es ! ((r + j) mod length es)) [0..<m]) x \<and>
         count_list (map (\<lambda>j. es ! ((r + j) mod length es)) [0..<m]) x \<le> m div length es + 1"
proof (induction m arbitrary: r rule: less_induct)
  case (less m)
  let ?n = "length es" and ?f = "\<lambda>r m. map (\<lambda>j. es ! ((r + j) mod length es)) [0..<m]"
  have n: "0 < ?n" using assms(2) by (cases es) auto
  have full: "count_list (?f r ?n) x = 1" for r
    using count_list_rotate [of r es x] assms by (simp add: rotate_conv_map count_list_distinct)
  have shift: "?f r m = ?f r k @ ?f (r + k) (m - k)" if "k \<le> m" for k m r
  proof -
    have "[0..<m] = [0..<k] @ map (\<lambda>j. j + k) [0..<m - k]"
      using that upt_add_eq_append [of 0 k "m - k"] by (simp add: map_add_upt)
    then show ?thesis by (simp add: o_def ac_simps)
  qed
  show ?case
  proof (cases "?n \<le> m")
    case True
    then have "m - ?n < m" using n by linarith
    from less.IH [OF this, of "r + ?n"] show ?thesis
      using shift [OF True, of r] full [of r] True n by (simp add: le_div_geq)
  next
    case False
    then have "count_list (?f r ?n) x = count_list (?f r m) x + count_list (?f (r + m) (?n - m)) x"
      using shift [of m ?n r] by simp
    then show ?thesis using full [of r] False by simp
  qed
qed

text \<open>round robin is even over the eligible set, degraded or not. As long as eligibility does not
  change and the 64-bit cursor does not wrap, any \<open>m\<close> consecutive picks return only eligible
  instances, and each of the \<open>n\<close> eligible instances \<open>m div n\<close> times or once more; an ejected
  neighbour's share is never absorbed by the next instance.\<close>

theorem round_robin_even:
  assumes "distinct (instances g)" "unat (rr g) + m \<le> 2 ^ 64"
    and "i \<in> set es" "es = filter (is_eligible h ex (eligibility_ctx g clock)) (instances g)"
  shows "length (rr_picks m g h clock ex) = m \<and> set (rr_picks m g h clock ex) \<subseteq> set es \<and>
    m div length es \<le> count_list (rr_picks m g h clock ex) i \<and>
    count_list (rr_picks m g h clock ex) i \<le> m div length es + 1"
proof -
  have ne: "es \<noteq> []" using assms(3) by (cases es) auto
  have di: "distinct es" using assms(1) by (simp add: assms(4))
  from ne have "0 < length es" by simp
  then show ?thesis
    using rr_picks_eq [OF assms(4) [symmetric] ne assms(2)] cyclic_count [OF di assms(3)]
    by (auto intro: nth_mem)
qed

theorem round_robin_even_witness:
  "length (rr_picks 600 example_group example_heap 5 (Some 1)) = 600 \<and>
   300 \<le> count_list (rr_picks 600 example_group example_heap 5 (Some 1)) 0"
proof -
  have es: "[0, 2] = filter (is_eligible example_heap (Some 1) (eligibility_ctx example_group 5)) (instances example_group)"
    by (simp add: example_group_def example_heap_def is_eligible_def is_healthy_def
        is_outlier_ejected_def eligibility_ctx_def outlier_enabled_def UpstreamInstance_new_def
        numeral_3_eq_3 numeral_2_eq_2)
  have "distinct (instances example_group)" "unat (rr example_group) + 600 \<le> 2 ^ 64"
    by (simp_all add: example_group_def)
  from round_robin_even [OF this _ es, of 0] show ?thesis by (simp add: numeral_2_eq_2 [symmetric])
qed

section \<open>Least request\<close>

text \<open>power of two choices. With at least two eligible instances, and nothing interfering, the
  chosen instance is compared with another eligible one and its load ratio
  \<open>(in_flight + 1) / weight\<close>, over the exact integers, is no higher; so an instance that is strictly
  busier than every other eligible one is never chosen. The choice is metered: exactly the chosen
  instance's count goes up by one.\<close>

theorem least_request_avoids_busiest:
  assumes "length (instances g) < 2 ^ 32" "distinct (instances g)"
    and "2 \<le> length (filter (is_eligible h ex (eligibility_ctx g clock)) (instances g))"
  shows "\<exists>s' i. least_request_pick g \<lparr>v_clock = clock, v_first = h, v_second = h\<rparr> h s ex =
      Some (h[i := (h ! i)\<lparr>inst_in_flight := inst_in_flight (h ! i) + 1\<rparr>], s',
            Some \<lparr>pick_instance = i, pick_load = Some i\<rparr>) \<and>
    (\<exists>j. {i, j} \<subseteq> set (filter (is_eligible h ex (eligibility_ctx g clock)) (instances g)) \<and> j \<noteq> i \<and>
       (unat (inst_in_flight (h ! i)) + 1) * unat (inst_weight (h ! j))
         \<le> (unat (inst_in_flight (h ! j)) + 1) * unat (inst_weight (h ! i)))"
proof -
  let ?v = "\<lparr>v_clock = clock, v_first = h, v_second = h\<rparr>"
  let ?es = "filter (is_eligible h ex (eligibility_ctx g clock)) (instances g)"
  obtain s' x y where xy: "x \<noteq> y" "{x, y} \<subseteq> set ?es"
    "least_request_pick g ?v h s ex =
       (let c = (if lower_load (h ! x) (h ! y) then x else y); (h', p) = metered_pick h c
        in Some (h', s', Some p))"
    using lr_quiet_two [OF assms(1,2), of ?v _ ex h s] assms(3) by auto
  define i j where "i = (if lower_load (h ! x) (h ! y) then x else y)"
    and "j = (if lower_load (h ! x) (h ! y) then y else x)"
  have "(unat (inst_in_flight (h ! i)) + 1) * unat (inst_weight (h ! j))
         \<le> (unat (inst_in_flight (h ! j)) + 1) * unat (inst_weight (h ! i))"
    by (cases "lower_load (h ! x) (h ! y)") (auto simp: i_def j_def lower_load_nat)
  moreover have "{i, j} \<subseteq> set ?es" "j \<noteq> i" using xy(1,2) by (auto simp: i_def j_def)
  moreover have "least_request_pick g ?v h s ex =
      Some (h[i := (h ! i)\<lparr>inst_in_flight := inst_in_flight (h ! i) + 1\<rparr>], s',
            Some \<lparr>pick_instance = i, pick_load = Some i\<rparr>)"
    using xy(3) by (simp add: i_def [symmetric] Let_def metered_pick_def)
  ultimately show ?thesis by blast
qed

theorem least_request_avoids_busiest_witness:
  "\<exists>s' i h'. least_request_pick example_group
     \<lparr>v_clock = 5, v_first = example_heap, v_second = example_heap\<rparr> example_heap 0 None =
       Some (h', s', Some \<lparr>pick_instance = i, pick_load = Some i\<rparr>)"
proof -
  have es: "filter (is_eligible example_heap None (eligibility_ctx example_group 5)) (instances example_group) = [0, 1, 2]"
    by (simp add: example_group_def example_heap_def is_eligible_def is_healthy_def
        is_outlier_ejected_def eligibility_ctx_def outlier_enabled_def UpstreamInstance_new_def
        numeral_3_eq_3 numeral_2_eq_2)
  have g: "length (instances example_group) < 2 ^ 32" "distinct (instances example_group)"
    by (simp_all add: example_group_def)
  show ?thesis using least_request_avoids_busiest [OF g, of example_heap None 5 0] es by auto
qed

text \<open>Reading an updated list, also out of range.\<close>

lemma nth_upd: "xs[i := x] ! j = (if i = j \<and> i < length xs then x else xs ! j)"
  by (cases "i < length xs") (auto simp: nth_list_update list_update_beyond)

section \<open>Metering\<close>

text \<open>Everything that happens to the instances and to the picks handed out: a pick from any group that
  shares the heap, under any interference; the drop of a live pick; and the health and outlier
  transitions, which leave the counts of active requests alone.\<close>

inductive metered :: "inst_heap \<Rightarrow> Pick list \<Rightarrow> bool" where
  start: "\<forall>i<length h. inst_in_flight (h ! i) = 0 \<Longrightarrow> metered h []"
| picked: "metered h live \<Longrightarrow> set (instances g) \<subseteq> {..<length h} \<Longrightarrow>
    pick_dispatch g aff v h s ex key = Some (g', h', s', Some p) \<Longrightarrow> metered h' (p # live)"
| refused: "metered h live \<Longrightarrow> pick_dispatch g aff v h s ex key = Some (g', h', s', None) \<Longrightarrow>
    metered h' live"
| dropped: "metered h live \<Longrightarrow> p \<in> set live \<Longrightarrow> metered (drop_pick h p) (remove1 p live)"
| moved: "metered h live \<Longrightarrow> length h' = length h \<Longrightarrow>
    \<forall>i<length h. inst_in_flight (h' ! i) = inst_in_flight (h ! i) \<Longrightarrow> metered h' live"
| added: "metered h live \<Longrightarrow> inst_in_flight i = 0 \<Longrightarrow> metered (h @ [i]) live"

definition live_on :: "nat \<Rightarrow> Pick list \<Rightarrow> nat" where
  "live_on i live = length (filter (\<lambda>p. pick_load p = Some i) live)"

lemma live_on_simps [simp]:
  "live_on i [] = 0"
  "live_on i (p # live) = (if pick_load p = Some i then Suc (live_on i live) else live_on i live)"
  by (simp_all add: live_on_def)

lemma live_on_remove1:
  "p \<in> set live \<Longrightarrow> live_on i live = (if pick_load p = Some i then 1 else 0) + live_on i (remove1 p live)"
  by (induction live) auto

lemma metered_inv:
  "metered h live \<Longrightarrow> (\<forall>i<length h. inst_in_flight (h ! i) = of_nat (live_on i live)) \<and>
     (\<forall>i\<ge>length h. live_on i live = 0)"
proof (induction rule: metered.induct)
  case (picked h live g aff v s ex key g' h' s' p)
  let ?i = "pick_instance p"
  have i: "?i < length h" and load: "pick_load p = None \<and> h' = h \<or> (h', p) = metered_pick h ?i"
    using dispatch_sound [OF picked.hyps(3)] picked.hyps(2) by auto
  from load show ?case
  proof
    assume m: "(h', p) = metered_pick h ?i"
    have "h' = h[?i := (h ! ?i)\<lparr>inst_in_flight := inst_in_flight (h ! ?i) + 1\<rparr>]" "pick_load p = Some ?i"
      using arg_cong [OF m, of fst] arg_cong [OF m, of "\<lambda>x. pick_load (snd x)"] by (simp_all add: metered_pick_def)
    then show ?thesis using picked.IH i by (auto simp: nth_upd)
  qed (use picked.IH in auto)
next
  case (refused h live g aff v s ex key g' h' s')
  then show ?case using dispatch_none_heap by blast
next
  case (dropped h live p)
  have le: "live_on i (remove1 p live) \<le> live_on i live" for i
    using live_on_remove1 [OF dropped.hyps(2), of i] by simp
  have "inst_in_flight (drop_pick h p ! i) = of_nat (live_on i (remove1 p live))" if "i < length h" for i
    using dropped.IH that live_on_remove1 [OF dropped.hyps(2), of i]
    by (cases "pick_load p") (auto simp: drop_pick_def nth_upd)
  moreover have "length (drop_pick h p) = length h"
    by (simp add: drop_pick_def split: option.splits)
  ultimately show ?case using dropped.IH le by (metis le_zero_eq)
next
  case (added h live i)
  then show ?case by (auto simp: nth_append less_Suc_eq)
qed auto

text \<open>the load counts never leak. At every moment of every interleaving of picks, drops and health
  transitions, over any number of groups sharing the instances, an instance's active-request count is
  the number of live metered picks that hold it; once they are dropped it is back to zero.\<close>

theorem load_metering_exact:
  assumes "metered h live" "i < length h"
  shows "inst_in_flight (h ! i) = of_nat (length (filter (\<lambda>p. pick_load p = Some i) live)) \<and>
    (live = [] \<longrightarrow> inst_in_flight (h ! i) = 0)"
  using metered_inv [OF assms(1)] assms(2) by (auto simp: live_on_def)

lemma example_metered: "metered example_heap []"
  by (rule metered.start) (simp add: example_heap_def UpstreamInstance_new_def)

theorem load_metering_exact_witness: "inst_in_flight (example_heap ! 1) = 0"
  using load_metering_exact [OF example_metered, of 1] by (simp add: example_heap_def)

section \<open>Outlier detection\<close>

text \<open>A history of recorded outcomes: the clock, the instance, and whether it was a gateway failure.\<close>

type_synonym outcome = "u64 \<times> nat \<times> bool"

definition outcome_step :: "UpstreamGroup \<Rightarrow> outcome \<Rightarrow> inst_heap \<Rightarrow> inst_heap" where
  "outcome_step g = (\<lambda>(t, i, f) h. fst (record_outcome g h t i f))"

lemma record_outcome_cases:
  obtains (quiet) h' where "record_outcome g h t i f = (h', False)" "length h' = length h"
      "\<forall>j. outlier_ejected_until_ms (h' ! j) = outlier_ejected_until_ms (h ! j)"
      "\<forall>j. j \<noteq> i \<longrightarrow> h' ! j = h ! j"
      "f \<longrightarrow> unat (consecutive_gw_fail (counters (h' ! i))) \<le> unat (consecutive_gw_fail (counters (h ! i))) + 1"
      "\<not> f \<longrightarrow> outlier_enabled g \<longrightarrow> \<not> poisoned (h ! i) \<longrightarrow> i < length h \<longrightarrow> consecutive_gw_fail (counters (h' ! i)) = 0"
      "poisoned (h' ! i) = poisoned (h ! i)"
  | (eject) h' k where "record_outcome g h t i f = (h', True)" "length h' = length h" "f"
      "\<forall>j. j \<noteq> i \<longrightarrow> h' ! j = h ! j"
      "i < length h \<longrightarrow> outlier_ejected_until_ms (h' ! i) = sat_add t (ejection_window (outlier_base_ejection g) k)"
      "unat (outlier_consecutive g) \<le> unat (consecutive_gw_fail (counters (h ! i))) + 1"
      "i < length h \<longrightarrow> consecutive_gw_fail (counters (h' ! i)) = 0"
      "(of_nat (length (ejected_now g h t)) + 1) * 100
         \<le> ucast (outlier_max_ejection_percent g) * (of_nat (length (instances g)) :: usize)"
      "poisoned (h' ! i) = poisoned (h ! i)"
proof -
  let ?n = "unat (sat_add (consecutive_gw_fail (counters (h ! i))) 1)"
  have sat: "?n \<le> unat (consecutive_gw_fail (counters (h ! i))) + 1" by (simp add: unat_sat_add)
  note d = record_outcome_def set_counters_def Let_def
  consider (a) "\<not> outlier_enabled g \<or> poisoned (h ! i)" | (b) "outlier_enabled g" "\<not> poisoned (h ! i)" "\<not> f"
    | (c) "outlier_enabled g" "\<not> poisoned (h ! i)" f by blast
  then show ?thesis
  proof cases
    case a
    then show ?thesis by (intro quiet [of h]) (auto simp: d)
  next
    case b
    then show ?thesis
      by (intro quiet [of "fst (record_outcome g h t i f)"]) (auto simp: d nth_upd prod_eq_iff)
  next
    case c
    show ?thesis
    proof (cases "snd (record_outcome g h t i f)")
      case True
      then show ?thesis
        using c sat
        by (intro eject [of "fst (record_outcome g h t i f)" "outlier_eject_count (counters (h ! i))"])
          (auto simp: d nth_upd not_less word_less_nat_alt [where 'a = 32] prod_eq_iff split: if_splits)
    next
      case False
      then show ?thesis
        using c sat
        by (intro quiet [of "fst (record_outcome g h t i f)"])
          (auto simp: d nth_upd prod_eq_iff split: if_splits)
    qed
  qed
qed

text \<open>The number of instances ejected at a time, and that time only brings instances back.\<close>

lemma ejected_mono:
  assumes "t \<le> t'"
  shows "length (ejected_now g h t') \<le> length (ejected_now g h t)"
proof -
  have "length (filter (\<lambda>i. is_outlier_ejected (h ! i) t') is) \<le> length (filter (\<lambda>i. is_outlier_ejected (h ! i) t) is)" for "is"
    using assms by (induction "is") (auto simp: is_outlier_ejected_def)
  then show ?thesis by (simp add: ejected_now_def)
qed

lemma filter_length_one_more:
  assumes "distinct is" "\<forall>j\<in>set is. j \<noteq> i \<longrightarrow> P j = Q j"
  shows "length (filter P is) \<le> length (filter Q is) + 1"
proof (cases "i \<in> set is")
  case True
  then obtain as bs where sp: "is = as @ i # bs" by (auto simp: in_set_conv_decomp)
  then have "filter P as = filter Q as" "filter P bs = filter Q bs"
    using assms by (auto intro!: filter_cong)
  then show ?thesis by (simp add: sp)
next
  case False
  then have "filter P is = filter Q is" using assms(2) by (intro filter_cong) auto
  then show ?thesis by simp
qed

definition cap_ok :: "UpstreamGroup \<Rightarrow> inst_heap \<Rightarrow> u64 \<Rightarrow> bool" where
  "cap_ok g h t \<longleftrightarrow>
     length (ejected_now g h t) * 100 \<le> unat (outlier_max_ejection_percent g) * length (instances g)"

lemma record_outcome_cap:
  assumes "distinct (instances g)" "length (instances g) < 2 ^ 32" "cap_ok g h t"
  shows "cap_ok g (fst (record_outcome g h t i f)) t"
proof (cases rule: record_outcome_cases [where g = g and h = h and t = t and i = i and f = f])
  case (quiet h')
  then show ?thesis using assms(3) by (simp add: cap_ok_def ejected_now_def is_outlier_ejected_def)
next
  case (eject h' k)
  let ?e = "length (ejected_now g h t)" and ?n = "length (instances g)"
  have e: "?e < 2 ^ 32" using assms(2) by (simp add: ejected_now_def le_less_trans [OF length_filter_le])
  have "unat ((of_nat ?e + 1 :: usize) * 100) = (?e + 1) * 100"
    using e by (simp add: unat_word_ariths unat_of_nat)
  moreover have "unat (ucast (outlier_max_ejection_percent g) * (of_nat ?n :: usize)) =
      unat (outlier_max_ejection_percent g) * ?n"
  proof -
    have "unat (outlier_max_ejection_percent g) * ?n < 2 ^ 32 * 2 ^ 32"
      using assms(2) unsigned_less [of "outlier_max_ejection_percent g", where 'a = nat]
      by (intro mult_strict_mono) simp_all
    then show ?thesis using assms(2) by (simp add: unat_word_ariths(2) unat_of_nat unat_ucast_up)
  qed
  ultimately have "(?e + 1) * 100 \<le> unat (outlier_max_ejection_percent g) * ?n"
    using eject(8) by (simp only: word_le_nat_alt)
  moreover have "length (ejected_now g h' t) \<le> ?e + 1"
    unfolding ejected_now_def
    by (rule filter_length_one_more [OF assms(1), of i]) (simp add: eject(4))
  then have "length (ejected_now g h' t) * 100 \<le> (?e + 1) * 100" by (rule mult_le_mono1)
  ultimately show ?thesis by (simp only: cap_ok_def eject(1) fst_conv)
qed

fun times_sorted :: "u64 \<Rightarrow> outcome list \<Rightarrow> bool" where
  "times_sorted t [] = True"
| "times_sorted t ((t', _) # es) = (t \<le> t' \<and> times_sorted t' es)"

definition last_time :: "u64 \<Rightarrow> outcome list \<Rightarrow> u64" where
  "last_time t es = (if es = [] then t else fst (List.last es))"

lemma cap_run:
  assumes "distinct (instances g)" "length (instances g) < 2 ^ 32"
  shows "cap_ok g h t0 \<Longrightarrow> times_sorted t0 es \<Longrightarrow>
    cap_ok g (fold (outcome_step g) es h) (last_time t0 es)"
proof (induction es arbitrary: h t0)
  case (Cons e es)
  obtain t i f where e: "e = (t, i, f)" by (cases e)
  have "cap_ok g h t"
    using Cons.prems ejected_mono [of t0 t g h] by (auto simp: cap_ok_def e)
  from record_outcome_cap [OF assms this] have "cap_ok g (outcome_step g e h) t"
    by (simp add: outcome_step_def e)
  then show ?case
    using Cons.IH [of "outcome_step g e h" t] Cons.prems(2)
    by (cases es) (auto simp: last_time_def e)
qed (simp add: last_time_def)

text \<open>outlier detection never takes down the pool. However outcomes are recorded on a group, at
  times that do not run backwards and starting with nothing ejected, the instances ejected at any
  time from the last call on are at most \<open>max_ejection_percent\<close> of the group.\<close>

theorem outlier_cap:
  assumes "distinct (instances g)" "length (instances g) < 2 ^ 32"
    and "ejected_now g h t0 = []" "times_sorted t0 es" "last_time t0 es \<le> t"
  shows "length (ejected_now g (fold (outcome_step g) es h) t) * 100
     \<le> unat (outlier_max_ejection_percent g) * length (instances g)"
proof -
  have "cap_ok g h t0" using assms(3) by (simp add: cap_ok_def)
  from cap_run [OF assms(1,2) this assms(4)] show ?thesis
    using mult_le_mono1 [OF ejected_mono [OF assms(5)], of g "fold (outcome_step g) es h" 100]
    unfolding cap_ok_def by linarith
qed

lemma example_group_facts:
  "distinct (instances example_group)" "length (instances example_group) < 2 ^ 32"
  "ejected_now example_group example_heap 0 = []"
  by (simp_all add: example_group_def example_heap_def ejected_now_def is_outlier_ejected_def
      UpstreamInstance_new_def nth_Cons')

theorem outlier_cap_witness:
  "length (ejected_now example_group
     (fold (outcome_step example_group) [(7, 0, True), (7, 0, True), (8, 1, True), (9, 1, True)] example_heap) 9) \<le> 1"
  using outlier_cap [OF example_group_facts, of "[(7, 0, True), (7, 0, True), (8, 1, True), (9, 1, True)]" 9]
  by (simp add: last_time_def example_group_def)

lemma window_bound: "unat (ejection_window base k) \<le> 64 * base"
proof -
  have m: "unat (min k OUTLIER_BACKOFF_SHIFT_CAP) \<le> 6"
    by (simp add: unat_min OUTLIER_BACKOFF_SHIFT_CAP_def)
  define m where "m = unat (min k OUTLIER_BACKOFF_SHIFT_CAP)"
  have "unat (push_bit m (1 :: u32)) \<le> 2 ^ m"
    by (simp add: push_bit_eq_mult unsigned_take_bit_eq flip: take_bit_nat_def)
      (metis mod_less_eq_dividend of_nat_numeral of_nat_power unat_of_nat)
  also have "\<dots> \<le> (2 :: nat) ^ 6" using m by (intro power_increasing) (simp_all add: m_def)
  finally have "base * unat (push_bit m (1 :: u32)) \<le> base * 64" by simp
  moreover have "unat (of_nat w :: u64) \<le> w" for w by (simp add: unat_of_nat)
  ultimately show ?thesis
    unfolding ejection_window_def Let_def m_def [symmetric]
    by (meson le_trans min.cobounded1 order_trans le_refl mult.commute [THEN eq_refl])
qed

text \<open>every ejection ends. Sixty-four base windows after the last recorded outcome, at the latest,
  no instance of the group is ejected any more, with no probe and no traffic needed.\<close>

theorem outlier_recovers:
  assumes "set (instances g) \<subseteq> {..<length h}" "ejected_now g h t = []"
    and "\<forall>(t', i, f) \<in> set es. unat t' + 64 * outlier_base_ejection g \<le> unat t"
  shows "ejected_now g (fold (outcome_step g) es h) t = []"
  using assms
proof (induction es arbitrary: h)
  case (Cons e es)
  obtain t' i f where e: "e = (t', i, f)" by (cases e)
  have t': "unat t' + 64 * outlier_base_ejection g \<le> unat t" using Cons.prems(3) by (auto simp: e)
  have old: "\<forall>j\<in>set (instances g). outlier_ejected_until_ms (h ! j) \<le> t"
    using Cons.prems(2) by (auto simp: ejected_now_def is_outlier_ejected_def filter_empty_conv not_less)
  let ?h = "fst (record_outcome g h t' i f)"
  have "length ?h = length h \<and> (\<forall>j\<in>set (instances g). outlier_ejected_until_ms (?h ! j) \<le> t)"
  proof (cases rule: record_outcome_cases [where g = g and h = h and t = t' and i = i and f = f])
    case (quiet h')
    then show ?thesis using old by simp
  next
    case (eject h' k)
    have "unat (sat_add t' (ejection_window (outlier_base_ejection g) k)) \<le> unat t"
      using window_bound [of "outlier_base_ejection g" k] t' by (simp add: unat_sat_add)
    then have "outlier_ejected_until_ms (h' ! j) \<le> t" if "j \<in> set (instances g)" for j
      using eject(4,5) old that Cons.prems(1) by (cases "j = i") (auto simp: word_le_nat_alt)
    then show ?thesis using eject(1,2) by simp
  qed
  moreover from this have "ejected_now g ?h t = []"
    by (auto simp: ejected_now_def is_outlier_ejected_def filter_empty_conv not_less)
  ultimately show ?case
    using Cons.IH [of ?h] Cons.prems(1,3) by (simp add: outcome_step_def e)
qed simp

theorem outlier_recovers_witness:
  "ejected_now example_group (fold (outcome_step example_group) [(7, 0, True), (7, 0, True)] example_heap) 64007 = []"
  by (rule outlier_recovers)
    (simp_all add: example_group_def example_heap_def ejected_now_def is_outlier_ejected_def
      UpstreamInstance_new_def nth_Cons')

definition outcomes_of :: "nat \<Rightarrow> outcome list \<Rightarrow> bool list" where
  "outcomes_of i es = map (\<lambda>(t, j, f). f) (filter (\<lambda>(t, j, f). j = i) es)"

lemma streak_bound:
  assumes "outlier_enabled g" "i < length h" "consecutive_gw_fail (counters (h ! i)) = 0" "\<not> poisoned (h ! i)"
  shows "length (fold (outcome_step g) es h) = length h \<and> \<not> poisoned (fold (outcome_step g) es h ! i) \<and>
    unat (consecutive_gw_fail (counters (fold (outcome_step g) es h ! i)))
      \<le> length (takeWhile (\<lambda>b. b) (rev (outcomes_of i es)))"
proof (induction es rule: rev_induct)
  case Nil
  then show ?case using assms by (simp add: outcomes_of_def)
next
  case (snoc e es)
  obtain t j f where e: "e = (t, j, f)" by (cases e)
  let ?h = "fold (outcome_step g) es h"
  have st: "fold (outcome_step g) (es @ [e]) h = fst (record_outcome g ?h t j f)"
    by (simp add: outcome_step_def e)
  have os: "outcomes_of i (es @ [e]) = outcomes_of i es @ (if j = i then [f] else [])"
    by (simp add: outcomes_of_def e)
  show ?case
  proof (cases rule: record_outcome_cases [where g = g and h = ?h and t = t and i = j and f = f])
    case (quiet h')
    then show ?thesis
      unfolding st os using snoc.IH assms(1,2) by (cases "j = i"; cases f) auto
  next
    case (eject h' k)
    then show ?thesis
      unfolding st os using snoc.IH assms(1,2) by (cases "j = i") auto
  qed
qed

text \<open>only a streak ejects. An instance is ejected only by a gateway failure, and only when its last
  \<open>consecutive_gateway_failures\<close> outcomes were all gateway failures, whatever outcomes of other
  instances came between.\<close>

theorem outlier_needs_streak:
  assumes "i < length h" "consecutive_gw_fail (counters (h ! i)) = 0"
    and "snd (record_outcome g (fold (outcome_step g) es h) t i f)"
  shows "f \<and> 0 < unat (outlier_consecutive g) \<and>
    unat (outlier_consecutive g) \<le> length (takeWhile (\<lambda>b. b) (rev (outcomes_of i (es @ [(t, i, f)]))))"
proof -
  let ?h = "fold (outcome_step g) es h"
  have en: "outlier_enabled g" and np: "\<not> poisoned (?h ! i)"
    using assms(3) by (auto simp: record_outcome_def split: if_splits)
  have "poisoned (fold (outcome_step g) xs h ! i) = poisoned (h ! i)" for xs
  proof (induction xs rule: rev_induct)
    case (snoc e xs)
    obtain t' j f' where e: "e = (t', j, f')" by (cases e)
    show ?case
      using snoc
      by (cases rule: record_outcome_cases [where g = g and h = "fold (outcome_step g) xs h" and t = t' and i = j and f = f'])
        (cases "j = i"; simp add: outcome_step_def e)+
  qed simp
  then have np0: "\<not> poisoned (h ! i)" using np by simp
  note b = streak_bound [OF en assms(1,2) np0, of es]
  have f: f "unat (outlier_consecutive g) \<le> unat (consecutive_gw_fail (counters (?h ! i))) + 1"
    using assms(3)
    by (cases rule: record_outcome_cases [where g = g and h = ?h and t = t and i = i and f = f]; simp)+
  have "0 < unat (outlier_consecutive g)" using en by (simp add: outlier_enabled_def unat_gt_0 word_less_nat_alt)
  then show ?thesis using b f by (auto simp: outcomes_of_def)
qed

lemma example_eject:
  "snd (record_outcome (example_group\<lparr>outlier_max_ejection_percent := 100\<rparr>)
     (fold (outcome_step (example_group\<lparr>outlier_max_ejection_percent := 100\<rparr>)) [(7, 0, True)] example_heap) 8 0 True)"
  by (simp add: outcome_step_def record_outcome_def example_group_def example_heap_def outlier_enabled_def
      ejected_now_def is_outlier_ejected_def set_counters_def UpstreamInstance_new_def
      sat_add_def numeral_3_eq_3 word_less_nat_alt Let_def)

theorem outlier_needs_streak_witness:
  "2 \<le> length (takeWhile (\<lambda>b. b) (rev (outcomes_of 0 [(7, 0, True), (8, 0, True)])))"
  using outlier_needs_streak [OF _ _ example_eject]
  by (simp add: example_group_def example_heap_def UpstreamInstance_new_def)

end
