(* ===== verification/Breaker.thy ===== *)
theory Breaker
  imports Upstream
begin

text \<open>
  The circuit breaker of an upstream, \<open>control/src/upstream/circuit_breaker.rs\<close>: a lock-free
  cap on the requests in flight. Each atomic read-modify-write of the counter is one function, the
  code composes them sequentially, and a step relation interleaves the operations of any number of
  threads at those atomic steps.
\<close>

section \<open>Operations\<close>

text \<open>A permit holds the group it counts against, or nothing for an unlimited breaker.\<close>

record RequestPermit =
  counted :: bool

definition claim_slot :: "UpstreamGroup \<Rightarrow> UpstreamGroup \<times> usize" where
  "claim_slot g = (g\<lparr>in_flight := in_flight g + 1\<rparr>, in_flight g)"

definition settle_slot :: "UpstreamGroup \<Rightarrow> usize \<Rightarrow> UpstreamGroup \<times> RequestPermit option" where
  "settle_slot g prev =
     (if prev \<ge> max_requests g then (g\<lparr>in_flight := in_flight g - 1\<rparr>, None)
      else (g, Some \<lparr>counted = True\<rparr>))"

definition try_acquire :: "UpstreamGroup \<Rightarrow> UpstreamGroup \<times> RequestPermit option" where
  "try_acquire g =
     (if max_requests g = 0 then (g, Some \<lparr>counted = False\<rparr>)
      else let (g, prev) = claim_slot g in settle_slot g prev)"

definition drop_permit :: "UpstreamGroup \<Rightarrow> RequestPermit \<Rightarrow> UpstreamGroup" where
  "drop_permit g p = (if counted p then g\<lparr>in_flight := in_flight g - 1\<rparr> else g)"

section \<open>Interleaved threads\<close>

text \<open>A thread is outside the breaker, between its increment and its decision, or holds a permit.\<close>

datatype breaker_pc = Idle | Claimed usize | Holding RequestPermit

inductive breaker_step ::
  "UpstreamGroup \<times> breaker_pc list \<Rightarrow> UpstreamGroup \<times> breaker_pc list \<Rightarrow> bool" where
  unlimited: "\<lbrakk>t < length pcs; pcs ! t = Idle; max_requests g = 0\<rbrakk> \<Longrightarrow>
     breaker_step (g, pcs) (g, pcs[t := Holding \<lparr>counted = False\<rparr>])"
| claim: "\<lbrakk>t < length pcs; pcs ! t = Idle; max_requests g \<noteq> 0; claim_slot g = (g', prev)\<rbrakk> \<Longrightarrow>
     breaker_step (g, pcs) (g', pcs[t := Claimed prev])"
| settle: "\<lbrakk>t < length pcs; pcs ! t = Claimed prev; settle_slot g prev = (g', r)\<rbrakk> \<Longrightarrow>
     breaker_step (g, pcs) (g', pcs[t := (case r of None \<Rightarrow> Idle | Some p \<Rightarrow> Holding p)])"
| release: "\<lbrakk>t < length pcs; pcs ! t = Holding p\<rbrakk> \<Longrightarrow>
     breaker_step (g, pcs) (drop_permit g p, pcs[t := Idle])"

inductive breaker_reach ::
  "usize \<Rightarrow> nat \<Rightarrow> UpstreamGroup \<times> breaker_pc list \<Rightarrow> bool" for cap n where
  init: "\<lbrakk>max_requests g = cap; in_flight g = 0\<rbrakk> \<Longrightarrow> breaker_reach cap n (g, replicate n Idle)"
| step: "\<lbrakk>breaker_reach cap n s; breaker_step s s'\<rbrakk> \<Longrightarrow> breaker_reach cap n s'"

definition busy :: "breaker_pc list \<Rightarrow> nat" where
  "busy pcs = length (filter (\<lambda>pc. pc \<noteq> Idle) pcs)"

fun wins :: "usize \<Rightarrow> breaker_pc \<Rightarrow> bool" where
  "wins cap Idle = False"
| "wins cap (Claimed prev) = (prev < cap)"
| "wins cap (Holding p) = True"

definition permits :: "breaker_pc list \<Rightarrow> nat" where
  "permits pcs = length (filter (\<lambda>pc. \<exists>p. pc = Holding p) pcs)"

text \<open>The counter counts the threads inside; those inside that hold a permit or are bound to get one
  fit under the cap.\<close>

definition breaker_inv :: "usize \<Rightarrow> nat \<Rightarrow> UpstreamGroup \<times> breaker_pc list \<Rightarrow> bool" where
  "breaker_inv cap n = (\<lambda>(g, pcs).
     max_requests g = cap \<and> length pcs = n \<and> in_flight g = of_nat (busy pcs) \<and>
     length (filter (wins cap) pcs) \<le> unat cap \<and>
     (\<forall>p. Holding p \<in> set pcs \<longrightarrow> counted p))"

lemma filter_update:
  "t < length xs \<Longrightarrow> length (filter P (xs[t := x])) + of_bool (P (xs ! t)) = length (filter P xs) + of_bool (P x)"
proof (induction xs arbitrary: t)
  case (Cons y ys)
  then show ?case by (cases t) auto
qed simp

lemma wins_le_busy: "length (filter (wins cap) pcs) \<le> busy pcs"
  unfolding busy_def by (induction pcs) (auto split: if_splits)

lemma set_updateD: "x \<in> set (xs[t := y]) \<Longrightarrow> x = y \<or> x \<in> set xs"
  using set_update_subset_insert by fastforce

lemma breaker_step_inv:
  assumes "breaker_step s s'" "breaker_inv cap n s" "cap \<noteq> 0" "n < 2 ^ 64"
  shows "breaker_inv cap n s'"
  using assms(1,2)
proof (induction rule: breaker_step.induct)
  case (unlimited t pcs g)
  then show ?case using assms(3) by (simp add: breaker_inv_def)
next
  case (claim t pcs g g' prev)
  have g': "g' = g\<lparr>in_flight := in_flight g + 1\<rparr>" "prev = in_flight g"
    using claim.hyps(4) by (auto simp: claim_slot_def)
  have inv: "max_requests g = cap" "length pcs = n" "in_flight g = of_nat (busy pcs)"
    "length (filter (wins cap) pcs) \<le> unat cap" "\<forall>p. Holding p \<in> set pcs \<longrightarrow> counted p"
    using claim.prems by (simp_all add: breaker_inv_def)
  have b: "busy (pcs[t := Claimed prev]) = busy pcs + 1"
    using filter_update [OF claim.hyps(1), of "\<lambda>pc. pc \<noteq> Idle" "Claimed prev"] claim.hyps(2)
    by (simp add: busy_def)
  have "busy pcs \<le> n" unfolding busy_def using inv(2) by (metis length_filter_le)
  then have "unat prev = busy pcs" using g'(2) inv(3) assms(4) by (simp add: unat_of_nat)
  then have "length (filter (wins cap) (pcs[t := Claimed prev])) \<le> unat cap"
    using filter_update [OF claim.hyps(1), of "wins cap" "Claimed prev"] claim.hyps(2) inv(4)
      wins_le_busy [of cap pcs] by (cases "prev < cap") (auto simp: word_less_nat_alt)
  moreover have "\<forall>p. Holding p \<in> set (pcs[t := Claimed prev]) \<longrightarrow> counted p"
    using inv(5) by (blast dest: set_updateD)
  ultimately show ?case using inv b g' by (simp add: breaker_inv_def)
next
  case (settle t pcs prev g g' r)
  have inv: "max_requests g = cap" "length pcs = n" "in_flight g = of_nat (busy pcs)"
    "length (filter (wins cap) pcs) \<le> unat cap" "\<forall>p. Holding p \<in> set pcs \<longrightarrow> counted p"
    using settle.prems by (simp_all add: breaker_inv_def)
  show ?case
  proof (cases "prev \<ge> cap")
    case True
    then have r: "r = None" "g' = g\<lparr>in_flight := in_flight g - 1\<rparr>"
      using settle.hyps(3) inv(1) by (simp_all add: settle_slot_def)
    have "busy pcs = busy (pcs[t := Idle]) + 1"
      using filter_update [OF settle.hyps(1), of "\<lambda>pc. pc \<noteq> Idle" Idle] settle.hyps(2)
      by (simp add: busy_def)
    moreover have "length (filter (wins cap) (pcs[t := Idle])) \<le> unat cap"
      using filter_update [OF settle.hyps(1), of "wins cap" Idle] inv(4) by simp
    ultimately show ?thesis using inv r by (auto simp: breaker_inv_def dest: set_updateD)
  next
    case False
    then have r: "r = Some \<lparr>counted = True\<rparr>" "g' = g"
      using settle.hyps(3) inv(1) by (simp_all add: settle_slot_def)
    have "busy (pcs[t := Holding \<lparr>counted = True\<rparr>]) = busy pcs"
      using filter_update [OF settle.hyps(1), of "\<lambda>pc. pc \<noteq> Idle" "Holding \<lparr>counted = True\<rparr>"] settle.hyps(2)
      by (simp add: busy_def)
    moreover have "length (filter (wins cap) (pcs[t := Holding \<lparr>counted = True\<rparr>])) \<le> unat cap"
      using filter_update [OF settle.hyps(1), of "wins cap" "Holding \<lparr>counted = True\<rparr>"] settle.hyps(2) inv(4) False
      by (simp add: not_le)
    ultimately show ?thesis using inv r by (auto simp: breaker_inv_def dest: set_updateD)
  qed
next
  case (release t pcs p g)
  have inv: "max_requests g = cap" "length pcs = n" "in_flight g = of_nat (busy pcs)"
    "length (filter (wins cap) pcs) \<le> unat cap" "\<forall>p. Holding p \<in> set pcs \<longrightarrow> counted p"
    using release.prems by (simp_all add: breaker_inv_def)
  have "counted p" using inv(5) release.hyps nth_mem by metis
  moreover have "busy pcs = busy (pcs[t := Idle]) + 1"
    using filter_update [OF release.hyps(1), of "\<lambda>pc. pc \<noteq> Idle" Idle] release.hyps(2)
    by (simp add: busy_def)
  moreover have "length (filter (wins cap) (pcs[t := Idle])) \<le> unat cap"
    using filter_update [OF release.hyps(1), of "wins cap" Idle] inv(4) by simp
  ultimately show ?case using inv by (auto simp: breaker_inv_def drop_permit_def dest: set_updateD)
qed

lemma breaker_reach_inv:
  "breaker_reach cap n s \<Longrightarrow> cap \<noteq> 0 \<Longrightarrow> n < 2 ^ 64 \<Longrightarrow> breaker_inv cap n s"
proof (induction rule: breaker_reach.induct)
  case (init g)
  then show ?case by (simp add: breaker_inv_def busy_def filter_replicate)
next
  case (step s s')
  then show ?case using breaker_step_inv by blast
qed

section \<open>Properties\<close>

text \<open>C23: the cap holds under every interleaving. With any number of threads entering and leaving a
  limited breaker, each interleaved at every atomic operation, at most \<open>max_requests\<close> permits are
  held at once, the counter is exactly the number of threads inside, and so it is back to zero when
  all have left.\<close>

theorem breaker_cap:
  assumes "breaker_reach cap n (g, pcs)" "cap \<noteq> 0" "n < 2 ^ 64"
  shows "permits pcs \<le> unat cap \<and> unat (in_flight g) = busy pcs \<and> (set pcs \<subseteq> {Idle} \<longrightarrow> in_flight g = 0)"
proof -
  have inv: "length pcs = n" "in_flight g = of_nat (busy pcs)" "length (filter (wins cap) pcs) \<le> unat cap"
    using breaker_reach_inv [OF assms] by (simp_all add: breaker_inv_def)
  have "permits pcs \<le> length (filter (wins cap) pcs)"
    unfolding permits_def by (induction pcs) auto
  moreover have "busy pcs \<le> n" unfolding busy_def using inv(1) by (metis length_filter_le)
  moreover have "busy pcs = 0" if "set pcs \<subseteq> {Idle}" using that by (auto simp: busy_def filter_empty_conv)
  ultimately show ?thesis using inv assms(3) by (auto simp: unat_of_nat)
qed

lemma breaker_first:
  "breaker_reach 1 3 (example_group\<lparr>max_requests := 1\<rparr>, [Idle, Idle, Idle])"
  using breaker_reach.init [of "example_group\<lparr>max_requests := 1\<rparr>" 1 3]
  by (simp add: example_group_def numeral_3_eq_3)

theorem breaker_cap_witness: "permits [Idle, Idle, Idle] \<le> unat (1 :: usize)"
  using breaker_cap [OF breaker_first] by simp

text \<open>when the breaker sheds. An acquisition that nothing interrupts is refused exactly when at
  least \<open>max_requests\<close> threads are inside, a refused one leaves the counter as it was, and a granted
  permit gives its slot back when it is dropped.\<close>

theorem breaker_sheds:
  assumes "breaker_reach cap n (g, pcs)" "cap \<noteq> 0" "n < 2 ^ 64"
  shows "(snd (try_acquire g) = None \<longleftrightarrow> unat cap \<le> busy pcs) \<and>
    (snd (try_acquire g) = None \<longrightarrow> fst (try_acquire g) = g) \<and>
    (\<forall>p. snd (try_acquire g) = Some p \<longrightarrow> drop_permit (fst (try_acquire g)) p = g)"
proof -
  have inv: "max_requests g = cap" "unat (in_flight g) = busy pcs"
    using breaker_reach_inv [OF assms] assms(3) length_filter_le [of "\<lambda>pc. pc \<noteq> Idle" pcs]
    by (auto simp: breaker_inv_def busy_def unat_of_nat)
  then show ?thesis
    using assms(2)
    by (auto simp: try_acquire_def claim_slot_def settle_slot_def drop_permit_def word_le_nat_alt)
qed

theorem breaker_sheds_witness:
  "snd (try_acquire (example_group\<lparr>max_requests := 1\<rparr>)) \<noteq> None"
  using breaker_sheds [OF breaker_first] by (auto simp: busy_def)

text \<open>A refusal does not mean that the cap is taken by permits. A thread between its increment and
  its back-out counts as inside, so a reachable state exists where no permit is held and an
  acquisition is still refused.\<close>

theorem breaker_transient_shed:
  "\<exists>g pcs. breaker_reach 1 3 (g, pcs) \<and> permits pcs = 0 \<and> snd (try_acquire g) = None"
proof -
  let ?g = "\<lambda>k. example_group\<lparr>max_requests := 1, in_flight := k\<rparr>"
  let ?P = "Holding \<lparr>counted = True\<rparr>"
  have 0: "breaker_reach 1 3 (?g 0, [Idle, Idle, Idle])"
    using breaker_first by (simp add: example_group_def)
  have 1: "breaker_reach 1 3 (?g 1, [Claimed 0, Idle, Idle])"
    using breaker_reach.step [OF 0 breaker_step.claim [of 0]] by (simp add: claim_slot_def)
  have 2: "breaker_reach 1 3 (?g 1, [?P, Idle, Idle])"
    using breaker_reach.step [OF 1 breaker_step.settle [of 0]] by (simp add: settle_slot_def)
  have 3: "breaker_reach 1 3 (?g 2, [?P, Claimed 1, Idle])"
    using breaker_reach.step [OF 2 breaker_step.claim [of 1]] by (simp add: claim_slot_def)
  have 4: "breaker_reach 1 3 (?g 1, [Idle, Claimed 1, Idle])"
    using breaker_reach.step [OF 3 breaker_step.release [of 0]] by (simp add: drop_permit_def)
  have "permits [Idle, Claimed 1, Idle] = 0" by (simp add: permits_def)
  moreover have "snd (try_acquire (?g 1)) = None"
    by (simp add: try_acquire_def claim_slot_def settle_slot_def)
  ultimately show ?thesis using 4 by blast
qed

end
