(* ===== verification/Registry.thy ===== *)
theory Registry
  imports Breaker Strings
begin

text \<open>
  The live registry of upstream groups, \<open>control/src/upstream/registry.rs\<close>, which survives a
  reload. Groups and instances are shared through reference-counted pointers with the routes of
  earlier configurations, so both live in heaps that only grow; the registry maps a name to the
  identity of its current group. The outer option of \<open>reconcile\<close> is termination: it is \<open>None\<close>
  only if the fill of a Maglev table would not end.
\<close>

section \<open>Operations\<close>

record UpstreamRegistry =
  insts :: inst_heap
  group_heap :: "UpstreamGroup list"
  groups :: "string \<Rightarrow> nat option"
  reg_poisoned :: bool

definition UpstreamRegistry_new :: UpstreamRegistry where
  "UpstreamRegistry_new = \<lparr>insts = [], group_heap = [], groups = (\<lambda>_. None), reg_poisoned = False\<rparr>"

fun check_upstreams :: "string list \<Rightarrow> Upstream list \<Rightarrow> ControlError option" where
  "check_upstreams seen [] = None"
| "check_upstreams seen (up # ups) =
     (if addresses up = [] then Some (EmptyUpstreamAddresses (up_name up))
      else if up_name up \<in> set seen then Some (DuplicateUpstream (up_name up))
      else case validate_lb up of
             Inl reason \<Rightarrow> Some (InvalidUpstreamLb (up_name up) reason)
           | Inr _ \<Rightarrow> check_upstreams (up_name up # seen) ups)"

definition find_instance :: "UpstreamGroup option \<Rightarrow> inst_heap \<Rightarrow> AddressSpec \<Rightarrow> nat option" where
  "find_instance prev h spec =
     (case prev of
        None \<Rightarrow> None
      | Some g \<Rightarrow>
          find (\<lambda>i. inst_address (h ! i) = spec_address spec \<and> inst_weight (h ! i) = spec_weight spec)
            (instances g))"

fun build_instances ::
  "UpstreamGroup option \<Rightarrow> HealthConfig \<Rightarrow> inst_heap \<Rightarrow> AddressSpec list \<Rightarrow> inst_heap \<times> nat list" where
  "build_instances prev health h [] = (h, [])"
| "build_instances prev health h (spec # specs) =
     (let (h, i) =
        (case find_instance prev h spec of
           Some i \<Rightarrow> (h, i)
         | None \<Rightarrow> (h @ [UpstreamInstance_new (spec_address spec) (spec_weight spec) health], length h));
          (h, is) = build_instances prev health h specs
      in (h, i # is))"

definition build_lb :: "Upstream \<Rightarrow> inst_heap \<Rightarrow> nat list \<Rightarrow> LbState option" where
  "build_lb up h is =
     (case lb_algorithm up of
        RoundRobin \<Rightarrow> Some LbRoundRobin
      | LeastRequest \<Rightarrow> Some LbLeastRequest
      | Maglev \<Rightarrow>
          (let entries = map (\<lambda>i. (addr_bytes (inst_address (h ! i)), inst_weight (h ! i))) is;
               m = unat (case up_hash up of None \<Rightarrow> 65537 | Some hash \<Rightarrow> table_size hash)
           in map_option LbMaglev (maglev_build entries m)))"

definition build_hash_key :: "Upstream \<Rightarrow> HashKeySource option" where
  "build_hash_key up =
     map_option (\<lambda>hash. case hash_key_kind hash of
         HeaderKey \<Rightarrow> HeaderSource (ascii_lower (case hash_header hash of None \<Rightarrow> [] | Some n \<Rightarrow> n))
       | SourceIpKey \<Rightarrow> SourceIp) (up_hash up)"

definition build_group :: "UpstreamRegistry \<Rightarrow> inst_heap \<Rightarrow> Upstream \<Rightarrow> (inst_heap \<times> UpstreamGroup) option" where
  "build_group reg h up =
     (let prev_any = map_option (\<lambda>k. group_heap reg ! k) (groups reg (up_name up));
          prev = (case prev_any of
                    None \<Rightarrow> None
                  | Some g \<Rightarrow> if g_health g = up_health up then Some g else None);
          (h, is) = build_instances prev (up_health up) h (addresses up)
      in case build_lb up h is of
           None \<Rightarrow> None
         | Some lbs \<Rightarrow>
             Some (h, \<lparr>g_name = up_name up,
                g_health = up_health up,
                instances = is,
                request_timeout = unat (request_timeout_ms up),
                overall_timeout = unat (overall_timeout_ms up),
                max_retries = up_max_retries up,
                rr = (case prev_any of None \<Rightarrow> 0 | Some g \<Rightarrow> rr g),
                max_requests = ucast (cb_max_requests (circuit_breaker up)),
                in_flight = 0,
                outlier_consecutive = consecutive_gateway_failures (outlier_detection up),
                outlier_base_ejection = unat (base_ejection_time_ms (outlier_detection up)),
                outlier_max_ejection_percent = max_ejection_percent (outlier_detection up),
                lb = lbs,
                hash_key = build_hash_key up\<rparr>))"

text \<open>The loop over the upstreams: the heaps grow, and the next map is collected beside the old one.\<close>

fun build_groups ::
  "UpstreamRegistry \<Rightarrow> inst_heap \<times> UpstreamGroup list \<times> (string \<Rightarrow> nat option) \<Rightarrow> Upstream list \<Rightarrow>
   (inst_heap \<times> UpstreamGroup list \<times> (string \<Rightarrow> nat option)) option" where
  "build_groups reg acc [] = Some acc"
| "build_groups reg (h, gs, newmap) (up # ups) =
     (case build_group reg h up of
        None \<Rightarrow> None
      | Some (h, g) \<Rightarrow> build_groups reg (h, gs @ [g], newmap(up_name up \<mapsto> length gs)) ups)"

definition reconcile ::
  "UpstreamRegistry \<Rightarrow> Upstream list \<Rightarrow> (UpstreamRegistry \<times> (ControlError + unit)) option" where
  "reconcile reg ups =
     (case check_upstreams [] ups of
        Some e \<Rightarrow> Some (reg, Inl e)
      | None \<Rightarrow>
          if reg_poisoned reg then Some (reg, Inl UpstreamRegistryPoisoned)
          else (case build_groups reg (insts reg, group_heap reg, \<lambda>_. None) ups of
                  None \<Rightarrow> None
                | Some (h, gs, newmap) \<Rightarrow>
                    Some (reg\<lparr>insts := h, group_heap := gs, groups := newmap\<rparr>, Inr ())))"

definition group :: "UpstreamRegistry \<Rightarrow> string \<Rightarrow> nat option" where
  "group reg name = (if reg_poisoned reg then None else groups reg name)"

definition all_groups :: "UpstreamRegistry \<Rightarrow> nat set" where
  "all_groups reg = (if reg_poisoned reg then {} else ran (groups reg))"

section \<open>Building the instances\<close>

text \<open>Identities held by groups are allocated.\<close>

definition registry_ok :: "UpstreamRegistry \<Rightarrow> bool" where
  "registry_ok reg \<longleftrightarrow>
     (\<forall>n k. groups reg n = Some k \<longrightarrow> k < length (group_heap reg)) \<and>
     (\<forall>g \<in> set (group_heap reg). set (instances g) \<subseteq> {..<length (insts reg)})"

lemma registry_new_ok: "registry_ok UpstreamRegistry_new"
  by (simp add: registry_ok_def UpstreamRegistry_new_def)

definition prev_allocated :: "UpstreamGroup option \<Rightarrow> inst_heap \<Rightarrow> bool" where
  "prev_allocated prev h \<longleftrightarrow> (\<forall>g. prev = Some g \<longrightarrow> set (instances g) \<subseteq> {..<length h})"

lemma find_instance_extend:
  assumes "prev_allocated prev h"
  shows "find_instance prev (h @ ext) spec = find_instance prev h spec"
proof (cases prev)
  case (Some g)
  then have "\<forall>i\<in>set (instances g). (h @ ext) ! i = h ! i"
    using assms by (auto simp: prev_allocated_def nth_append)
  then show ?thesis by (auto simp: find_instance_def Some intro!: find_cong)
qed (simp add: find_instance_def)

lemma find_instance_Some:
  assumes "find_instance prev h spec = Some i" "prev_allocated prev h"
  shows "i < length h \<and> inst_address (h ! i) = spec_address spec \<and> inst_weight (h ! i) = spec_weight spec"
  using assms
  by (fastforce simp: find_instance_def prev_allocated_def find_Some_iff split: option.splits intro: nth_mem)

text \<open>What the instance at one position is: the previous one where address and weight are unchanged,
  a fresh one otherwise.\<close>

definition instance_for ::
  "UpstreamGroup option \<Rightarrow> HealthConfig \<Rightarrow> inst_heap \<Rightarrow> inst_heap \<Rightarrow> AddressSpec \<Rightarrow> nat \<Rightarrow> bool" where
  "instance_for prev health h h' spec i \<longleftrightarrow> i < length h' \<and>
     (case find_instance prev h spec of
        Some j \<Rightarrow> i = j
      | None \<Rightarrow> length h \<le> i \<and> h' ! i = UpstreamInstance_new (spec_address spec) (spec_weight spec) health)"

lemma build_instances_ok:
  assumes "prev_allocated prev h0"
  shows "build_instances prev health (h0 @ e) specs = (h', is) \<Longrightarrow>
    \<exists>ext. h' = h0 @ e @ ext \<and> list_all2 (instance_for prev health h0 h') specs is \<and>
      (distinct (map (\<lambda>s. (spec_address s, spec_weight s)) specs) \<longrightarrow>
         distinct is) \<and>
      set is \<inter> {length h0..<length h0 + length e} = {}"
proof (induction specs arbitrary: e h' "is")
  case (Cons spec specs)
  note fe = find_instance_extend [OF assms]
  show ?case
  proof (cases "find_instance prev h0 spec")
    case (Some i)
    obtain is' where is': "build_instances prev health (h0 @ e) specs = (h', is')" "is = i # is'"
      using Cons.prems by (auto simp: fe Some split: prod.splits)
    obtain ext where ext: "h' = h0 @ e @ ext" "list_all2 (instance_for prev health h0 h') specs is'"
      "distinct (map (\<lambda>s. (spec_address s, spec_weight s)) specs) \<longrightarrow> distinct is'"
      "set is' \<inter> {length h0..<length h0 + length e} = {}"
      using Cons.IH [OF is'(1)] by blast
    have i: "i < length h0" "inst_address (h0 ! i) = spec_address spec" "inst_weight (h0 ! i) = spec_weight spec"
      using find_instance_Some [OF Some assms] by auto
    have "i \<notin> set is'" if "distinct (map (\<lambda>s. (spec_address s, spec_weight s)) (spec # specs))"
    proof
      assume "i \<in> set is'"
      then obtain s where s: "s \<in> set specs" "instance_for prev health h0 h' s i"
        using ext(2) by (metis in_set_conv_nth list_all2_conv_all_nth)
      then have "find_instance prev h0 s = Some i"
        using i(1) by (auto simp: instance_for_def split: option.splits)
      from find_instance_Some [OF this assms] i s(1) that show False by (auto simp: image_iff)
    qed
    moreover have "instance_for prev health h0 h' spec i" using i(1) by (simp add: instance_for_def Some ext(1))
    ultimately show ?thesis using ext i(1) by (auto simp: is'(2) intro!: exI [of _ ext])
  next
    case None
    let ?n = "UpstreamInstance_new (spec_address spec) (spec_weight spec) health"
    obtain is' where is': "build_instances prev health (h0 @ (e @ [?n])) specs = (h', is')"
      "is = (length h0 + length e) # is'"
      using Cons.prems by (auto simp: fe None split: prod.splits)
    obtain ext where ext: "h' = h0 @ (e @ [?n]) @ ext" "list_all2 (instance_for prev health h0 h') specs is'"
      "distinct (map (\<lambda>s. (spec_address s, spec_weight s)) specs) \<longrightarrow> distinct is'"
      "set is' \<inter> {length h0..<length h0 + length (e @ [?n])} = {}"
      using Cons.IH [OF is'(1)] by blast
    have "length h0 + length e \<notin> set is'" using ext(4) by auto
    moreover have "instance_for prev health h0 h' spec (length h0 + length e)"
      by (simp add: instance_for_def None ext(1) nth_append)
    ultimately show ?thesis
      using ext by (auto simp: is'(2) intro!: exI [of _ "?n # ext"])
  qed
qed simp

lemma instance_for_fields:
  assumes "instance_for prev health h (h @ ext) spec i" "prev_allocated prev h" "spec_weight spec \<noteq> 0"
  shows "inst_address ((h @ ext) ! i) = spec_address spec \<and> inst_weight ((h @ ext) ! i) = spec_weight spec"
proof (cases "find_instance prev h spec")
  case None
  moreover have "max (spec_weight spec) 1 = spec_weight spec"
    using assms(3) by (intro max_absorb1) (simp add: word_le_nat_alt unat_gt_0 Suc_le_eq)
  ultimately show ?thesis using assms(1) by (simp add: instance_for_def UpstreamInstance_new_def)
next
  case (Some j)
  then show ?thesis
    using assms(1) find_instance_Some [OF Some assms(2)] by (simp add: instance_for_def nth_append)
qed

lemma instance_for_extend:
  "instance_for prev health h h' spec i \<Longrightarrow> instance_for prev health h (h' @ ext) spec i"
  by (auto simp: instance_for_def nth_append split: option.splits)

lemma validate_lb_weights:
  "validate_lb up = Inr () \<Longrightarrow> \<forall>a\<in>set (addresses up). spec_weight a \<noteq> 0"
  by (auto simp: validate_lb_def check_weights_None split: option.splits)

lemma build_lb_ok:
  assumes "validate_lb up = Inr ()" "addresses up \<noteq> []"
    and "list_all2 (\<lambda>a i. inst_address (h ! i) = spec_address a \<and> inst_weight (h ! i) = spec_weight a) (addresses up) is"
  shows "\<exists>lbs. build_lb up h is = Some lbs \<and>
    (lb_algorithm up = Maglev \<longrightarrow> (\<exists>tab. lbs = LbMaglev tab \<and> (\<forall>key. \<exists>i<length is. maglev_lookup tab key = Some i)))"
proof (cases "lb_algorithm up = Maglev")
  case True
  obtain hash where hs: "up_hash up = Some hash" "is_prime (table_size hash)"
    "length (addresses up) \<le> unat (table_size hash)" "length (addresses up) \<le> 65535"
    "\<forall>a \<in> set (addresses up). 1 \<le> spec_weight a"
    using validate_lb_Maglev [OF assms(1) True] by metis
  have len: "length is = length (addresses up)" using assms(3) by (simp add: list_all2_lengthD)
  have "map (\<lambda>i. (addr_bytes (inst_address (h ! i)), inst_weight (h ! i))) is = maglev_entries up"
    unfolding maglev_entries_def
    by (rule nth_equalityI) (use assms(3) in \<open>auto simp: list_all2_conv_all_nth\<close>)
  moreover have "\<exists>tab R. maglev_build (maglev_entries up) (unat (table_size hash)) = Some tab \<and>
      (\<forall>key. \<exists>i<length is. maglev_lookup tab key = Some i)"
    using maglev_build_ok [OF hs(2) [unfolded is_prime_iff], of "maglev_entries up"] hs(3,4,5) assms(2) len
    by (auto simp: maglev_entries_def)
  ultimately show ?thesis using True hs(1) by (auto simp: build_lb_def Let_def)
next
  case False
  then show ?thesis by (cases "lb_algorithm up") (simp_all add: build_lb_def)
qed

section \<open>Building the groups\<close>

definition prev_group :: "UpstreamRegistry \<Rightarrow> Upstream \<Rightarrow> UpstreamGroup option" where
  "prev_group reg up = map_option (\<lambda>k. group_heap reg ! k) (groups reg (up_name up))"

definition reusable :: "UpstreamRegistry \<Rightarrow> Upstream \<Rightarrow> UpstreamGroup option" where
  "reusable reg up =
     (case prev_group reg up of
        None \<Rightarrow> None | Some g \<Rightarrow> if g_health g = up_health up then Some g else None)"

lemma reusable_allocated: "registry_ok reg \<Longrightarrow> prev_allocated (reusable reg up) (insts reg)"
  unfolding registry_ok_def prev_allocated_def reusable_def prev_group_def
  by (fastforce split: option.splits if_splits)

definition group_built :: "UpstreamRegistry \<Rightarrow> inst_heap \<Rightarrow> Upstream \<Rightarrow> UpstreamGroup \<Rightarrow> bool" where
  "group_built reg h' up g \<longleftrightarrow>
     g_name g = up_name up \<and> g_health g = up_health up \<and> in_flight g = 0 \<and>
     request_timeout g = unat (request_timeout_ms up) \<and> overall_timeout g = unat (overall_timeout_ms up) \<and>
     rr g = (case prev_group reg up of None \<Rightarrow> 0 | Some p \<Rightarrow> rr p) \<and>
     list_all2 (instance_for (reusable reg up) (up_health up) (insts reg) h') (addresses up) (instances g) \<and>
     (distinct (map (\<lambda>s. (spec_address s, spec_weight s)) (addresses up)) \<longrightarrow> distinct (instances g)) \<and>
     (lb_algorithm up = Maglev \<longrightarrow>
        (\<exists>tab. lb g = LbMaglev tab \<and> (\<forall>key. \<exists>i<length (instances g). maglev_lookup tab key = Some i)))"

lemma group_built_extend: "group_built reg h' up g \<Longrightarrow> group_built reg (h' @ ext) up g"
  using instance_for_extend list_all2_mono unfolding group_built_def by (metis (no_types, lifting))

lemma build_group_ok:
  assumes "registry_ok reg" "validate_lb up = Inr ()" "addresses up \<noteq> []"
  shows "\<exists>ext g. build_group reg (insts reg @ e) up = Some (insts reg @ e @ ext, g) \<and>
    group_built reg (insts reg @ e @ ext) up g"
proof -
  let ?prev = "reusable reg up"
  obtain h' "is" where b: "build_instances ?prev (up_health up) (insts reg @ e) (addresses up) = (h', is)"
    by (cases "build_instances ?prev (up_health up) (insts reg @ e) (addresses up)")
  obtain ext where ext: "h' = insts reg @ e @ ext"
    "list_all2 (instance_for ?prev (up_health up) (insts reg) h') (addresses up) is"
    "distinct (map (\<lambda>s. (spec_address s, spec_weight s)) (addresses up)) \<longrightarrow> distinct is"
    using build_instances_ok [OF reusable_allocated [OF assms(1)] b] by blast
  have "list_all2 (\<lambda>a i. inst_address (h' ! i) = spec_address a \<and> inst_weight (h' ! i) = spec_weight a) (addresses up) is"
  proof (rule list_all2_all_nthI)
    fix k assume k: "k < length (addresses up)"
    have "instance_for ?prev (up_health up) (insts reg) (insts reg @ e @ ext) (addresses up ! k) (is ! k)"
      using ext(2) k by (simp add: ext(1) list_all2_conv_all_nth)
    moreover have "spec_weight (addresses up ! k) \<noteq> 0"
      using validate_lb_weights [OF assms(2)] nth_mem [OF k] by blast
    ultimately show "inst_address (h' ! (is ! k)) = spec_address (addresses up ! k) \<and>
        inst_weight (h' ! (is ! k)) = spec_weight (addresses up ! k)"
      using instance_for_fields [OF _ reusable_allocated [OF assms(1)]] by (simp add: ext(1))
  qed (simp add: list_all2_lengthD [OF ext(2)])
  then obtain lbs where lbs: "build_lb up h' is = Some lbs"
    "lb_algorithm up = Maglev \<longrightarrow> (\<exists>tab. lbs = LbMaglev tab \<and> (\<forall>key. \<exists>i<length is. maglev_lookup tab key = Some i))"
    using build_lb_ok [OF assms(2,3)] by blast
  have r: "(case map_option (\<lambda>k. group_heap reg ! k) (groups reg (up_name up)) of
        None \<Rightarrow> None | Some g \<Rightarrow> if g_health g = up_health up then Some g else None) = ?prev"
    by (simp add: reusable_def prev_group_def)
  show ?thesis
    using lbs ext unfolding build_group_def Let_def r b
    by (auto simp: group_built_def prev_group_def intro!: exI [of _ ext])
qed

lemma build_groups_ok:
  assumes "registry_ok reg"
  shows "\<lbrakk>\<forall>up\<in>set ups. addresses up \<noteq> [] \<and> validate_lb up = Inr (); distinct (map up_name ups)\<rbrakk> \<Longrightarrow>
    \<exists>ext new m'. build_groups reg (insts reg @ e, gs, m) ups = Some (insts reg @ e @ ext, gs @ new, m') \<and>
      list_all2 (group_built reg (insts reg @ e @ ext)) ups new \<and>
      (\<forall>k<length ups. m' (up_name (ups ! k)) = Some (length gs + k)) \<and>
      (\<forall>n. n \<notin> up_name ` set ups \<longrightarrow> m' n = m n)"
proof (induction ups arbitrary: e gs m)
  case (Cons up ups)
  obtain ext1 g where g: "build_group reg (insts reg @ e) up = Some (insts reg @ e @ ext1, g)"
    "group_built reg (insts reg @ e @ ext1) up g"
    using build_group_ok [OF assms, of up e] Cons.prems(1) by auto
  obtain ext new m' where r:
    "build_groups reg (insts reg @ (e @ ext1), gs @ [g], m(up_name up \<mapsto> length gs)) ups =
       Some (insts reg @ (e @ ext1) @ ext, (gs @ [g]) @ new, m')"
    "list_all2 (group_built reg (insts reg @ (e @ ext1) @ ext)) ups new"
    "\<forall>k<length ups. m' (up_name (ups ! k)) = Some (length (gs @ [g]) + k)"
    "\<forall>n. n \<notin> up_name ` set ups \<longrightarrow> m' n = (m(up_name up \<mapsto> length gs)) n"
    using Cons.IH [of "e @ ext1" "gs @ [g]" "m(up_name up \<mapsto> length gs)"] Cons.prems
    by (simp only: list.set ball_simps list.map distinct.simps simp_thms) blast
  have "group_built reg (insts reg @ e @ ext1 @ ext) up g"
    using group_built_extend [OF g(2), of ext] by simp
  moreover have "m' (up_name up) = Some (length gs)" using r(4) Cons.prems(2) by auto
  ultimately show ?case
    using r g(1) by (intro exI [of _ "ext1 @ ext"] exI [of _ "g # new"] exI [of _ m'])
      (auto simp: nth_Cons split: nat.splits)
qed simp

lemma check_upstreams_None:
  "check_upstreams seen ups = None \<longleftrightarrow>
     (\<forall>up\<in>set ups. addresses up \<noteq> [] \<and> validate_lb up = Inr ()) \<and> distinct (map up_name ups) \<and>
     set seen \<inter> up_name ` set ups = {}"
  by (induction ups arbitrary: seen) (auto split: sum.splits)

text \<open>What a successful reconcile leaves.\<close>

lemma reconcile_built:
  assumes "registry_ok reg" "check_upstreams [] ups = None" "\<not> reg_poisoned reg"
  shows "\<exists>ext new m'. reconcile reg ups =
      Some (reg\<lparr>insts := insts reg @ ext, group_heap := group_heap reg @ new, groups := m'\<rparr>, Inr ()) \<and>
    list_all2 (group_built reg (insts reg @ ext)) ups new \<and>
    (\<forall>k<length ups. m' (up_name (ups ! k)) = Some (length (group_heap reg) + k)) \<and>
    dom m' = up_name ` set ups"
proof -
  obtain ext new m' where r:
    "build_groups reg (insts reg @ [], group_heap reg, \<lambda>_. None) ups =
       Some (insts reg @ [] @ ext, group_heap reg @ new, m')"
    "list_all2 (group_built reg (insts reg @ [] @ ext)) ups new"
    "\<forall>k<length ups. m' (up_name (ups ! k)) = Some (length (group_heap reg) + k)"
    "\<forall>n. n \<notin> up_name ` set ups \<longrightarrow> m' n = None"
    using build_groups_ok [OF assms(1), of ups "[]" "group_heap reg" "\<lambda>_. None"] assms(2)
    by (auto simp: check_upstreams_None)
  have "dom m' = up_name ` set ups"
    using r(3,4) by (auto simp: in_set_conv_nth domIff)
  then show ?thesis using r assms(2,3) by (auto simp: reconcile_def)
qed

lemma reconcile_ok_inv:
  assumes "registry_ok reg" "reconcile reg ups = Some (reg', Inr ())"
  shows "registry_ok reg'"
proof -
  have ck: "check_upstreams [] ups = None" "\<not> reg_poisoned reg"
    using assms(2) by (auto simp: reconcile_def split: option.splits if_splits)
  obtain ext new m' where r: "reg' = reg\<lparr>insts := insts reg @ ext, group_heap := group_heap reg @ new, groups := m'\<rparr>"
    "list_all2 (group_built reg (insts reg @ ext)) ups new"
    "\<forall>k<length ups. m' (up_name (ups ! k)) = Some (length (group_heap reg) + k)" "dom m' = up_name ` set ups"
    using reconcile_built [OF assms(1) ck] assms(2) by auto
  have "k < length (group_heap reg @ new)" if "m' n = Some k" for n k
  proof -
    have "n \<in> up_name ` set ups" using that by (simp add: domI flip: r(4))
    then obtain j where "j < length ups" "n = up_name (ups ! j)" by (auto simp: in_set_conv_nth)
    then show ?thesis using that r(2,3) by (simp add: list_all2_lengthD)
  qed
  moreover have "set (instances g) \<subseteq> {..<length (insts reg @ ext)}" if gn: "g \<in> set new" for g
  proof
    fix i assume i: "i \<in> set (instances g)"
    obtain j where "j < length new" "new ! j = g" using gn by (auto simp: in_set_conv_nth)
    then obtain up where "group_built reg (insts reg @ ext) up g"
      using r(2) by (auto simp: list_all2_conv_all_nth)
    then have la: "list_all2 (instance_for (reusable reg up) (up_health up) (insts reg) (insts reg @ ext)) (addresses up) (instances g)"
      by (simp add: group_built_def)
    obtain k where k: "k < length (instances g)" "instances g ! k = i" using i by (metis in_set_conv_nth)
    then have "instance_for (reusable reg up) (up_health up) (insts reg) (insts reg @ ext) (addresses up ! k) i"
      using la by (auto simp: list_all2_conv_all_nth)
    then show "i \<in> {..<length (insts reg @ ext)}" by (simp add: instance_for_def)
  qed
  moreover have "set (instances g) \<subseteq> {..<length (insts reg @ ext)}" if "g \<in> set (group_heap reg)" for g
    using assms(1) that by (fastforce simp: registry_ok_def)
  ultimately show ?thesis unfolding registry_ok_def r(1) by simp blast
qed

lemma example_reconciles:
  "\<exists>reg'. reconcile UpstreamRegistry_new [example_upstream] = Some (reg', Inr ())"
proof -
  have "check_upstreams [] [example_upstream] = None"
    using example_upstream_valid by (simp add: check_upstreams_None) (simp add: example_upstream_def)
  moreover have "\<not> reg_poisoned UpstreamRegistry_new" by (simp add: UpstreamRegistry_new_def)
  ultimately show ?thesis using reconcile_built [OF registry_new_ok] by blast
qed

section \<open>Properties\<close>

text \<open>C26: reconciling is total and all-or-nothing. For every list of upstreams it returns, the fill of
  every Maglev table included; it succeeds exactly when the names are distinct, every upstream has an
  address and a valid load-balancing section and the lock is not poisoned; and on any error the
  registry is untouched.\<close>

theorem reconcile_atomic:
  assumes "registry_ok reg"
  shows "\<exists>reg' r. reconcile reg ups = Some (reg', r) \<and> registry_ok reg' \<and>
    (r \<noteq> Inr () \<longrightarrow> reg' = reg) \<and>
    (r = Inr () \<longleftrightarrow> \<not> reg_poisoned reg \<and> distinct (map up_name ups) \<and>
       (\<forall>up \<in> set ups. addresses up \<noteq> [] \<and> validate_lb up = Inr ()))"
proof (cases "check_upstreams [] ups = None \<and> \<not> reg_poisoned reg")
  case True
  then obtain reg' where r: "reconcile reg ups = Some (reg', Inr ())"
    using reconcile_built [OF assms] by blast
  show ?thesis
    using r reconcile_ok_inv [OF assms r] True by (auto simp: check_upstreams_None)
next
  case False
  then obtain e where "reconcile reg ups = Some (reg, Inl e)"
    by (cases "check_upstreams [] ups") (auto simp: reconcile_def)
  then show ?thesis using assms False by (auto simp: check_upstreams_None)
qed

theorem reconcile_atomic_witness:
  "\<exists>reg' r. reconcile UpstreamRegistry_new [example_upstream] = Some (reg', r) \<and> r = Inr ()"
  using reconcile_atomic [OF registry_new_ok, of "[example_upstream]"] example_upstream_valid
  by (auto simp: UpstreamRegistry_new_def) (auto simp: example_upstream_def)

text \<open>health survives a reload, and nothing else does. After a successful reconcile the registry
  holds exactly the named upstreams, each with its instances in manifest order. An instance whose
  address and weight stood in the same upstream under the same health policy is the very same object,
  so its health and counters carry over; every other is fresh and out of rotation. The round-robin
  cursor carries over. Groups and instances held by requests in flight are not modified.\<close>

theorem reconcile_preserves_health:
  assumes "registry_ok reg" "reconcile reg ups = Some (reg', Inr ())" "up \<in> set ups"
  shows "\<exists>k g. group reg' (up_name up) = Some k \<and> group_heap reg' ! k = g \<and>
    g_name g = up_name up \<and> g_health g = up_health up \<and>
    rr g = (case prev_group reg up of None \<Rightarrow> 0 | Some p \<Rightarrow> rr p) \<and>
    length (instances g) = length (addresses up) \<and>
    (\<forall>j<length (addresses up).
       let i = instances g ! j; a = addresses up ! j in
       inst_address (insts reg' ! i) = spec_address a \<and> inst_weight (insts reg' ! i) = spec_weight a \<and>
       (case find_instance (reusable reg up) (insts reg) a of
          Some i0 \<Rightarrow> i = i0 \<and> insts reg' ! i = insts reg ! i0
        | None \<Rightarrow> length (insts reg) \<le> i \<and> \<not> is_healthy (insts reg' ! i))) \<and>
    dom (groups reg') = up_name ` set ups \<and>
    take (length (insts reg)) (insts reg') = insts reg \<and>
    take (length (group_heap reg)) (group_heap reg') = group_heap reg"
proof -
  have ck: "check_upstreams [] ups = None" "\<not> reg_poisoned reg"
    using assms(2) by (auto simp: reconcile_def split: option.splits if_splits)
  obtain ext new m' where r: "reg' = reg\<lparr>insts := insts reg @ ext, group_heap := group_heap reg @ new, groups := m'\<rparr>"
    "list_all2 (group_built reg (insts reg @ ext)) ups new"
    "\<forall>k<length ups. m' (up_name (ups ! k)) = Some (length (group_heap reg) + k)" "dom m' = up_name ` set ups"
    using reconcile_built [OF assms(1) ck] assms(2) by auto
  obtain n where n: "n < length ups" "ups ! n = up" using assms(3) by (metis in_set_conv_nth)
  define g where "g = new ! n"
  have gb: "group_built reg (insts reg @ ext) up g" and len: "length new = length ups"
    using r(2) n by (auto simp: g_def list_all2_conv_all_nth)
  have al: "prev_allocated (reusable reg up) (insts reg)" by (rule reusable_allocated [OF assms(1)])
  have inst: "let i = instances g ! j; a = addresses up ! j in
       inst_address (insts reg' ! i) = spec_address a \<and> inst_weight (insts reg' ! i) = spec_weight a \<and>
       (case find_instance (reusable reg up) (insts reg) a of
          Some i0 \<Rightarrow> i = i0 \<and> insts reg' ! i = insts reg ! i0
        | None \<Rightarrow> length (insts reg) \<le> i \<and> \<not> is_healthy (insts reg' ! i))"
    if j: "j < length (addresses up)" for j
  proof -
    let ?i = "instances g ! j" and ?a = "addresses up ! j"
    have f: "instance_for (reusable reg up) (up_health up) (insts reg) (insts reg @ ext) ?a ?i"
      using gb j by (auto simp: group_built_def list_all2_conv_all_nth)
    have "spec_weight ?a \<noteq> 0"
      using ck(1) assms(3) j validate_lb_weights by (auto simp: check_upstreams_None)
    from instance_for_fields [OF f al this] show ?thesis
      using f find_instance_Some [OF _ al, of ?a]
      by (auto simp: Let_def r(1) instance_for_def is_healthy_def UpstreamInstance_new_def nth_append
          split: option.splits)
  qed
  have "group reg' (up_name up) = Some (length (group_heap reg) + n)" "group_heap reg' ! (length (group_heap reg) + n) = g"
    using r(1,3) n ck(2) by (auto simp: group_def g_def)
  then show ?thesis
    using gb inst r(1,4) by (auto simp: group_built_def list_all2_lengthD)
qed

theorem reconcile_preserves_health_witness:
  "\<exists>reg' k. reconcile UpstreamRegistry_new [example_upstream] = Some (reg', Inr ()) \<and>
     group reg' ''u'' = Some k \<and> length (instances (group_heap reg' ! k)) = 2"
proof -
  obtain reg' where r: "reconcile UpstreamRegistry_new [example_upstream] = Some (reg', Inr ())"
    using example_reconciles by blast
  from reconcile_preserves_health [OF registry_new_ok this, of example_upstream] r show ?thesis
    by (auto simp: example_upstream_def)
qed

text \<open>Maglev affinity. In the group that a reconcile builds for a Maglev upstream, every request key
  has one instance, and every pick with that key returns it as long as it may serve, whatever the
  round-robin cursor, the state of the other instances and the random generator; a retry that
  excludes it is served elsewhere.\<close>

theorem maglev_affinity:
  assumes "registry_ok reg" "reconcile reg ups = Some (reg', Inr ())" "up \<in> set ups" "lb_algorithm up = Maglev"
  shows "\<exists>k g. group reg' (up_name up) = Some k \<and> group_heap reg' ! k = g \<and>
    (\<forall>key. \<exists>i \<in> set (instances g). \<forall>h clock s ex cursor.
       is_eligible h ex (eligibility_ctx g clock) i \<longrightarrow>
       pick_quiet (g\<lparr>rr := cursor\<rparr>) h clock s ex (Some key) =
         Some (g\<lparr>rr := cursor\<rparr>, h, s, Some (unmetered_pick i)))"
proof -
  have ck: "check_upstreams [] ups = None" "\<not> reg_poisoned reg"
    using assms(2) by (auto simp: reconcile_def split: option.splits if_splits)
  obtain ext new m' where r: "reg' = reg\<lparr>insts := insts reg @ ext, group_heap := group_heap reg @ new, groups := m'\<rparr>"
    "list_all2 (group_built reg (insts reg @ ext)) ups new"
    "\<forall>k<length ups. m' (up_name (ups ! k)) = Some (length (group_heap reg) + k)"
    using reconcile_built [OF assms(1) ck] assms(2) by auto
  obtain n where n: "n < length ups" "ups ! n = up" using assms(3) by (metis in_set_conv_nth)
  define g where "g = new ! n"
  have gb: "group_built reg (insts reg @ ext) up g" and len: "length new = length ups"
    using r(2) n by (auto simp: g_def list_all2_conv_all_nth)
  obtain tab where tab: "lb g = LbMaglev tab" "\<forall>key. \<exists>i<length (instances g). maglev_lookup tab key = Some i"
    using gb assms(4) by (auto simp: group_built_def)
  have aff: "\<exists>i \<in> set (instances g). \<forall>h clock s ex cursor.
       is_eligible h ex (eligibility_ctx g clock) i \<longrightarrow>
       pick_quiet (g\<lparr>rr := cursor\<rparr>) h clock s ex (Some key) =
         Some (g\<lparr>rr := cursor\<rparr>, h, s, Some (unmetered_pick i))" for key
  proof -
    obtain j where j: "j < length (instances g)" "maglev_lookup tab (hash_input key) = Some j" using tab(2) by blast
    have ctx: "eligibility_ctx (g\<lparr>rr := c\<rparr>) clock = eligibility_ctx g clock" for c clock
      by (simp add: eligibility_ctx_def outlier_enabled_def)
    show ?thesis
      using j tab(1)
      by (intro bexI [of _ "instances g ! j"])
        (simp_all add: pick_quiet_def pick_dispatch_def maglev_pick_def maglev_primary_def ctx Let_def)
  qed
  have "group reg' (up_name up) = Some (length (group_heap reg) + n)" "group_heap reg' ! (length (group_heap reg) + n) = g"
    using r(1,3) n ck(2) by (auto simp: group_def g_def)
  then show ?thesis using aff by blast
qed

theorem maglev_affinity_witness:
  "\<exists>reg' k. reconcile UpstreamRegistry_new [example_upstream] = Some (reg', Inr ()) \<and> group reg' ''u'' = Some k"
proof -
  obtain reg' where r: "reconcile UpstreamRegistry_new [example_upstream] = Some (reg', Inr ())"
    using example_reconciles by blast
  from maglev_affinity [OF registry_new_ok this, of example_upstream] r show ?thesis
    by (auto simp: example_upstream_def)
qed

end
