(* ===== verification/RateLimit.thy ===== *)
theory RateLimit
  imports Manifest Net
begin

text \<open>
  The native rate limiter of a route, \<open>control/src/ratelimit.rs\<close>: one bucket for the route, or a
  fixed table of buckets that the connection's peer is hashed into. The seeded hasher of the
  standard library is an argument, and each cell's lock makes a consult one step.
\<close>

section \<open>The limiter\<close>

definition IP_SLOTS :: nat where "IP_SLOTS = 2 ^ 16"

datatype RateLimitDecision = Allow | Limit u64

datatype LimiterState =
  RouteCell "u64 \<times> u64"
| ClientIp "(u64 \<times> u64) list" "bytes \<Rightarrow> u64"

record NativeRateLimit =
  nrl_spec :: Bucket
  nrl_state :: LimiterState

definition NativeRateLimit_new :: "RouteRateLimit \<Rightarrow> (bytes \<Rightarrow> u64) \<Rightarrow> NativeRateLimit" where
  "NativeRateLimit_new cfg hasher =
     \<lparr>nrl_spec = \<lparr>capacity = rl_burst cfg, refill_tokens = rl_rate cfg, refill_interval_ms = 1000\<rparr>,
      nrl_state = (case rl_key cfg of
                     RouteKey \<Rightarrow> RouteCell (0, 0)
                   | ClientIpKey \<Rightarrow> ClientIp (replicate IP_SLOTS (0, 0)) hasher)\<rparr>"

definition ip_key_bytes :: "IpAddr \<Rightarrow> bytes" where
  "ip_key_bytes peer =
     (let peer = (case peer of
                    V6 v6 \<Rightarrow> (case to_ipv4_mapped v6 of Some v4 \<Rightarrow> V4 v4 | None \<Rightarrow> V6 v6)
                  | v4 \<Rightarrow> v4)
      in case peer of
           V4 v4 \<Rightarrow> v4_octets v4 @ [0, 0, 0, 0]
         | V6 v6 \<Rightarrow> take 8 (v6_octets v6))"

definition slot_for_ip :: "IpAddr \<Rightarrow> (bytes \<Rightarrow> u64) \<Rightarrow> nat \<Rightarrow> nat" where
  "slot_for_ip peer hasher len = unat (and (hasher (ip_key_bytes peer)) (of_nat len - 1 :: usize))"

definition check_at :: "NativeRateLimit \<Rightarrow> IpAddr \<Rightarrow> u64 \<Rightarrow> NativeRateLimit \<times> RateLimitDecision" where
  "check_at rl peer now_ms =
     (let decide = (\<lambda>acq. if allowed acq then Allow else Limit (retry_after_ms acq)) in
      case nrl_state rl of
        RouteCell cell \<Rightarrow>
          (let (next, acq) = apply_bucket (Some cell) 1 (nrl_spec rl) now_ms
           in (rl\<lparr>nrl_state := RouteCell next\<rparr>, decide acq))
      | ClientIp slots hasher \<Rightarrow>
          (let slot = slot_for_ip peer hasher (length slots);
               (next, acq) = apply_bucket (Some (slots ! slot)) 1 (nrl_spec rl) now_ms
           in (rl\<lparr>nrl_state := ClientIp (slots[slot := next]) hasher\<rparr>, decide acq)))"

section \<open>Client keys\<close>

text \<open>The key as a 64-bit word: the IPv4 address in the upper half, or the upper half of the IPv6
  address.\<close>

definition unmap_v4 :: "IpAddr \<Rightarrow> IpAddr" where
  "unmap_v4 peer =
     (case peer of
        V6 v6 \<Rightarrow> (case to_ipv4_mapped v6 of Some v4 \<Rightarrow> V4 v4 | None \<Rightarrow> V6 v6)
      | V4 v4 \<Rightarrow> V4 v4)"

fun net_word :: "IpAddr \<Rightarrow> u64" where
  "net_word (V4 a) = push_bit 32 (ucast a)"
| "net_word (V6 b) = ucast (drop_bit 64 b)"

definition word_octets :: "u64 \<Rightarrow> bytes" where
  "word_octets w = map (\<lambda>i. ucast (drop_bit (8 * (7 - i)) w)) [0..<8]"

lemma word_octets_inj: "word_octets a = word_octets b \<longleftrightarrow> a = b"
proof
  assume "word_octets a = word_octets b"
  then show "a = b"
    by (intro word_eq_by_octets [where k = 7]) (auto simp: word_octets_def)
qed simp

lemma v6_key: "take 8 (v6_octets b) = word_octets (ucast (drop_bit 64 b))"
proof (rule nth_equalityI)
  fix i assume "i < length (take 8 (v6_octets b))"
  then have i: "i < 8" by simp
  have "(ucast (drop_bit (8 * (15 - i)) b) :: u8) = ucast (drop_bit (8 * (7 - i)) (ucast (drop_bit 64 b) :: u64))"
  proof (rule bit_eqI)
    fix n assume "possible_bit TYPE(u8) n"
    then have n: "n < 8" by simp
    moreover have "8 * (15 - i) + n = 64 + (8 * (7 - i) + n)" "8 * (7 - i) + n < 64" using i n by auto
    ultimately show "bit (ucast (drop_bit (8 * (15 - i)) b) :: u8) n =
        bit (ucast (drop_bit (8 * (7 - i)) (ucast (drop_bit 64 b) :: u64)) :: u8) n"
      by (simp only: bit_simps) (simp add: bit_simps ac_simps)
  qed
  then show "take 8 (v6_octets b) ! i = word_octets (ucast (drop_bit 64 b)) ! i"
    using i by (simp add: v6_octets_def word_octets_def)
qed (simp add: word_octets_def)

lemma v4_key: "v4_octets a @ [0, 0, 0, 0] = word_octets (push_bit 32 (ucast a))"
proof (rule nth_equalityI)
  fix i assume "i < length (v4_octets a @ [0, 0, 0, 0])"
  then have i: "i < 8" by simp
  have hi: "(ucast (drop_bit (8 * (3 - i)) a) :: u8) = ucast (drop_bit (8 * (7 - i)) (push_bit 32 (ucast a) :: u64))"
    if i4: "i < 4"
  proof (rule bit_eqI)
    fix n assume "possible_bit TYPE(u8) n"
    then have n: "n < 8" by simp
    moreover have "8 * (7 - i) + n = 32 + (8 * (3 - i) + n)" "8 * (3 - i) + n < 32" using i4 n by auto
    ultimately show "bit (ucast (drop_bit (8 * (3 - i)) a) :: u8) n =
        bit (ucast (drop_bit (8 * (7 - i)) (push_bit 32 (ucast a) :: u64)) :: u8) n"
      by (simp only: bit_simps) (simp add: bit_simps ac_simps)
  qed
  have lo: "(0 :: u8) = ucast (drop_bit (8 * (7 - i)) (push_bit 32 (ucast a) :: u64))"
    if "4 \<le> i" by (rule bit_eqI) (use that i in \<open>auto simp: bit_simps ac_simps\<close>)
  show "(v4_octets a @ [0, 0, 0, 0]) ! i = word_octets (push_bit 32 (ucast a)) ! i"
  proof (cases "i < 4")
    case True
    then show ?thesis using hi i by (simp add: nth_append v4_octets_def word_octets_def)
  next
    case False
    then have "[0, 0, 0, 0 :: u8] ! (i - 4) = 0" using i by (auto simp: nth_Cons' less_Suc_eq)
    then show ?thesis using False lo i by (simp add: nth_append word_octets_def)
  qed
qed (simp add: word_octets_def)

lemma ip_key_word: "ip_key_bytes p = word_octets (net_word (unmap_v4 p))"
  by (auto simp: ip_key_bytes_def unmap_v4_def v4_key v6_key Let_def split: IpAddr.splits option.splits)

section \<open>Runs\<close>

text \<open>The decisions on a sequence of requests, each with its peer and the clock, and the run of one
  cell alone.\<close>

fun decisions :: "NativeRateLimit \<Rightarrow> (IpAddr \<times> u64) list \<Rightarrow> (IpAddr \<times> RateLimitDecision) list" where
  "decisions rl [] = []"
| "decisions rl ((p, t) # rs) = (let (rl', d) = check_at rl p t in (p, d) # decisions rl' rs)"

fun cell_run :: "u64 \<times> u64 \<Rightarrow> Bucket \<Rightarrow> u64 list \<Rightarrow> RateLimitDecision list" where
  "cell_run c spec [] = []"
| "cell_run c spec (t # ts) =
     (let (c', acq) = apply_bucket (Some c) 1 spec t
      in (if allowed acq then Allow else Limit (retry_after_ms acq)) # cell_run c' spec ts)"

lemma route_decisions:
  assumes "nrl_state rl = RouteCell c"
  shows "map snd (decisions rl rs) = cell_run c (nrl_spec rl) (map snd rs)"
  using assms
proof (induction rs arbitrary: rl c)
  case (Cons r rs)
  obtain p t where r: "r = (p, t)" by (cases r)
  obtain c' acq where ab: "apply_bucket (Some c) 1 (nrl_spec rl) t = (c', acq)"
    by (cases "apply_bucket (Some c) 1 (nrl_spec rl) t")
  show ?case
    using Cons.IH [of "rl\<lparr>nrl_state := RouteCell c'\<rparr>" c'] Cons.prems
    by (simp add: r check_at_def ab)
qed simp

lemma ip_slot_less: "length slots = IP_SLOTS \<Longrightarrow> slot_for_ip p hs (length slots) < length slots"
proof -
  have "unat (and x (of_nat IP_SLOTS - 1 :: usize)) < IP_SLOTS" for x
  proof -
    have "(of_nat IP_SLOTS - 1 :: usize) = mask 16" by (simp add: IP_SLOTS_def mask_eq_exp_minus_1)
    then have "and x (of_nat IP_SLOTS - 1) = take_bit 16 x" by (simp add: take_bit_eq_mask)
    then show ?thesis by (simp add: IP_SLOTS_def unsigned_take_bit_eq take_bit_nat_def)
  qed
  then show "length slots = IP_SLOTS \<Longrightarrow> slot_for_ip p hs (length slots) < length slots"
    by (simp add: slot_for_ip_def)
qed

text \<open>The requests of one slot see a bucket of their own.\<close>

lemma slot_decisions:
  assumes "nrl_state rl = ClientIp slots hs" "length slots = IP_SLOTS"
  shows "map snd (filter (\<lambda>(p, d). slot_for_ip p hs IP_SLOTS = k) (decisions rl rs)) =
    cell_run (slots ! k) (nrl_spec rl) (map snd (filter (\<lambda>(p, t). slot_for_ip p hs IP_SLOTS = k) rs))"
  using assms
proof (induction rs arbitrary: rl slots)
  case (Cons r rs)
  obtain p t where r: "r = (p, t)" by (cases r)
  let ?j = "slot_for_ip p hs IP_SLOTS"
  have j: "?j < length slots" using ip_slot_less [OF Cons.prems(2)] Cons.prems(2) by simp
  obtain c' acq where ab: "apply_bucket (Some (slots ! ?j)) 1 (nrl_spec rl) t = (c', acq)"
    by (cases "apply_bucket (Some (slots ! ?j)) 1 (nrl_spec rl) t")
  show ?case
    using Cons.IH [of "rl\<lparr>nrl_state := ClientIp (slots[?j := c']) hs\<rparr>" "slots[?j := c']"] Cons.prems j
    by (auto simp: r check_at_def ab nth_list_update)
qed simp

lemma cell_run_bucket:
  "count_list (cell_run c spec ts) Allow = bucket_run (Some c) spec (map (\<lambda>t. (1, t)) ts)"
proof (induction ts arbitrary: c)
  case (Cons t ts)
  obtain c' acq where "apply_bucket (Some c) 1 spec t = (c', acq)" by (cases "apply_bucket (Some c) 1 spec t")
  then show ?case using Cons.IH [of c'] by simp
qed simp

text \<open>A zeroed cell refills from the epoch at its first use, to the whole intervals before it.\<close>

lemma zero_cell_start:
  assumes "\<not> no_refill spec" "refill_state (Some (0, 0)) spec n = (tk, l)"
  shows "bucket_run (Some (0, 0)) spec ((c, n) # cs) = bucket_run (Some (tk, l)) spec ((c, n) # cs)"
    and "unat tk \<le> unat (capacity spec)" and "unat n < unat l + unat (refill_interval_ms spec)"
proof -
  let ?iv = "unat (refill_interval_ms spec)"
  have pos: "0 < ?iv" using assms(1) by (simp add: no_refill_def unat_gt_0)
  have "unat (sat_mul (n div refill_interval_ms spec) (refill_interval_ms spec)) = unat n div ?iv * ?iv"
    using order.trans [OF div_times_less_eq_dividend [of "unat n" ?iv] unat_le_max [of n]]
    by (simp only: unat_sat_mul unat_div_distrib min_absorb1)
  then have l: "unat l = unat n div ?iv * ?iv" and tk: "tk \<le> capacity spec"
    using assms by (auto simp: refill_state_def Let_def)
  show "unat tk \<le> unat (capacity spec)" using tk by (simp add: word_le_nat_alt)
  have dm: "unat n div ?iv * ?iv + unat n mod ?iv = unat n" by simp
  show "unat n < unat l + ?iv" unfolding l using dm mod_less_divisor [OF pos, of "unat n"] by linarith
  have "unat (sat_sub n l) < ?iv"
    unfolding unat_sat_sub l using dm mod_less_divisor [OF pos, of "unat n"] by linarith
  then have "sat_sub n l div refill_interval_ms spec = 0"
    by (simp add: word_unat_eq_iff unat_div_distrib)
  then have "refill_state (Some (tk, l)) spec n = (tk, l)"
    using assms(1) tk by (simp add: refill_state_def Let_def min_absorb1)
  then have "apply_bucket (Some (0, 0)) c spec n = apply_bucket (Some (tk, l)) c spec n"
    using assms(2) by (simp add: apply_bucket_def)
  then show "bucket_run (Some (0, 0)) spec ((c, n) # cs) = bucket_run (Some (tk, l)) spec ((c, n) # cs)"
    by simp
qed

lemma zero_cell_bound:
  assumes "\<not> no_refill spec" "\<forall>(c, n) \<in> set cs. t0 \<le> unat n \<and> unat n \<le> N"
  shows "bucket_run (Some (0, 0)) spec cs \<le> unat (capacity spec) +
     unat (refill_tokens spec) *
       ((N - t0 + unat (refill_interval_ms spec) - 1) div unat (refill_interval_ms spec))"
proof (cases cs)
  case (Cons r cs')
  obtain c n where r: "r = (c, n)" by (cases r)
  obtain tk l where rs: "refill_state (Some (0, 0)) spec n = (tk, l)"
    by (cases "refill_state (Some (0, 0)) spec n")
  note z = zero_cell_start [OF assms(1) rs]
  have t: "t0 \<le> unat n" "unat n \<le> N" using assms(2) Cons r by auto
  have "bucket_run (Some (tk, l)) spec cs \<le> unat tk +
      unat (refill_tokens spec) * ((N - unat l) div unat (refill_interval_ms spec))"
    using bucket_run_bound [OF assms(1), of cs N tk l] assms(2) by blast
  moreover have "N - unat l \<le> N - t0 + unat (refill_interval_ms spec) - 1" using z(3) t by linarith
  then have "unat (refill_tokens spec) * ((N - unat l) div unat (refill_interval_ms spec)) \<le>
      unat (refill_tokens spec) * ((N - t0 + unat (refill_interval_ms spec) - 1) div unat (refill_interval_ms spec))"
    by (intro mult_le_mono2 div_le_mono)
  ultimately show ?thesis using z(1) [of c cs'] z(2) unfolding Cons r by linarith
qed simp

section \<open>Properties\<close>

text \<open>C27: the native limiter holds its rate for every client. For any sequence of requests on a fresh
  limiter, with clock readings between \<open>t0\<close> and \<open>N\<close>, and whatever the seeded hash does, the requests
  let through for one client key (for the whole route, when the limit is per route) are at most the
  burst plus the rate for every started second. A client is not charged for traffic of clients in
  other slots: its decisions are those of a bucket fed with the requests of its own slot alone.\<close>

theorem native_rate_bound:
  assumes "rl_rate cfg \<noteq> 0" "\<forall>(p, t) \<in> set rs. t0 \<le> unat t \<and> unat t \<le> N"
  shows "length (filter (\<lambda>(p, d). d = Allow \<and> (rl_key cfg = ClientIpKey \<longrightarrow> ip_key_bytes p = ip_key_bytes client))
      (decisions (NativeRateLimit_new cfg hs) rs))
    \<le> unat (rl_burst cfg) + unat (rl_rate cfg) * ((N - t0 + 999) div 1000)"
proof -
  let ?rl = "NativeRateLimit_new cfg hs" and ?ds = "decisions (NativeRateLimit_new cfg hs) rs"
  let ?spec = "\<lparr>capacity = rl_burst cfg, refill_tokens = rl_rate cfg, refill_interval_ms = 1000\<rparr>"
  have spec: "nrl_spec ?rl = ?spec" "\<not> no_refill ?spec"
    using assms(1) by (simp_all add: NativeRateLimit_new_def no_refill_def)
  have cnt: "length (filter (\<lambda>(p, d). d = Allow) ps) = count_list (map snd ps) Allow"
    for ps :: "(IpAddr \<times> RateLimitDecision) list"
    by (induction ps) auto
  have bound: "count_list (cell_run (0, 0) ?spec (map snd qs)) Allow
      \<le> unat (rl_burst cfg) + unat (rl_rate cfg) * ((N - t0 + 999) div 1000)"
    if sub: "set qs \<subseteq> set rs" for qs
  proof -
    have pre: "\<forall>(c, n) \<in> set (map (\<lambda>t. (1 :: u64, t)) (map snd qs)). t0 \<le> unat n \<and> unat n \<le> N"
      using sub assms(2) by fastforce
    from zero_cell_bound [OF spec(2) pre] show ?thesis by (simp add: cell_run_bucket add.commute [of 999 "N - t0"])
  qed
  show ?thesis
  proof (cases "rl_key cfg")
    case RouteKey
    then have "map snd ?ds = cell_run (0, 0) ?spec (map snd rs)"
      using route_decisions [of ?rl "(0, 0)" rs] spec(1) by (simp add: NativeRateLimit_new_def)
    then show ?thesis using cnt [of ?ds] bound [of rs] RouteKey by simp
  next
    case ClientIpKey
    let ?k = "slot_for_ip client hs IP_SLOTS"
    let ?mine = "filter (\<lambda>(p, d). slot_for_ip p hs IP_SLOTS = ?k) ?ds"
    let ?reqs = "filter (\<lambda>(p, t). slot_for_ip p hs IP_SLOTS = ?k) rs"
    have k: "?k < IP_SLOTS" using ip_slot_less [of "replicate IP_SLOTS (0, 0)" client hs] by simp
    have "map snd ?mine = cell_run (0, 0) ?spec (map snd ?reqs)"
      using slot_decisions [of ?rl "replicate IP_SLOTS (0, 0)" hs ?k rs] spec(1) k ClientIpKey
      by (simp add: NativeRateLimit_new_def)
    then have "length (filter (\<lambda>(p, d). d = Allow) ?mine)
        \<le> unat (rl_burst cfg) + unat (rl_rate cfg) * ((N - t0 + 999) div 1000)"
      using cnt [of ?mine] bound [of ?reqs] by (simp add: subset_iff)
    moreover have "length (filter (\<lambda>(p, d). d = Allow \<and> ip_key_bytes p = ip_key_bytes client) ps)
        \<le> length (filter (\<lambda>(p, d). d = Allow) (filter (\<lambda>(p, d). slot_for_ip p hs IP_SLOTS = ?k) ps))" for ps
      by (induction ps) (auto simp: slot_for_ip_def)
    ultimately show ?thesis using ClientIpKey by (auto intro: order_trans)
  qed
qed

theorem native_rate_bound_witness:
  "length (filter (\<lambda>(p, d). d = Allow \<and> (RouteKey = ClientIpKey \<longrightarrow> ip_key_bytes p = ip_key_bytes (V4 0)))
     (decisions (NativeRateLimit_new \<lparr>rl_rate = 2, rl_burst = 5, rl_key = RouteKey\<rparr> (\<lambda>_. 0))
        (replicate 100 (V4 7, 90000)))) \<le> 5"
  using native_rate_bound [of "\<lparr>rl_rate = 2, rl_burst = 5, rl_key = RouteKey\<rparr>" "replicate 100 (V4 7, 90000)" 90000 90000]
  by simp

text \<open>what a client key identifies. After an IPv4-mapped address is read as its IPv4 address, two
  IPv4 clients share a key exactly when they are equal and two IPv6 clients exactly when they are in
  the same /64. The two families are not kept apart: the IPv4 address \<open>a.b.c.d\<close> has the key of the
  IPv6 network whose first 32 bits are \<open>a.b.c.d\<close> and whose next 32 bits are zero, for every seed of
  the hash.\<close>

theorem client_key_exact:
  "ip_key_bytes p = ip_key_bytes q \<longleftrightarrow>
     (case (unmap_v4 p, unmap_v4 q) of
        (V4 a, V4 b) \<Rightarrow> a = b
      | (V6 a, V6 b) \<Rightarrow> drop_bit 64 a = drop_bit 64 b
      | (V4 a, V6 b) \<Rightarrow> drop_bit 64 b = push_bit 32 (ucast a)
      | (V6 b, V4 a) \<Rightarrow> drop_bit 64 b = push_bit 32 (ucast a))"
proof -
  have up: "(ucast (drop_bit 64 x) :: u64) = ucast (drop_bit 64 y) \<longleftrightarrow> drop_bit 64 x = drop_bit 64 y"
    for x y :: "128 word"
  proof
    assume eq: "(ucast (drop_bit 64 x) :: u64) = ucast (drop_bit 64 y)"
    show "drop_bit 64 x = drop_bit 64 y"
    proof (rule bit_eqI)
      fix n assume "possible_bit TYPE(128 word) n"
      show "bit (drop_bit 64 x) n = bit (drop_bit 64 y) n"
        using arg_cong [OF eq, of "\<lambda>w. bit w n"] bit_imp_le_length [of x "64 + n"] bit_imp_le_length [of y "64 + n"]
        by (cases "n < 64") (auto simp: bit_simps)
    qed
  qed simp
  have sh: "push_bit 32 (ucast (a :: u32)) = (push_bit 32 (ucast b) :: u64) \<longleftrightarrow> a = b" for a b
  proof
    assume eq: "push_bit 32 (ucast a) = (push_bit 32 (ucast b) :: u64)"
    show "a = b"
    proof (rule bit_eqI)
      fix n assume "possible_bit TYPE(u32) n"
      then show "bit a n = bit b n" using arg_cong [OF eq, of "\<lambda>w. bit w (32 + n)"] by (simp add: bit_simps)
    qed
  qed simp
  have mix: "(push_bit 32 (ucast (a :: u32)) :: u64) = ucast (drop_bit 64 (x :: 128 word)) \<longleftrightarrow>
      drop_bit 64 x = push_bit 32 (ucast a)" for a x
  proof -
    have "drop_bit 64 (push_bit 64 (push_bit 32 (ucast a)) :: 128 word) = push_bit 32 (ucast a)"
      by (rule bit_eqI) (auto simp: bit_simps dest: bit_imp_le_length)
    moreover have "(ucast (push_bit 32 (ucast a) :: 128 word) :: u64) = push_bit 32 (ucast a)"
      by (rule bit_eqI) (auto simp: bit_simps)
    ultimately show ?thesis using up [of x "push_bit 64 (push_bit 32 (ucast a))"] by metis
  qed
  show ?thesis
    unfolding ip_key_word word_octets_inj
    by (cases "unmap_v4 p"; cases "unmap_v4 q") (simp_all add: up sh mix mix [THEN eq_commute [THEN trans]])
qed

end
