(* ===== verification/Route.thy ===== *)
theory Route
  imports Registry RateLimit Http "HOL-Library.Product_Lexorder"
begin

text \<open>
  Host-native routing, \<open>control/src/route.rs\<close>: normalisation of the request target, the match of
  a request against the dimensions of a route, the choice of the most specific route, the rewrite of
  the forwarded path, and the validation of routes at build time. The loaded filters enter only
  through the set of their names.
\<close>

section \<open>Compiled routes\<close>

record CompiledRoute =
  cr_host :: "string option"
  cr_path_prefix :: string
  cr_method :: "string option"
  cr_headers :: "(string \<times> string) list"
  cr_query :: "(string \<times> string) list"
  cr_filters :: "string list"
  cr_reads_body :: bool
  cr_backends :: "nat WeightedBackends"
  cr_strip_prefix :: "string option"
  cr_rate_limit :: "NativeRateLimit option"

record ValidatedRoute =
  vr_route :: Route
  vr_targets :: "(string \<times> u32) list"

record RequestParts =
  rp_authority :: string
  rp_path :: string
  rp_method :: string
  rp_headers :: "Header list"

definition check_route_rate :: "Route \<Rightarrow> ControlError option" where
  "check_route_rate r =
     (case route_rate_limit r of
        None \<Rightarrow> None
      | Some rl \<Rightarrow>
          if rl_rate rl = 0 then Some (InvalidRouteRateLimit (match_path_prefix (matcher r)) RateZero)
          else if rl_burst rl = 0 then Some (InvalidRouteRateLimit (match_path_prefix (matcher r)) BurstZero)
          else None)"

definition validate_route :: "string set \<Rightarrow> string set \<Rightarrow> Route \<Rightarrow> ControlError + ValidatedRoute" where
  "validate_route filters upstream_names r =
     (let pp = match_path_prefix (matcher r) in
      case route_targets r of
        Inl reason \<Rightarrow> Inl (InvalidRoute pp (Targets reason))
      | Inr targets \<Rightarrow>
          (case find (\<lambda>(name, _). name \<notin> upstream_names) targets of
             Some (name, _) \<Rightarrow> Inl (UnknownRouteUpstream pp name)
           | None \<Rightarrow>
               (case validate_split (map snd targets) of
                  Inl reason \<Rightarrow> Inl (InvalidRoute pp (Split reason))
                | Inr _ \<Rightarrow>
                    (case find (\<lambda>f. f \<notin> filters) (route_filters r) of
                       Some f \<Rightarrow> Inl (UnknownRouteFilter pp f)
                     | None \<Rightarrow>
                         (case check_route_rate r of
                            Some e \<Rightarrow> Inl e
                          | None \<Rightarrow> Inr \<lparr>vr_route = r, vr_targets = targets\<rparr>)))))"

fun validate_routes :: "string set \<Rightarrow> string set \<Rightarrow> Route list \<Rightarrow> ControlError + ValidatedRoute list" where
  "validate_routes filters upstream_names [] = Inr []"
| "validate_routes filters upstream_names (r # rs) =
     bind_res (validate_route filters upstream_names r) (\<lambda>v.
     bind_res (validate_routes filters upstream_names rs) (\<lambda>vs. Inr (v # vs)))"

section \<open>Normalisation\<close>

definition normalize_host :: "string \<Rightarrow> string" where
  "normalize_host authority =
     (let host = (case authority of
                    [] \<Rightarrow> []
                  | c # rest \<Rightarrow>
                      if c = CHR ''['' then
                        (case split_once (CHR '']'') rest of
                           Some (inner, _) \<Rightarrow> take (length inner + 2) authority
                         | None \<Rightarrow> authority)
                      else hd (split_at (CHR '':'') authority));
          lowered = ascii_lower host
      in if lowered \<noteq> [] \<and> List.last lowered = CHR ''.'' \<and> hd lowered \<noteq> CHR ''[''
         then butlast lowered else lowered)"

fun contains_encoded_separator :: "string \<Rightarrow> bool" where
  "contains_encoded_separator (a # b # c # s) \<longleftrightarrow>
     a = CHR ''%'' \<and> (b = CHR ''2'' \<and> c \<in> {CHR ''e'', CHR ''E'', CHR ''f'', CHR ''F''} \<or>
                       b = CHR ''5'' \<and> c \<in> {CHR ''c'', CHR ''C''}) \<or>
     contains_encoded_separator (b # c # s)"
| "contains_encoded_separator _ = False"

definition bad_path_byte :: "char \<Rightarrow> bool" where
  "bad_path_byte c \<longleftrightarrow> (let n = of_char c :: nat in n < 32 \<or> n = 127) \<or> c = CHR 0x5C"

fun resolve_dots :: "string list \<Rightarrow> string list \<Rightarrow> string list option" where
  "resolve_dots out [] = Some out"
| "resolve_dots out (seg # segs) =
     (if seg = ''.'' then resolve_dots out segs
      else if seg = ''..'' then
        (if length out \<le> 1 then None else resolve_dots (butlast out) segs)
      else resolve_dots (out @ [seg]) segs)"

definition normalize_path :: "string \<Rightarrow> string option" where
  "normalize_path tgt =
     (let (raw, query) = (case split_once (CHR ''?'') tgt of
                            Some (p, q) \<Rightarrow> (p, Some q) | None \<Rightarrow> (tgt, None))
      in if \<not> prefix ''/'' raw then Some tgt
         else if \<exists>c \<in> set raw. bad_path_byte c then None
         else if contains_encoded_separator raw then None
         else (case resolve_dots [] (split_at (CHR ''/'') raw) of
                 None \<Rightarrow> None
               | Some out \<Rightarrow>
                   (let norm = join_with (CHR ''/'') out;
                        norm = (if norm = [] then ''/'' else norm)
                    in Some (case query of None \<Rightarrow> norm | Some q \<Rightarrow> norm @ CHR ''?'' # q))))"

section \<open>Matching\<close>

definition path_only :: "string \<Rightarrow> string" where
  "path_only path = takeWhile (\<lambda>c. c \<notin> {CHR ''?'', CHR ''#''}) path"

definition path_under_prefix :: "string \<Rightarrow> string \<Rightarrow> bool" where
  "path_under_prefix p path0 =
     (let path = path_only path0 in
      if \<not> prefix p path then False
      else if length path = length p \<or> (p \<noteq> [] \<and> List.last p = CHR ''/'') then True
      else path ! length p = CHR ''/'')"

fun find_query :: "string list \<Rightarrow> string \<Rightarrow> string option" where
  "find_query [] name = None"
| "find_query (pair # ps) name =
     (case split_once (CHR ''='') pair of
        Some (k, v) \<Rightarrow> if k = name then Some v else find_query ps name
      | None \<Rightarrow> find_query ps name)"

definition query_param_matches :: "string \<Rightarrow> string \<Rightarrow> string \<Rightarrow> bool" where
  "query_param_matches query name val = (find_query (split_at (CHR ''&'') query) name = Some val)"

definition header_matches :: "Header list \<Rightarrow> string \<times> string \<Rightarrow> bool" where
  "header_matches headers nv =
     (case first_header headers (fst nv) of Some h \<Rightarrow> h_value h = snd nv | None \<Rightarrow> False)"

definition route_matches ::
  "CompiledRoute \<Rightarrow> string \<Rightarrow> string \<Rightarrow> string \<Rightarrow> Header list \<Rightarrow> string \<Rightarrow> bool" where
  "route_matches r host path method headers query =
     (if (case cr_host r of Some h \<Rightarrow> h \<noteq> host | None \<Rightarrow> False) then False
      else if \<not> path_under_prefix (cr_path_prefix r) path then False
      else if (case cr_method r of Some m \<Rightarrow> method \<noteq> m | None \<Rightarrow> False) then False
      else if \<exists>nv \<in> set (cr_headers r). \<not> header_matches headers nv then False
      else \<not> (\<exists>(n, v) \<in> set (cr_query r). \<not> query_param_matches query n v))"

section \<open>Selection\<close>

text \<open>The specificity key without and with the index that breaks ties, ordered lexicographically.\<close>

type_synonym specificity = "bool \<times> nat \<times> bool \<times> nat \<times> nat"

definition specificity :: "CompiledRoute \<Rightarrow> specificity" where
  "specificity r =
     (cr_host r \<noteq> None, length (cr_path_prefix r), cr_method r \<noteq> None, length (cr_headers r), length (cr_query r))"

definition select_key :: "nat \<times> CompiledRoute \<Rightarrow> bool \<times> nat \<times> bool \<times> nat \<times> nat \<times> nat" where
  "select_key = (\<lambda>(i, r). (cr_host r \<noteq> None, length (cr_path_prefix r), cr_method r \<noteq> None,
      length (cr_headers r), length (cr_query r), 2 ^ 64 - 1 - i))"

text \<open>\<open>Iterator::max_by_key\<close>, which keeps the last of several maxima.\<close>

fun max_by_key :: "('a \<Rightarrow> 'b::linorder) \<Rightarrow> 'a list \<Rightarrow> 'a option" where
  "max_by_key f [] = None"
| "max_by_key f (x # xs) = Some (fold (\<lambda>y best. if f best \<le> f y then y else best) xs x)"

definition request_query :: "string \<Rightarrow> string" where
  "request_query path = (case split_once (CHR ''?'') path of Some (_, q) \<Rightarrow> q | None \<Rightarrow> [])"

definition req_matches :: "RequestParts \<Rightarrow> CompiledRoute \<Rightarrow> bool" where
  "req_matches req r =
     route_matches r (normalize_host (rp_authority req)) (rp_path req) (rp_method req) (rp_headers req)
       (request_query (rp_path req))"

definition select :: "CompiledRoute list \<Rightarrow> RequestParts \<Rightarrow> nat option" where
  "select routes req =
     map_option fst (max_by_key select_key (filter (\<lambda>(_, r). req_matches req r) (List.enumerate 0 routes)))"

definition rewrite_path :: "string \<Rightarrow> string option \<Rightarrow> string" where
  "rewrite_path path strip =
     (case strip of
        None \<Rightarrow> path
      | Some st \<Rightarrow>
          (case strip_prefix st path of
             None \<Rightarrow> path
           | Some rest \<Rightarrow>
               if rest = [] then ''/''
               else if prefix ''/'' rest then rest
               else CHR ''/'' # rest))"

section \<open>What a match hands out\<close>

record RouteInfo =
  ri_index :: nat
  ri_backends :: "nat WeightedBackends"
  ri_strip_prefix :: "string option"
  ri_has_filters :: bool
  ri_reads_body :: bool
  ri_rate_limit :: "NativeRateLimit option"

definition pick_upstream :: "(nat \<Rightarrow> bool) \<Rightarrow> RouteInfo \<Rightarrow> RouteInfo \<times> nat option" where
  "pick_upstream has_elig ri =
     (let (wb, g) = wb_pick has_elig (ri_backends ri) in (ri\<lparr>ri_backends := wb\<rparr>, g))"

definition info_rewrite_path :: "RouteInfo \<Rightarrow> string \<Rightarrow> string" where
  "info_rewrite_path ri path = rewrite_path path (ri_strip_prefix ri)"

definition check_rate_limit :: "RouteInfo \<Rightarrow> IpAddr \<Rightarrow> u64 \<Rightarrow> RouteInfo \<times> RateLimitDecision" where
  "check_rate_limit ri peer clock =
     (case ri_rate_limit ri of
        Some rl \<Rightarrow> (let (rl', d) = check_at rl peer clock in (ri\<lparr>ri_rate_limit := Some rl'\<rparr>, d))
      | None \<Rightarrow> (ri, Allow))"

section \<open>Dot segments\<close>

definition dot_seg :: "string \<Rightarrow> bool" where
  "dot_seg seg \<longleftrightarrow> seg = ''.'' \<or> seg = ''..''"

lemma resolve_clean: "\<forall>seg\<in>set segs. \<not> dot_seg seg \<Longrightarrow> resolve_dots out segs = Some (out @ segs)"
  by (induction segs arbitrary: out) (auto simp: dot_seg_def)

lemma resolve_subset: "resolve_dots out segs = Some res \<Longrightarrow> set res \<subseteq> set out \<union> set segs"
proof (induction segs arbitrary: out)
  case (Cons seg segs)
  then show ?case
    by (auto split: if_splits dest!: Cons.IH in_set_butlastD)
qed simp

lemma resolve_no_dots:
  "resolve_dots out segs = Some res \<Longrightarrow> \<forall>seg\<in>set out. \<not> dot_seg seg \<Longrightarrow> \<forall>seg\<in>set res. \<not> dot_seg seg"
proof (induction segs arbitrary: out)
  case (Cons seg segs)
  consider "seg = ''.''" | "seg = ''..''" | "\<not> dot_seg seg" by (auto simp: dot_seg_def)
  then show ?case
  proof cases
    case 1
    then show ?thesis using Cons.IH [of out] Cons.prems by simp
  next
    case 2
    have "\<forall>x\<in>set (butlast out). \<not> dot_seg x" using Cons.prems(2) by (blast dest: in_set_butlastD)
    then show ?thesis using 2 Cons.IH [of "butlast out"] Cons.prems(1) by (simp split: if_splits)
  next
    case 3
    then have "\<forall>x\<in>set (out @ [seg]). \<not> dot_seg x" using Cons.prems(2) by simp
    then show ?thesis using 3 Cons.IH [of "out @ [seg]"] Cons.prems(1) by (simp add: dot_seg_def)
  qed
qed simp

lemma resolve_keeps_root:
  "resolve_dots (root # out) segs = Some res \<Longrightarrow> \<exists>ws. res = root # ws"
proof (induction segs arbitrary: out)
  case (Cons seg segs)
  then show ?case
    using Cons.IH [of out] Cons.IH [of "butlast out"] Cons.IH [of "out @ [seg]"]
    by (cases "out = []") (auto split: if_splits)
qed auto

text \<open>How deep below the root a list of segments leads.\<close>

fun seg_depth :: "string list \<Rightarrow> int" where
  "seg_depth [] = 0"
| "seg_depth (seg # segs) = (if seg = ''.'' then 0 else if seg = ''..'' then - 1 else 1) + seg_depth segs"

definition escapes_root :: "string list \<Rightarrow> bool" where
  "escapes_root segs \<longleftrightarrow> (\<exists>k\<le>length segs. seg_depth (take k segs) < 0)"

lemma resolve_None_iff:
  "out \<noteq> [] \<Longrightarrow> resolve_dots out segs = None \<longleftrightarrow>
     (\<exists>k\<le>length segs. int (length out) - 1 + seg_depth (take k segs) < 0)"
proof (induction segs arbitrary: out)
  case Nil
  then show ?case by (cases out) auto
next
  case (Cons seg segs)
  let ?w = "if seg = ''.'' then 0 else if seg = ''..'' then - 1 else 1 :: int"
  have sp: "(\<exists>k\<le>length (seg # segs). int (length out) - 1 + seg_depth (take k (seg # segs)) < 0) \<longleftrightarrow>
      (\<exists>k\<le>length segs. int (length out) - 1 + ?w + seg_depth (take k segs) < 0)" (is "?L \<longleftrightarrow> ?R")
  proof
    assume ?L
    then obtain k where k: "k \<le> length (seg # segs)" "int (length out) - 1 + seg_depth (take k (seg # segs)) < 0" by blast
    have "k \<noteq> 0" using k(2) Cons.prems by (cases k) (auto simp: Suc_le_eq)
    then obtain j where "k = Suc j" by (cases k) auto
    then show ?R using k by (intro exI [of _ j]) auto
  next
    assume ?R
    then obtain k where "k \<le> length segs" "int (length out) - 1 + ?w + seg_depth (take k segs) < 0" by blast
    then show ?L by (intro exI [of _ "Suc k"]) auto
  qed
  show ?case
  proof (cases "seg = ''..'' \<and> length out \<le> 1")
    case True
    then have "length out = 1" using Cons.prems by (cases out) auto
    then have "\<exists>k\<le>length segs. int (length out) - 1 + ?w + seg_depth (take k segs) < 0"
      using True by (intro exI [of _ 0]) simp
    then show ?thesis using True sp by simp
  next
    case False
    have bl: "butlast out \<noteq> []" "int (length (butlast out)) = int (length out) - 1" if "seg = ''..''"
      using False that by (auto simp: butlast_conv_take Suc_le_eq)
    show ?thesis
      unfolding sp using Cons.IH [OF Cons.prems] Cons.IH [of "butlast out"] Cons.IH [of "out @ [seg]"] False bl
      by auto
  qed
qed

section \<open>Encoded separators\<close>

lemma ces_Cons: "contains_encoded_separator s \<Longrightarrow> contains_encoded_separator (c # s)"
  by (cases s; cases "tl s") auto

lemma ces_suffix: "contains_encoded_separator b \<Longrightarrow> contains_encoded_separator (a @ b)"
  by (induction a) (auto intro: ces_Cons)

lemma ces_slash [simp]: "contains_encoded_separator (CHR ''/'' # s) \<longleftrightarrow> contains_encoded_separator s"
  by (cases s; cases "tl s") auto

lemma ces_slash2 [simp]:
  "contains_encoded_separator (a # CHR ''/'' # s) \<longleftrightarrow> contains_encoded_separator s"
  by (cases s) (auto simp del: ces_slash, auto)

lemma ces_sep:
  "contains_encoded_separator (u @ CHR ''/'' # v) \<longleftrightarrow>
     contains_encoded_separator u \<or> contains_encoded_separator v"
  by (induction u rule: contains_encoded_separator.induct) (cases v; auto)+

lemma ces_join:
  "contains_encoded_separator (join_with (CHR ''/'') ws) \<longleftrightarrow> (\<exists>w\<in>set ws. contains_encoded_separator w)"
  by (induction "CHR ''/''" ws rule: join_with.induct) (auto simp: ces_sep)

section \<open>Canonical targets\<close>

definition raw_path :: "string \<Rightarrow> string" where
  "raw_path tgt = takeWhile (\<lambda>c. c \<noteq> CHR ''?'') tgt"

definition canonical :: "string \<Rightarrow> bool" where
  "canonical tgt \<longleftrightarrow>
     prefix ''/'' (raw_path tgt) \<and> (\<forall>c\<in>set (raw_path tgt). \<not> bad_path_byte c) \<and>
     \<not> contains_encoded_separator (raw_path tgt) \<and>
     (\<forall>seg\<in>set (split_at (CHR ''/'') (raw_path tgt)). \<not> dot_seg seg)"

definition query_part :: "string \<Rightarrow> string" where
  "query_part tgt = dropWhile (\<lambda>c. c \<noteq> CHR ''?'') tgt"

lemma raw_query: "tgt = raw_path tgt @ query_part tgt"
  by (simp add: raw_path_def query_part_def)

lemma raw_path_append: "CHR ''?'' \<notin> set p \<Longrightarrow> q = [] \<or> hd q = CHR ''?'' \<Longrightarrow> raw_path (p @ q) = p \<and> query_part (p @ q) = q"
  by (induction p) (auto simp: raw_path_def query_part_def dest!: spec split: list.splits, (cases q; simp)+)

lemma raw_path_free: "CHR ''?'' \<notin> set (raw_path tgt)"
  unfolding raw_path_def by (auto dest: set_takeWhileD)

lemma query_part_hd: "query_part tgt = [] \<or> hd (query_part tgt) = CHR ''?''"
  using hd_dropWhile [of "\<lambda>c. c \<noteq> CHR ''?''" tgt] by (simp add: query_part_def) blast

text \<open>Normalisation on the two parts of a target.\<close>

lemma normalize_parts:
  "normalize_path tgt =
     (if \<not> prefix ''/'' (raw_path tgt) then Some tgt
      else if (\<exists>c \<in> set (raw_path tgt). bad_path_byte c) \<or> contains_encoded_separator (raw_path tgt) then None
      else map_option (\<lambda>out. (let norm = join_with (CHR ''/'') out in if norm = [] then ''/'' else norm) @ query_part tgt)
             (resolve_dots [] (split_at (CHR ''/'') (raw_path tgt))))"
proof (cases "split_once (CHR ''?'') tgt")
  case None
  then have "CHR ''?'' \<notin> set tgt" by (simp add: split_once_None_iff)
  then have "raw_path tgt = tgt" "query_part tgt = []"
    using raw_path_append [of tgt "[]"] by auto
  then show ?thesis by (simp add: normalize_path_def None Let_def split: option.splits)
next
  case (Some pq)
  obtain p q where pq: "pq = (p, q)" by (cases pq)
  then have "tgt = p @ CHR ''?'' # q" "CHR ''?'' \<notin> set p" using Some by (simp_all add: split_once_Some_iff)
  then have "raw_path tgt = p" "query_part tgt = CHR ''?'' # q"
    using raw_path_append [of p "CHR ''?'' # q"] by auto
  then show ?thesis by (simp add: normalize_path_def Some pq Let_def split: option.splits)
qed

lemma slash_split: "split_at (CHR ''/'') (CHR ''/'' # r) = [] # split_at (CHR ''/'') r"
  by simp

lemma join_root: "(let norm = join_with (CHR ''/'') ([] # ws) in if norm = [] then ''/'' else norm) =
    CHR ''/'' # join_with (CHR ''/'') ws"
  by (cases ws) (simp_all add: Let_def)

lemma canonical_fixed: "canonical tgt \<Longrightarrow> normalize_path tgt = Some tgt"
proof -
  assume c: "canonical tgt"
  then obtain r where r: "raw_path tgt = CHR ''/'' # r" by (auto simp: canonical_def prefix_def)
  have "resolve_dots [] (split_at (CHR ''/'') (raw_path tgt)) = Some (split_at (CHR ''/'') (raw_path tgt))"
    using c resolve_clean [of "split_at (CHR ''/'') (raw_path tgt)" "[]"] by (simp add: canonical_def)
  then show ?thesis
    using c raw_query [of tgt] join_root [of "split_at (CHR ''/'') r"]
    by (simp add: normalize_parts canonical_def r)
qed

lemma normalize_canonical:
  assumes "normalize_path tgt = Some n" "prefix ''/'' tgt"
  shows "canonical n \<and> query_part n = query_part tgt"
proof -
  obtain r where r: "raw_path tgt = CHR ''/'' # r"
    using assms(2) by (auto simp: raw_path_def prefix_def)
  have ok: "\<forall>c\<in>set (raw_path tgt). \<not> bad_path_byte c" "\<not> contains_encoded_separator (raw_path tgt)"
    using assms(1) by (auto simp: normalize_parts r split: if_splits)
  obtain res where res: "resolve_dots [[]] (split_at (CHR ''/'') r) = Some res"
    "n = (let norm = join_with (CHR ''/'') res in if norm = [] then ''/'' else norm) @ query_part tgt"
    using assms(1) by (auto simp: normalize_parts r split: if_splits)
  obtain ws where ws: "res = [] # ws" using resolve_keeps_root [OF res(1)] by blast
  let ?raw = "CHR ''/'' # join_with (CHR ''/'') ws"
  have sub: "set res \<subseteq> {[]} \<union> set (split_at (CHR ''/'') r)" using resolve_subset [OF res(1)] by simp
  have wfree: "\<forall>w\<in>set ws. CHR ''/'' \<notin> set w \<and> set w \<subseteq> set r"
    using sub split_at_set by (fastforce simp: ws)
  have nodots: "\<forall>w\<in>set ws. \<not> dot_seg w"
    using resolve_no_dots [OF res(1)] by (auto simp: ws dot_seg_def)
  have chars: "set ?raw \<subseteq> set (raw_path tgt)"
    using set_join_with [of "CHR ''/''" ws] wfree unfolding r by fastforce
  have "CHR ''?'' \<notin> set ?raw" using chars raw_path_free [of tgt] by blast
  then have parts: "raw_path n = ?raw" "query_part n = query_part tgt"
    using raw_path_append [OF _ query_part_hd [of tgt], of ?raw] res(2) unfolding ws join_root by auto
  have "\<not> contains_encoded_separator ?raw"
  proof -
    have "\<not> contains_encoded_separator w" if w: "w \<in> set ws" for w
    proof (cases "w = []")
      case False
      then have "w \<in> set (split_at (CHR ''/'') r)" using sub w ws by auto
      moreover have "\<not> contains_encoded_separator (join_with (CHR ''/'') (split_at (CHR ''/'') r))"
        using ok(2) by (simp add: r)
      ultimately show ?thesis unfolding ces_join by blast
    qed simp
    then show ?thesis by (auto simp: ces_join)
  qed
  moreover have "\<forall>seg\<in>set (split_at (CHR ''/'') ?raw). \<not> dot_seg seg"
    using nodots wfree split_join [of ws "CHR ''/''"] by (cases "ws = []") (auto simp: dot_seg_def)
  ultimately show ?thesis using parts chars ok(1) by (auto simp: canonical_def)
qed

lemma normalize_None_iff:
  assumes "prefix ''/'' tgt"
  shows "normalize_path tgt = None \<longleftrightarrow>
    (\<exists>c \<in> set (raw_path tgt). bad_path_byte c) \<or> contains_encoded_separator (raw_path tgt) \<or>
    escapes_root (tl (split_at (CHR ''/'') (raw_path tgt)))"
proof -
  obtain r where r: "raw_path tgt = CHR ''/'' # r"
    using assms by (auto simp: raw_path_def prefix_def)
  show ?thesis
    using resolve_None_iff [of "[[]]" "split_at (CHR ''/'') r"]
    by (auto simp: normalize_parts r escapes_root_def)
qed

section \<open>Rewriting\<close>

lemma canonical_slash:
  "canonical (CHR ''/'' # u) \<longleftrightarrow>
     (\<forall>c\<in>set (raw_path u). \<not> bad_path_byte c) \<and> \<not> contains_encoded_separator (raw_path u) \<and>
     (\<forall>seg\<in>set (split_at (CHR ''/'') (raw_path u)). \<not> dot_seg seg)"
proof -
  have "raw_path (CHR ''/'' # u) = CHR ''/'' # raw_path u" by (simp add: raw_path_def)
  then show ?thesis by (auto simp: canonical_def bad_path_byte_def dot_seg_def)
qed

lemma raw_path_suffix:
  "CHR ''?'' \<notin> set a \<Longrightarrow> raw_path (a @ b) = a @ raw_path b"
  by (induction a) (auto simp: raw_path_def)

text \<open>What follows a separator in a canonical target is canonical below a new root.\<close>

lemma canonical_tail:
  assumes "canonical (a @ CHR ''/'' # u)" "CHR ''?'' \<notin> set a"
  shows "canonical (CHR ''/'' # u)"
proof -
  have rp: "raw_path (a @ CHR ''/'' # u) = a @ CHR ''/'' # raw_path u"
    using raw_path_suffix [OF assms(2)] by (simp add: raw_path_def)
  show ?thesis
    using assms(1) [unfolded canonical_def rp] unfolding canonical_slash
    by (auto simp: ces_sep split_at_append_sep)
qed

text \<open>The same after a fragment mark, which opens an ordinary segment.\<close>

lemma canonical_fragment:
  assumes "canonical (a @ CHR ''#'' # u)" "CHR ''?'' \<notin> set a"
  shows "canonical (CHR ''/'' # CHR ''#'' # u)"
proof -
  have rp: "raw_path (a @ CHR ''#'' # u) = a @ CHR ''#'' # raw_path u"
    using raw_path_suffix [OF assms(2)] by (simp add: raw_path_def)
  obtain w ws where w: "split_at (CHR ''/'') (raw_path u) = w # ws"
    by (cases "split_at (CHR ''/'') (raw_path u)") simp_all
  have "\<exists>us. us \<noteq> [] \<and> split_at (CHR ''/'') (a @ CHR ''#'' # raw_path u) = us @ ws"
  proof (induction a)
    case (Cons x a)
    then obtain us where "us \<noteq> []" "split_at (CHR ''/'') (a @ CHR ''#'' # raw_path u) = us @ ws" by blast
    then show ?case by (cases us) (auto intro: exI [of _ "[] # us"] exI [of _ "(x # hd us) # tl us"])
  qed (auto simp: w intro: exI [of _ "[CHR ''#'' # w]"])
  then have segs: "set ws \<subseteq> set (split_at (CHR ''/'') (a @ CHR ''#'' # raw_path u))" by auto
  have "\<not> contains_encoded_separator (CHR ''#'' # raw_path u)"
    using assms(1) ces_suffix [of "CHR ''#'' # raw_path u" a] by (auto simp: canonical_def rp)
  moreover have "raw_path (CHR ''#'' # u) = CHR ''#'' # raw_path u" by (simp add: raw_path_def)
  moreover note assms(1) [unfolded canonical_def rp]
  ultimately show ?thesis using segs unfolding canonical_slash by (auto simp: w dot_seg_def)
qed

lemma under_prefix_cases:
  assumes "path_under_prefix p s"
  obtains (all) "s = p" | (query) u where "s = p @ CHR ''?'' # u" | (frag) u where "s = p @ CHR ''#'' # u"
  | (slash) u where "s = p @ CHR ''/'' # u" | (dir) p0 u where "p = p0 @ ''/''" "s = p @ u"
proof -
  have pre: "prefix p (path_only s)"
    and bnd: "length (path_only s) = length p \<or> (p \<noteq> [] \<and> List.last p = CHR ''/'') \<or> path_only s ! length p = CHR ''/''"
    using assms by (auto simp: path_under_prefix_def Let_def split: if_splits)
  obtain t where t: "path_only s = p @ t" using pre by (auto simp: prefix_def)
  have s: "s = p @ t @ dropWhile (\<lambda>c. c \<notin> {CHR ''?'', CHR ''#''}) s"
    by (metis append.assoc path_only_def t takeWhile_dropWhile_id)
  let ?d = "dropWhile (\<lambda>c. c \<notin> {CHR ''?'', CHR ''#''}) s"
  have hd: "?d \<noteq> [] \<Longrightarrow> hd ?d \<in> {CHR ''?'', CHR ''#''}"
    using hd_dropWhile [of "\<lambda>c. c \<notin> {CHR ''?'', CHR ''#''}" s] by blast
  consider "t = []" | "p \<noteq> []" "List.last p = CHR ''/''" | "t \<noteq> []" "hd t = CHR ''/''"
    using bnd t by (cases t) auto
  then show ?thesis
  proof cases
    case 1
    show ?thesis
    proof (cases ?d)
      case Nil
      have "s = p" using s unfolding Nil 1 by simp
      then show ?thesis by (rule all)
    next
      case (Cons c u)
      have "s = p @ c # u" using s unfolding Cons 1 by simp
      moreover have "c = CHR ''?'' \<or> c = CHR ''#''" using hd unfolding Cons by simp
      ultimately show ?thesis using query [of u] frag [of u] by blast
    qed
  next
    case 2
    then have "p = butlast p @ ''/''" using append_butlast_last_id [of p] by simp
    from dir [OF this s] show ?thesis .
  next
    case 3
    then obtain t' where "t = CHR ''/'' # t'" by (cases t) auto
    from s [unfolded this append_Cons] show ?thesis by (rule slash)
  qed
qed

lemma prefix_no_query: "path_under_prefix p s \<Longrightarrow> CHR ''?'' \<notin> set p"
proof -
  assume "path_under_prefix p s"
  then obtain t where "path_only s = p @ t"
    by (auto simp: path_under_prefix_def Let_def prefix_def split: if_splits)
  then have "set p \<subseteq> set (path_only s)" by simp
  then show ?thesis by (auto simp: path_only_def dest!: set_takeWhileD)
qed

lemma rewrite_canonical:
  assumes "canonical s" "path_under_prefix p s"
  shows "canonical (rewrite_path s (Some p))"
proof -
  note q = prefix_no_query [OF assms(2)]
  have root: "canonical (''/'' @ (if u = [] then [] else CHR ''?'' # u))" for u
    by (auto simp: canonical_def raw_path_def bad_path_byte_def dot_seg_def)
  have rw: "rewrite_path (p @ u) (Some p) = (if u = [] then ''/'' else if prefix ''/'' u then u else CHR ''/'' # u)" for u
    by (simp add: rewrite_path_def strip_prefix_def)
  show ?thesis
    using assms(2)
  proof (cases rule: under_prefix_cases)
    case all
    then show ?thesis using rw [of "[]"] root [of "[]"] by simp
  next
    case (query u)
    have "canonical (CHR ''/'' # CHR ''?'' # u)"
      by (simp add: canonical_def raw_path_def bad_path_byte_def dot_seg_def)
    then show ?thesis using rw [of "CHR ''?'' # u"] query by simp
  next
    case (frag u)
    then show ?thesis using rw [of "CHR ''#'' # u"] canonical_fragment [of p u] assms(1) q by simp
  next
    case (slash u)
    then show ?thesis using rw [of "CHR ''/'' # u"] canonical_tail [of p u] assms(1) q by simp
  next
    case (dir p0 u)
    have c: "canonical (CHR ''/'' # u)" using canonical_tail [of p0 u] assms(1) q dir by simp
    show ?thesis
    proof (cases "prefix ''/'' u")
      case True
      then obtain u' where "u = CHR ''/'' # u'" by (auto simp: prefix_def)
      then show ?thesis using rw [of u] dir canonical_tail [of "p" u'] assms(1) q by simp
    next
      case False
      then show ?thesis using rw [of u] dir c by (cases u) simp_all
    qed
  qed
qed

section \<open>Choosing a maximum\<close>

lemma fold_max_key:
  fixes f :: "'a \<Rightarrow> 'b::linorder"
  shows "let m = fold (\<lambda>y best. if f best \<le> f y then y else best) xs x in
    m \<in> insert x (set xs) \<and> (\<forall>y \<in> insert x (set xs). f y \<le> f m)"
proof (induction xs arbitrary: x)
  case (Cons y xs)
  show ?case
    using Cons.IH [of "if f x \<le> f y then y else x"] by (auto simp: Let_def split: if_splits)
qed simp

lemma max_by_key_Some:
  "max_by_key f xs = Some m \<Longrightarrow> m \<in> set xs \<and> (\<forall>y \<in> set xs. f y \<le> f m)"
  using fold_max_key [of f] by (cases xs) (auto simp: Let_def)

lemma max_by_key_None: "max_by_key f xs = None \<longleftrightarrow> xs = []"
  by (cases xs) simp_all

section \<open>Properties\<close>

text \<open>C11: normalisation is a fixed point and fails closed. For every target in origin form it either
  rejects, exactly when the path has a control byte, a backslash, an encoded separator or dot, or a
  \<open>..\<close> that leaves the root; or it returns a target with no \<open>.\<close> or \<open>..\<close> segment and none of those
  bytes, with the query untouched, which it would return unchanged if asked again: an origin that
  resolves the forwarded path arrives at the path that was routed.\<close>

theorem normalize_path_safe:
  assumes "prefix ''/'' tgt"
  shows "(case normalize_path tgt of
      None \<Rightarrow> (\<exists>c \<in> set (raw_path tgt). bad_path_byte c) \<or> contains_encoded_separator (raw_path tgt) \<or>
              escapes_root (tl (split_at (CHR ''/'') (raw_path tgt)))
    | Some n \<Rightarrow> canonical n \<and> query_part n = query_part tgt \<and> normalize_path n = Some n \<and>
        (\<forall>c \<in> set (raw_path tgt). \<not> bad_path_byte c) \<and> \<not> contains_encoded_separator (raw_path tgt) \<and>
        \<not> escapes_root (tl (split_at (CHR ''/'') (raw_path tgt))))"
proof (cases "normalize_path tgt")
  case None
  then show ?thesis using normalize_None_iff [OF assms] by simp
next
  case (Some n)
  have "canonical n \<and> query_part n = query_part tgt" by (rule normalize_canonical [OF Some assms])
  then show ?thesis
    using Some canonical_fixed [of n] normalize_None_iff [OF assms] by simp
qed

theorem normalize_path_safe_witness:
  "normalize_path ''/a/./b/../c?x=../y'' = Some ''/a/c?x=../y'' \<and>
   normalize_path ''/a/c?x=../y'' = Some ''/a/c?x=../y'' \<and> normalize_path ''/a/../../etc'' = None"
proof -
  have 1: "normalize_path ''/a/./b/../c?x=../y'' = Some ''/a/c?x=../y''" by code_simp
  have 2: "normalize_path ''/a/../../etc'' = None" by code_simp
  show ?thesis using normalize_path_safe [of "''/a/./b/../c?x=../y''"] 1 2 by simp
qed

text \<open>C25: the most specific matching route wins. A route is selected exactly when some route matches,
  the selected one matches, and every other matching route is less specific in the order host, length
  of the path prefix, method, number of headers, number of query parameters, or equally specific and
  later in the manifest.\<close>

theorem select_most_specific:
  assumes "length routes \<le> 2 ^ 64"
  shows "case select routes req of
      None \<Rightarrow> \<forall>r \<in> set routes. \<not> req_matches req r
    | Some i \<Rightarrow> i < length routes \<and> req_matches req (routes ! i) \<and>
        (\<forall>j < length routes. j \<noteq> i \<longrightarrow> req_matches req (routes ! j) \<longrightarrow>
           specificity (routes ! j) < specificity (routes ! i) \<or>
           specificity (routes ! j) = specificity (routes ! i) \<and> i < j)"
proof -
  let ?c = "filter (\<lambda>(_, r). req_matches req r) (List.enumerate 0 routes)"
  have mem: "(i, r) \<in> set ?c \<longleftrightarrow> i < length routes \<and> r = routes ! i \<and> req_matches req r" for i r
    by (auto simp: in_set_enumerate_eq)
  show ?thesis
  proof (cases "max_by_key select_key ?c")
    case None
    then have e: "?c = []" by (simp add: max_by_key_None)
    have "\<not> req_matches req r" if rr: "r \<in> set routes" for r
    proof -
      obtain i where "i < length routes" "routes ! i = r" using rr by (auto simp: in_set_conv_nth)
      then show ?thesis using mem [of i r] unfolding e by simp
    qed
    then show ?thesis using None by (simp add: select_def)
  next
    case (Some m)
    obtain i r where m: "m = (i, r)" by (cases m)
    have i: "i < length routes" "r = routes ! i" "req_matches req r"
      using max_by_key_Some [OF Some] mem [of i r] by (auto simp: m)
    have best: "specificity (routes ! j) < specificity (routes ! i) \<or>
        specificity (routes ! j) = specificity (routes ! i) \<and> i < j"
      if j: "j < length routes" "j \<noteq> i" "req_matches req (routes ! j)" for j
    proof -
      have "(j, routes ! j) \<in> set ?c" using mem [of j "routes ! j"] j by blast
      then have "select_key (j, routes ! j) \<le> select_key m" using max_by_key_Some [OF Some] by blast
      then show ?thesis
        using j(1,2) assms i
        by (auto simp: select_key_def specificity_def m less_eq_prod_simp less_prod_simp)
    qed
    then show ?thesis using Some i by (simp add: select_def m)
  qed
qed

definition example_route :: "string \<Rightarrow> CompiledRoute" where
  "example_route p = \<lparr>cr_host = None, cr_path_prefix = p, cr_method = None, cr_headers = [], cr_query = [],
     cr_filters = [], cr_reads_body = False,
     cr_backends = \<lparr>WeightedBackends.groups = [0], table = [0], cursor = 0\<rparr>,
     cr_strip_prefix = None, cr_rate_limit = None\<rparr>"

theorem select_most_specific_witness:
  "select [example_route ''/'', example_route ''/api'']
     \<lparr>rp_authority = ''x'', rp_path = ''/api/u'', rp_method = ''GET'', rp_headers = []\<rparr> = Some 1"
proof -
  let ?rs = "[example_route ''/'', example_route ''/api'']"
  let ?q = "\<lparr>rp_authority = ''x'', rp_path = ''/api/u'', rp_method = ''GET'', rp_headers = []\<rparr>"
  have m: "req_matches ?q (example_route ''/'')" "req_matches ?q (example_route ''/api'')"
    by (simp_all add: req_matches_def route_matches_def path_under_prefix_def path_only_def example_route_def)
  have sp: "specificity (example_route ''/'') < specificity (example_route ''/api'')"
    by (simp add: specificity_def example_route_def less_prod_simp)
  have ms: "case select ?rs ?q of
      None \<Rightarrow> \<forall>r \<in> set ?rs. \<not> req_matches ?q r
    | Some i \<Rightarrow> i < length ?rs \<and> req_matches ?q (?rs ! i) \<and>
        (\<forall>j < length ?rs. j \<noteq> i \<longrightarrow> req_matches ?q (?rs ! j) \<longrightarrow>
           specificity (?rs ! j) < specificity (?rs ! i) \<or>
           specificity (?rs ! j) = specificity (?rs ! i) \<and> i < j)"
    by (rule select_most_specific) simp
  show ?thesis
  proof (cases "select ?rs ?q")
    case (Some i)
    then have "i = 0 \<or> i = 1" using ms by auto
    moreover have "i \<noteq> 0"
    proof
      assume "i = 0"
      then have "specificity (example_route ''/api'') \<le> specificity (example_route ''/'')"
        using ms Some m by (auto dest!: spec [of _ 1])
      then show False using sp by simp
    qed
    ultimately show ?thesis using Some by simp
  qed (use ms m in simp)
qed

text \<open>prefixes are matched by whole segments. For a prefix that does not end in a slash, a path is
  under it exactly when the segments of the path start with the segments of the prefix, whatever
  query or fragment follows.\<close>

theorem path_prefix_segments:
  assumes "p = [] \<or> List.last p \<noteq> CHR ''/''"
  shows "path_under_prefix p path \<longleftrightarrow> prefix (split_at (CHR ''/'') p) (split_at (CHR ''/'') (path_only path))"
proof -
  have "path_under_prefix p path \<longleftrightarrow> path_only path = p \<or> (\<exists>t. path_only path = p @ CHR ''/'' # t)"
  proof
    assume "path_under_prefix p path"
    then have pre: "prefix p (path_only path)"
      and b: "length (path_only path) = length p \<or> path_only path ! length p = CHR ''/''"
      using assms by (auto simp: path_under_prefix_def Let_def split: if_splits)
    obtain t where t: "path_only path = p @ t" using pre by (auto simp: prefix_def)
    show "path_only path = p \<or> (\<exists>t. path_only path = p @ CHR ''/'' # t)"
      using b t by (cases t) auto
  qed (auto simp: path_under_prefix_def Let_def)
  then show ?thesis by (simp add: prefix_split_at)
qed

theorem path_prefix_segments_witness:
  "path_under_prefix ''/api'' ''/api/x?y'' \<and> \<not> path_under_prefix ''/api'' ''/apix''"
proof -
  have "path_under_prefix ''/api'' ''/api/x?y''"
    by (subst path_prefix_segments) (simp_all add: path_only_def)
  moreover have "\<not> path_under_prefix ''/api'' ''/apix''"
    by (subst path_prefix_segments) (simp_all add: path_only_def)
  ultimately show ?thesis by blast
qed

text \<open>stripping a prefix the path is under keeps it normalised: the path sent to the origin is
  canonical and would be normalised to itself. The boundary matters, and the rewrite does not check
  it: stripping \<open>/api\<close> from the normalised path \<open>/api../secret\<close> sends \<open>/../secret\<close>.\<close>

theorem rewrite_stays_normal:
  assumes "normalize_path tgt = Some n" "prefix ''/'' tgt" "path_under_prefix st n"
  shows "normalize_path (rewrite_path n (Some st)) = Some (rewrite_path n (Some st)) \<and>
    normalize_path ''/api../secret'' = Some ''/api../secret'' \<and>
    rewrite_path ''/api../secret'' (Some ''/api'') = ''/../secret'' \<and>
    normalize_path ''/../secret'' = None"
proof -
  have "canonical n" using normalize_canonical [OF assms(1,2)] by blast
  from canonical_fixed [OF rewrite_canonical [OF this assms(3)]]
  have "normalize_path (rewrite_path n (Some st)) = Some (rewrite_path n (Some st))" .
  moreover have "normalize_path ''/api../secret'' = Some ''/api../secret''" by code_simp
  moreover have "rewrite_path ''/api../secret'' (Some ''/api'') = ''/../secret''" by code_simp
  moreover have "normalize_path ''/../secret'' = None" by code_simp
  ultimately show ?thesis by blast
qed

theorem rewrite_stays_normal_witness:
  "normalize_path (rewrite_path ''/api/u'' (Some ''/api'')) = Some (rewrite_path ''/api/u'' (Some ''/api''))"
proof -
  have "normalize_path ''/api/x/../u'' = Some ''/api/u''" by code_simp
  from rewrite_stays_normal [OF this] show ?thesis by (simp add: path_under_prefix_def path_only_def)
qed

end
