(* ===== verification/Chain.thy ===== *)
theory Chain
  imports Observe Route
begin

text \<open>
  The filter chain and the configuration a request is pinned to, \<open>control/src/chain.rs\<close> and
  \<open>control/src/snapshot.rs\<close>. A filter is the three hooks the chain calls, each over the state \<open>'w\<close> of
  the world; \<open>ActiveConfig\<close> is the immutable configuration of \<open>control/src/lib.rs\<close>.
\<close>

section \<open>Configuration\<close>

record 'w Filter =
  f_on_request :: "RequestTrace \<Rightarrow> HttpRequest \<Rightarrow> 'w \<Rightarrow> (RunError + RequestDecision \<times> LogLine list) \<times> 'w"
  f_on_request_body :: "RequestTrace \<Rightarrow> bytes \<Rightarrow> 'w \<Rightarrow> (RunError + RequestBodyDecision \<times> LogLine list) \<times> 'w"
  f_on_response :: "RequestTrace \<Rightarrow> HttpResponse \<Rightarrow> 'w \<Rightarrow> (RunError + ResponseDecision \<times> LogLine list) \<times> 'w"
  f_reads_body :: bool

record ('w, 'tls) ActiveConfig =
  ac_filters :: "string \<Rightarrow> 'w Filter option"
  ac_chain :: "string list"
  ac_routes :: "CompiledRoute list"
  ac_tls :: "'tls option"
  ac_quic_tls :: "'tls option"
  ac_hash :: string

section \<open>Edits\<close>

definition is_repeatable :: "string \<Rightarrow> bool" where
  "is_repeatable name = eq_ignore_case name ''set-cookie''"

fun remove_headers :: "Header list \<Rightarrow> string list \<Rightarrow> Header list" where
  "remove_headers hs [] = hs"
| "remove_headers hs (name # names) = remove_headers (filter (\<lambda>h. \<not> eq_ignore_case (h_name h) name) hs) names"

fun set_headers :: "Header list \<Rightarrow> Header list \<Rightarrow> Header list" where
  "set_headers hs [] = hs"
| "set_headers hs (x # xs) =
     (let hs = (if is_repeatable (h_name x) then hs else filter (\<lambda>e. \<not> eq_ignore_case (h_name e) (h_name x)) hs)
      in set_headers (hs @ [x]) xs)"

definition apply_request_edit :: "HttpRequest \<Rightarrow> RequestEdit \<Rightarrow> HttpRequest" where
  "apply_request_edit r e =
     r\<lparr>req_headers := set_headers (remove_headers (req_headers r) (re_remove_headers e)) (re_set_headers e)\<rparr>"

definition apply_response_edit :: "HttpResponse \<Rightarrow> ResponseEdit \<Rightarrow> HttpResponse" where
  "apply_response_edit r e =
     (let r = (case rs_set_status e of Some s \<Rightarrow> r\<lparr>resp_status := s\<rparr> | None \<Rightarrow> r)
      in r\<lparr>resp_headers := set_headers (remove_headers (resp_headers r) (rs_remove_headers e)) (rs_set_headers e)\<rparr>)"

section \<open>Dispatch\<close>

datatype ChainOutcome = Respond HttpResponse | Forward HttpRequest

datatype RequestBodyOutcome = BodyRespond HttpResponse | BodyForward bytes

fun dispatch_request ::
    "('w, 'tls) ActiveConfig \<Rightarrow> string list \<Rightarrow> HttpRequest \<Rightarrow> RequestTrace \<Rightarrow> 'w \<Rightarrow> ChainOutcome \<times> 'w" where
  "dispatch_request active [] request trace w = (Forward request, w)"
| "dispatch_request active (fid # chain) request trace w =
     (case ac_filters active fid of
        None \<Rightarrow> dispatch_request active chain request trace w
      | Some f \<Rightarrow>
          (case f_on_request f trace request w of
             (Inr (Continue, _), w) \<Rightarrow> dispatch_request active chain request trace w
           | (Inr (Modified edit, _), w) \<Rightarrow> dispatch_request active chain (apply_request_edit request edit) trace w
           | (Inr (ShortCircuit response, _), w) \<Rightarrow> (Respond response, w)
           | (Inl err, w) \<Rightarrow> (Respond (fail_closed_response err), w)))"

fun dispatch_request_body ::
    "('w, 'tls) ActiveConfig \<Rightarrow> string list \<Rightarrow> bytes \<Rightarrow> RequestTrace \<Rightarrow> 'w \<Rightarrow> RequestBodyOutcome \<times> 'w" where
  "dispatch_request_body active [] body trace w = (BodyForward body, w)"
| "dispatch_request_body active (fid # chain) body trace w =
     (case ac_filters active fid of
        None \<Rightarrow> dispatch_request_body active chain body trace w
      | Some f \<Rightarrow>
          (case f_on_request_body f trace body w of
             (Inr (BodyContinue body', _), w) \<Rightarrow> dispatch_request_body active chain body' trace w
           | (Inr (BodyShortCircuit response, _), w) \<Rightarrow> (BodyRespond response, w)
           | (Inl err, w) \<Rightarrow> (BodyRespond (fail_closed_response err), w)))"

fun response_loop ::
    "('w, 'tls) ActiveConfig \<Rightarrow> string list \<Rightarrow> HttpResponse \<Rightarrow> RequestTrace \<Rightarrow> 'w \<Rightarrow> HttpResponse \<times> 'w" where
  "response_loop active [] response trace w = (response, w)"
| "response_loop active (fid # chain) response trace w =
     (case ac_filters active fid of
        None \<Rightarrow> response_loop active chain response trace w
      | Some f \<Rightarrow>
          (case f_on_response f trace response w of
             (Inr (RespContinue, _), w) \<Rightarrow> response_loop active chain response trace w
           | (Inr (RespModified edit, _), w) \<Rightarrow> response_loop active chain (apply_response_edit response edit) trace w
           | (Inl err, w) \<Rightarrow> (fail_closed_response err, w)))"

definition dispatch_response ::
    "('w, 'tls) ActiveConfig \<Rightarrow> string list \<Rightarrow> HttpResponse \<Rightarrow> RequestTrace \<Rightarrow> 'w \<Rightarrow> HttpResponse \<times> 'w" where
  "dispatch_response active chain response trace w = response_loop active (rev chain) response trace w"

section \<open>Snapshots\<close>

record ('w, 'tls) ConfigSnapshot =
  snap_config :: "('w, 'tls) ActiveConfig"
  snap_trace :: RequestTrace

definition snap_on_request :: "('w, 'tls) ConfigSnapshot \<Rightarrow> HttpRequest \<Rightarrow> 'w \<Rightarrow> ChainOutcome \<times> 'w" where
  "snap_on_request s request w = dispatch_request (snap_config s) (ac_chain (snap_config s)) request (snap_trace s) w"

definition snap_on_response :: "('w, 'tls) ConfigSnapshot \<Rightarrow> HttpResponse \<Rightarrow> 'w \<Rightarrow> HttpResponse \<times> 'w" where
  "snap_on_response s response w = dispatch_response (snap_config s) (ac_chain (snap_config s)) response (snap_trace s) w"

definition find_route :: "('w, 'tls) ConfigSnapshot \<Rightarrow> HttpRequest \<Rightarrow> RouteInfo option" where
  "find_route s request =
     (let parts = \<lparr>rp_authority = req_authority request, rp_path = req_path request, rp_method = req_method request,
                   rp_headers = req_headers request\<rparr>
      in map_option
           (\<lambda>i. let r = ac_routes (snap_config s) ! i
                in \<lparr>ri_index = i, ri_backends = cr_backends r, ri_strip_prefix = cr_strip_prefix r,
                    ri_has_filters = (cr_filters r \<noteq> []), ri_reads_body = cr_reads_body r, ri_rate_limit = cr_rate_limit r\<rparr>)
           (select (ac_routes (snap_config s)) parts))"

definition no_route_response :: HttpResponse where
  "no_route_response =
     \<lparr>resp_status = 404, resp_headers = [\<lparr>h_name = ''x-plecto-fault'', h_value = ''no-route''\<rparr>],
      resp_body = str_bytes ''no route''\<rparr>"

definition route_at :: "('w, 'tls) ConfigSnapshot \<Rightarrow> nat \<Rightarrow> CompiledRoute option" where
  "route_at s i = (let rs = ac_routes (snap_config s) in if i < length rs then Some (rs ! i) else None)"

definition snap_dispatch_request :: "('w, 'tls) ConfigSnapshot \<Rightarrow> nat \<Rightarrow> HttpRequest \<Rightarrow> 'w \<Rightarrow> ChainOutcome \<times> 'w" where
  "snap_dispatch_request s i request w =
     (case route_at s i of
        Some r \<Rightarrow> dispatch_request (snap_config s) (cr_filters r) request (snap_trace s) w
      | None \<Rightarrow> (Respond no_route_response, w))"

definition snap_dispatch_request_body :: "('w, 'tls) ConfigSnapshot \<Rightarrow> nat \<Rightarrow> bytes \<Rightarrow> 'w \<Rightarrow> RequestBodyOutcome \<times> 'w" where
  "snap_dispatch_request_body s i body w =
     (case route_at s i of
        Some r \<Rightarrow> dispatch_request_body (snap_config s) (cr_filters r) body (snap_trace s) w
      | None \<Rightarrow> (BodyForward body, w))"

definition snap_dispatch_response :: "('w, 'tls) ConfigSnapshot \<Rightarrow> nat \<Rightarrow> HttpResponse \<Rightarrow> 'w \<Rightarrow> HttpResponse \<times> 'w" where
  "snap_dispatch_response s i response w =
     (case route_at s i of
        Some r \<Rightarrow> dispatch_response (snap_config s) (cr_filters r) response (snap_trace s) w
      | None \<Rightarrow> (response, w))"

definition config_version :: "('w, 'tls) ConfigSnapshot \<Rightarrow> string" where
  "config_version s = ac_hash (snap_config s)"

definition snap_traceparent :: "(bytes \<Rightarrow> string) \<Rightarrow> ('w, 'tls) ConfigSnapshot \<Rightarrow> string" where
  "snap_traceparent hex_encode s = to_traceparent hex_encode (snap_trace s)"

section \<open>Edits, by the values of a name\<close>

lemma eq_ignore_case_equiv:
  "eq_ignore_case a b \<longleftrightarrow> ascii_lower a = ascii_lower b"
  by (simp add: eq_ignore_case_def)

lemma header_values_filter:
  "header_values (filter (\<lambda>h. \<not> eq_ignore_case (h_name h) m) hs) n =
     (if eq_ignore_case m n then [] else header_values hs n)"
  by (induction hs) (auto simp: header_values_def eq_ignore_case_equiv)

lemma header_values_remove:
  "header_values (remove_headers hs names) n =
     (if \<exists>m\<in>set names. eq_ignore_case m n then [] else header_values hs n)"
  by (induction names arbitrary: hs) (auto simp: header_values_filter)

lemma header_values_set:
  "header_values (set_headers hs xs) n =
     (if is_repeatable n then header_values hs n @ header_values xs n
      else if header_values xs n = [] then header_values hs n
      else [last (header_values xs n)])"
proof (induction xs arbitrary: hs)
  case (Cons x xs)
  have r: "eq_ignore_case (h_name x) n \<Longrightarrow> is_repeatable (h_name x) = is_repeatable n"
    by (simp add: is_repeatable_def eq_ignore_case_equiv)
  have one: "header_values [x] n = (if eq_ignore_case (h_name x) n then [h_value x] else [])"
    by (simp add: header_values_def)
  have c: "header_values (x # xs) n = header_values [x] n @ header_values xs n"
    by (simp add: header_values_def)
  show ?case
    using r by (auto simp: Cons.IH Let_def c one header_values_filter)
qed (simp add: header_values_def)

section \<open>Properties\<close>

text \<open>A chain that passes: every loaded filter, in order, answered with a continue or an edit, each seeing
  the request as the ones before it left it.\<close>

inductive passes ::
    "('w, 'tls) ActiveConfig \<Rightarrow> RequestTrace \<Rightarrow> string list \<Rightarrow> HttpRequest \<Rightarrow> 'w \<Rightarrow> HttpRequest \<Rightarrow> 'w \<Rightarrow> bool"
  for active trace where
  passes_nil: "passes active trace [] r w r w"
| passes_unknown: "ac_filters active fid = None \<Longrightarrow> passes active trace chain r w r' w' \<Longrightarrow>
    passes active trace (fid # chain) r w r' w'"
| passes_continue: "ac_filters active fid = Some f \<Longrightarrow> f_on_request f trace r w = (Inr (Continue, ls), w1) \<Longrightarrow>
    passes active trace chain r w1 r' w' \<Longrightarrow> passes active trace (fid # chain) r w r' w'"
| passes_modified: "ac_filters active fid = Some f \<Longrightarrow> f_on_request f trace r w = (Inr (Modified e, ls), w1) \<Longrightarrow>
    passes active trace chain (apply_request_edit r e) w1 r' w' \<Longrightarrow> passes active trace (fid # chain) r w r' w'"

inductive_cases passes_nilE: "passes active trace [] r w r' w'"
inductive_cases passes_consE: "passes active trace (fid # chain) r w r' w'"

text \<open>A filter that stops the chain, by a response of its own or by failing.\<close>

definition stops :: "'w Filter \<Rightarrow> RequestTrace \<Rightarrow> HttpRequest \<Rightarrow> 'w \<Rightarrow> HttpResponse \<Rightarrow> 'w \<Rightarrow> bool" where
  "stops f trace r w resp w' \<longleftrightarrow>
     (case f_on_request f trace r w of
        (Inr (ShortCircuit resp', _), w1) \<Rightarrow> resp = resp' \<and> w' = w1
      | (Inl e, w1) \<Rightarrow> resp = fail_closed_response e \<and> w' = w1
      | _ \<Rightarrow> False)"

lemma dispatch_Forward: "dispatch_request active chain r trace w = (Forward r', w') \<longleftrightarrow> passes active trace chain r w r' w'"
proof
  show "dispatch_request active chain r trace w = (Forward r', w') \<Longrightarrow> passes active trace chain r w r' w'"
    by (induction active chain r trace w rule: dispatch_request.induct)
      (auto intro: passes.intros split: option.splits prod.splits sum.splits RequestDecision.splits)
next
  show "passes active trace chain r w r' w' \<Longrightarrow> dispatch_request active chain r trace w = (Forward r', w')"
    by (induction rule: passes.induct) simp_all
qed

lemma passes_prefix_dispatch:
  "passes active trace pre r w r1 w1 \<Longrightarrow> dispatch_request active (pre @ post) r trace w = dispatch_request active post r1 trace w1"
  by (induction rule: passes.induct) simp_all

lemma dispatch_Respond:
  "dispatch_request active chain r trace w = (Respond resp, w') \<longleftrightarrow>
     (\<exists>pre fid post f r1 w1. chain = pre @ fid # post \<and> passes active trace pre r w r1 w1 \<and>
        ac_filters active fid = Some f \<and> stops f trace r1 w1 resp w')"
  (is "?L \<longleftrightarrow> ?R")
proof
  show "?L \<Longrightarrow> ?R"
  proof (induction chain arbitrary: r w)
    case (Cons fid chain)
    have later: ?case
      if d: "dispatch_request active chain r1 trace w1 = (Respond resp, w')"
        and step: "\<And>pre r2 w2. passes active trace pre r1 w1 r2 w2 \<Longrightarrow> passes active trace (fid # pre) r w r2 w2" for r1 w1
      using Cons.IH [OF d] step by (metis append_Cons)
    show ?case
    proof (cases "ac_filters active fid")
      case None
      then show ?thesis using Cons.prems passes_unknown by (intro later) auto
    next
      case (Some f)
      obtain res w1 where call: "f_on_request f trace r w = (res, w1)" by fastforce
      consider (go) ls where "res = Inr (Continue, ls)" | (edit) e ls where "res = Inr (Modified e, ls)" | (stop) "stops f trace r w resp w'"
        using Cons.prems Some call by (auto simp: stops_def split: sum.splits RequestDecision.splits)
      then show ?thesis
      proof cases
        case go
        then show ?thesis
          using Cons.prems call later [of r w1] passes_continue [OF Some, of trace r w ls w1] by (simp add: Some)
      next
        case edit
        then show ?thesis
          using Cons.prems call later [of "apply_request_edit r e" w1] passes_modified [OF Some, of trace r w e ls w1]
          by (simp add: Some)
      next
        case stop
        then show ?thesis using Some passes_nil by (metis append_Nil)
      qed
    qed
  qed simp
next
  assume ?R
  then obtain pre fid post f r1 w1 where *: "chain = pre @ fid # post" "passes active trace pre r w r1 w1"
    "ac_filters active fid = Some f" "stops f trace r1 w1 resp w'" by blast
  then show ?L
    by (auto simp: passes_prefix_dispatch stops_def split: prod.splits sum.splits RequestDecision.splits)
qed

text \<open>C4: The chain is fail-closed. A request is forwarded exactly when every filter of the chain passed it,
  and it is then the request as the filters' edits left it; it is answered exactly when some filter,
  after all the earlier ones passed, short-circuits with that response or faults. A fault's response
  is a 502, 503 or 504, never a pass.\<close>

theorem chain_fail_closed:
  "(dispatch_request active chain r trace w = (Forward r', w') \<longleftrightarrow> passes active trace chain r w r' w') \<and>
   (dispatch_request active chain r trace w = (Respond resp, w') \<longleftrightarrow>
     (\<exists>pre fid post f r1 w1. chain = pre @ fid # post \<and> passes active trace pre r w r1 w1 \<and>
        ac_filters active fid = Some f \<and> stops f trace r1 w1 resp w')) \<and>
   resp_status (fail_closed_response e) \<in> {502, 503, 504}"
  by (intro conjI dispatch_Forward dispatch_Respond) (simp add: fail_closed_response_def split: RunError.splits)

text \<open>C36: What an edit leaves of a header, for every name and regardless of case: a name the edit sets has
  exactly the last value it sets, so a client cannot smuggle its own value past a filter; a name it
  only removes is gone; any other is unchanged. \<open>Set-Cookie\<close> lines accumulate instead.\<close>

theorem edit_is_authoritative:
  "header_values (req_headers (apply_request_edit r e)) n =
     (let old = (if \<exists>m\<in>set (re_remove_headers e). eq_ignore_case m n then [] else header_values (req_headers r) n);
          new = header_values (re_set_headers e) n
      in if eq_ignore_case n ''set-cookie'' then old @ new
         else if new = [] then old
         else [last new])"
  by (simp add: apply_request_edit_def header_values_set header_values_remove is_repeatable_def Let_def)

text \<open>A response chain that passes is the symmetric one, from the last filter to the first.\<close>

fun response_pass ::
    "('w, 'tls) ActiveConfig \<Rightarrow> RequestTrace \<Rightarrow> string list \<Rightarrow> HttpResponse \<times> 'w \<Rightarrow> (HttpResponse \<times> 'w) option" where
  "response_pass active trace [] s = Some s"
| "response_pass active trace (fid # chain) s =
     (case response_pass active trace chain s of
        None \<Rightarrow> None
      | Some (resp, w) \<Rightarrow>
          (case ac_filters active fid of
             None \<Rightarrow> Some (resp, w)
           | Some f \<Rightarrow>
               (case f_on_response f trace resp w of
                  (Inr (RespContinue, _), w) \<Rightarrow> Some (resp, w)
                | (Inr (RespModified e, _), w) \<Rightarrow> Some (apply_response_edit resp e, w)
                | (Inl _, _) \<Rightarrow> None)))"

lemma response_loop_append:
  "response_loop active (xs @ ys) resp trace w =
     (case response_pass active trace (rev xs) (resp, w) of
        Some (resp', w') \<Rightarrow> response_loop active ys resp' trace w'
      | None \<Rightarrow> response_loop active xs resp trace w)"
proof (induction xs arbitrary: ys rule: rev_induct)
  case (snoc x xs)
  show ?case
    using snoc [of "x # ys"] snoc [of "[x]"]
    by (auto split: option.splits prod.splits sum.splits ResponseDecision.splits)
qed simp

text \<open>The response side runs the same chain from its last filter to its first. When every filter
  passes, the result is the upstream's response with their edits applied in that order; otherwise it
  is the fault response of a filter that failed, so a response never leaves with only a part of the
  chain applied.\<close>

theorem response_chain_symmetric:
  "case response_pass active trace chain (resp, w) of
     Some (resp', w') \<Rightarrow> dispatch_response active chain resp trace w = (resp', w')
   | None \<Rightarrow> (\<exists>e. fst (dispatch_response active chain resp trace w) = fail_closed_response e)"
proof (induction chain)
  case (Cons fid chain)
  have "dispatch_response active (fid # chain) resp trace w =
      (case response_pass active trace chain (resp, w) of
         Some (resp', w') \<Rightarrow> response_loop active [fid] resp' trace w'
       | None \<Rightarrow> dispatch_response active chain resp trace w)"
    using response_loop_append [of active "rev chain" "[fid]" resp trace w] unfolding dispatch_response_def by simp
  then show ?case
    using Cons.IH by (auto split: option.splits prod.splits sum.splits ResponseDecision.splits)
qed (simp add: dispatch_response_def)

end
