(* ===== verification/Load.thy ===== *)
theory Load
  imports Observe Manifest
begin

text \<open>
  Loading a filter: the artifact stores of \<open>control/src/artifact.rs\<close>, the lowering of a manifest entry
  to load options (\<open>control/src/manifest/lowering.rs\<close>), and the provenance gate and the instance set-up
  of \<open>Host::load\<close> in \<open>host/src/lib.rs\<close>. Signature verification, SHA-256, hexadecimal and JSON come
  from third-party crates and are arguments; so is the WASM engine.
\<close>

section \<open>Third-party functions\<close>

datatype json = JNull | JBool bool | JNumber int | JString string | JArray "json list" | JObject "(string \<times> json) list"

record 'k crypto =
  try_from_pem :: "bytes \<Rightarrow> string + 'k"
  verify_signature :: "'k \<Rightarrow> bytes \<Rightarrow> bytes \<Rightarrow> bool"
  sha256 :: "bytes \<Rightarrow> bytes"
  hex_of :: "bytes \<Rightarrow> string"
  parse_json :: "bytes \<Rightarrow> string + json"

text \<open>The accessors of \<open>serde_json::Value\<close> the code uses.\<close>

fun json_get :: "string \<Rightarrow> json \<Rightarrow> json option" where
  "json_get k (JObject kvs) = map_of kvs k"
| "json_get k _ = None"

fun as_array :: "json \<Rightarrow> json list option" where
  "as_array (JArray xs) = Some xs"
| "as_array _ = None"

fun as_str :: "json \<Rightarrow> string option" where
  "as_str (JString s) = Some s"
| "as_str _ = None"

section \<open>Artifacts\<close>

record ResolvedArtifact =
  component :: bytes
  component_signature :: bytes
  sbom :: bytes
  sbom_signature :: bytes

type_synonym store = "string \<Rightarrow> string \<Rightarrow> ControlError + ResolvedArtifact"

definition sha256_pinned :: "'k crypto \<Rightarrow> bytes \<Rightarrow> string" where
  "sha256_pinned cr b = ''sha256:'' @ hex_of cr (sha256 cr b)"

type_synonym MemoryStore = "string \<Rightarrow> ResolvedArtifact option"

definition MemoryStore_new :: MemoryStore where "MemoryStore_new = (\<lambda>_. None)"

definition MemoryStore_insert :: "'k crypto \<Rightarrow> MemoryStore \<Rightarrow> string \<Rightarrow> ResolvedArtifact \<Rightarrow> MemoryStore \<times> string" where
  "MemoryStore_insert cr ms source artifact = (ms(source \<mapsto> artifact), sha256_pinned cr (component artifact))"

definition MemoryStore_resolve :: "'k crypto \<Rightarrow> MemoryStore \<Rightarrow> store" where
  "MemoryStore_resolve cr ms source pinned_digest =
     (case ms source of
        None \<Rightarrow> Inl (Artifact source ''not found in store'')
      | Some artifact \<Rightarrow>
          (let actual = sha256_pinned cr (component artifact)
           in if actual \<noteq> pinned_digest then Inl (DigestMismatch source pinned_digest actual) else Inr artifact))"

section \<open>The provenance gate\<close>

type_synonym 'k TrustPolicy = "'k list"

fun from_pem_keys :: "'k crypto \<Rightarrow> bytes list \<Rightarrow> string + 'k TrustPolicy" where
  "from_pem_keys cr [] = Inr []"
| "from_pem_keys cr (pem # pems) =
     (case try_from_pem cr pem of
        Inl e \<Rightarrow> Inl e
      | Inr k \<Rightarrow> (case from_pem_keys cr pems of Inl e \<Rightarrow> Inl e | Inr ks \<Rightarrow> Inr (k # ks)))"

definition TrustPolicy_empty :: "'k TrustPolicy" where "TrustPolicy_empty = []"

definition verifies :: "'k crypto \<Rightarrow> 'k TrustPolicy \<Rightarrow> bytes \<Rightarrow> bytes \<Rightarrow> bool" where
  "verifies cr keys signature_der msg = list_ex (\<lambda>k. verify_signature cr k signature_der msg) keys"

datatype LoadError =
  EmptyFilterId
| FilterIdContainsDelimiter
| MissingSbom
| UnverifiedComponentSignature
| UnverifiedSbomSignature
| MalformedSbom string
| SbomNotBound
| LoadInstantiate string
| Wasmtime string

definition sbom_binds_component :: "'k crypto \<Rightarrow> bytes \<Rightarrow> bytes \<Rightarrow> LoadError + unit" where
  "sbom_binds_component cr sb code =
     (case parse_json cr sb of
        Inl e \<Rightarrow> Inl (MalformedSbom e)
      | Inr statement \<Rightarrow>
          (let want = hex_of cr (sha256 cr code);
               bound = (case Option.bind (json_get ''subject'' statement) as_array of
                          None \<Rightarrow> False
                        | Some subjects \<Rightarrow>
                            list_ex (\<lambda>subject.
                              Option.bind (Option.bind (json_get ''digest'' subject) (json_get ''sha256'')) as_str = Some want)
                              subjects)
           in if bound then Inr () else Inl SbomNotBound))"

text \<open>\<open>load_inner\<close>: the gate, then whatever the engine does with the component.\<close>

definition KV_NS_DELIM_char :: char where "KV_NS_DELIM_char = CHR 0x1F"

definition load_inner ::
    "'k crypto \<Rightarrow> 'k TrustPolicy \<Rightarrow> (string \<Rightarrow> bytes \<Rightarrow> LoadOptions \<Rightarrow> 'w \<Rightarrow> (LoadError + 'f) \<times> 'w) \<Rightarrow>
     string \<Rightarrow> ResolvedArtifact \<Rightarrow> LoadOptions \<Rightarrow> 'w \<Rightarrow> (LoadError + 'f) \<times> 'w" where
  "load_inner cr policy build filter_id art opts w =
     (if filter_id = [] then (Inl EmptyFilterId, w)
      else if KV_NS_DELIM_char \<in> set filter_id then (Inl FilterIdContainsDelimiter, w)
      else if sbom art = [] then (Inl MissingSbom, w)
      else if \<not> verifies cr policy (component_signature art) (component art) then (Inl UnverifiedComponentSignature, w)
      else if \<not> verifies cr policy (sbom_signature art) (sbom art) then (Inl UnverifiedSbomSignature, w)
      else case sbom_binds_component cr (sbom art) (component art) of
             Inl e \<Rightarrow> (Inl e, w)
           | Inr _ \<Rightarrow> build filter_id (component art) opts w)"

text \<open>After the gate: the engine compiles and links the component; a trusted filter gets its pool, with
  one instance built at once.\<close>

definition build_loaded ::
    "(string \<Rightarrow> bytes \<Rightarrow> LoadOptions \<Rightarrow> string + ('i, 'w) LoadedFilter) \<Rightarrow>
     string \<Rightarrow> bytes \<Rightarrow> LoadOptions \<Rightarrow> 'w \<Rightarrow> (LoadError + ('i, 'w) LoadedFilter \<times> 'i PoolInner option) \<times> 'w" where
  "build_loaded compile filter_id code opts w =
     (case compile filter_id code opts of
        Inl e \<Rightarrow> (Inl (Wasmtime e), w)
      | Inr lf \<Rightarrow>
          (let lf = lf\<lparr>lf_filter_id := filter_id, lf_isolation := lo_isolation opts\<rparr> in
           case lo_isolation opts of
             IsoUntrusted \<Rightarrow> (Inr (lf\<lparr>lf_pool := None\<rparr>, None), w)
           | IsoTrusted \<Rightarrow>
               (let cap = clamp (lo_trusted_pool_size opts) 1 TRUSTED_POOL_MAX in
                case instantiate_initialized (lf_runtime lf) w of
                  (Inl e, w) \<Rightarrow> (Inl (LoadInstantiate e), w)
                | (Inr first, w) \<Rightarrow>
                    (Inr (lf\<lparr>lf_pool := Some \<lparr>pool_cap = cap, pool_checkout_timeout = lo_checkout_timeout_ms opts,
                                              pool_max_requests = lo_max_requests_per_instance opts\<rparr>\<rparr>,
                          Some (TrustedPool_new first)), w))))"

section \<open>Lowering\<close>

definition lower_dest :: "AllowDest \<Rightarrow> AllowEntry" where
  "lower_dest d =
     \<lparr>allow_scheme = (case dest_scheme d of Https \<Rightarrow> SchemeHttps | Http \<Rightarrow> SchemeHttp),
      allow_host = dest_host d,
      allow_port = (case dest_port d of Some p \<Rightarrow> p | None \<Rightarrow> default_port (dest_scheme d))\<rparr>"

definition load_options :: "nat option \<Rightarrow> (string \<Rightarrow> IpNet option) \<Rightarrow> FilterEntry \<Rightarrow> LoadOptions" where
  "load_options par parse_net fe =
     (let set = (\<lambda>f v opts. case v of Some x \<Rightarrow> f x opts | None \<Rightarrow> opts);
          opts = (case fe_isolation fe of Trusted \<Rightarrow> options_trusted par | Untrusted \<Rightarrow> options_untrusted par);
          opts = set with_init_deadline_ms (fe_init_deadline_ms fe) opts;
          opts = set with_request_deadline_ms (fe_request_deadline_ms fe) opts;
          opts = set with_max_memory_bytes (fe_max_memory_bytes fe) opts;
          opts = (case fe_ratelimit fe of
                    Some rl \<Rightarrow> with_ratelimit_bucket (rlc_capacity rl) (rlc_refill_tokens rl) (rlc_refill_interval_ms rl) opts
                  | None \<Rightarrow> opts)
      in case fe_outbound fe of
           Some ob \<Rightarrow>
             with_outbound parse_net (map lower_dest (ob_allow ob)) (ob_allow_private ob) (ob_connect_timeout_ms ob)
               (ob_total_timeout_ms ob) (ob_max_response_bytes ob) (ob_max_concurrent ob) opts
         | None \<Rightarrow> opts)"

section \<open>Properties\<close>

text \<open>Provenance: a trusted key signed the component and its SBOM, and the SBOM names the component.\<close>

definition attested :: "'k crypto \<Rightarrow> 'k TrustPolicy \<Rightarrow> ResolvedArtifact \<Rightarrow> bool" where
  "attested cr policy art \<longleftrightarrow>
     (\<exists>k\<in>set policy. verify_signature cr k (component_signature art) (component art)) \<and>
     (\<exists>k\<in>set policy. verify_signature cr k (sbom_signature art) (sbom art)) \<and>
     (\<exists>st subjects s d. parse_json cr (sbom art) = Inr st \<and> json_get ''subject'' st = Some (JArray subjects) \<and>
        s \<in> set subjects \<and> json_get ''digest'' s = Some d \<and>
        json_get ''sha256'' d = Some (JString (hex_of cr (sha256 cr (component art)))))"

lemma as_str_Some: "as_str j = Some s \<longleftrightarrow> j = JString s"
  by (cases j) auto

lemma as_array_Some: "as_array j = Some xs \<longleftrightarrow> j = JArray xs"
  by (cases j) auto

lemma sbom_binds_iff:
  "sbom_binds_component cr sb code = Inr () \<longleftrightarrow>
     (\<exists>st subjects s d. parse_json cr sb = Inr st \<and> json_get ''subject'' st = Some (JArray subjects) \<and>
        s \<in> set subjects \<and> json_get ''digest'' s = Some d \<and>
        json_get ''sha256'' d = Some (JString (hex_of cr (sha256 cr code))))"
  by (auto simp: sbom_binds_component_def Let_def list_ex_iff bind_eq_Some_conv as_str_Some as_array_Some
      split: sum.splits option.splits if_splits)

lemma attested_iff:
  "attested cr policy art \<longleftrightarrow>
     verifies cr policy (component_signature art) (component art) \<and> verifies cr policy (sbom_signature art) (sbom art) \<and>
     sbom_binds_component cr (sbom art) (component art) = Inr ()"
  by (simp add: attested_def verifies_def list_ex_iff sbom_binds_iff)

definition admissible :: "'k crypto \<Rightarrow> 'k TrustPolicy \<Rightarrow> string \<Rightarrow> ResolvedArtifact \<Rightarrow> bool" where
  "admissible cr policy fid art \<longleftrightarrow>
     fid \<noteq> [] \<and> KV_NS_DELIM_char \<notin> set fid \<and> sbom art \<noteq> [] \<and> attested cr policy art"

lemma load_admitted: "admissible cr policy fid art \<Longrightarrow> load_inner cr policy build fid art opts w = build fid (component art) opts w"
  by (simp add: load_inner_def admissible_def attested_iff)

lemma load_refused: "\<not> admissible cr policy fid art \<Longrightarrow> \<exists>e. load_inner cr policy build fid art opts w = (Inl e, w)"
  by (cases "sbom_binds_component cr (sbom art) (component art)") (auto simp: load_inner_def admissible_def attested_iff)

text \<open>C8: The provenance gate. The engine sees a component only if the filter's identifier is well formed
  and a trusted key signed both the component and an SBOM that names the component's digest; anything
  else is an error with nothing executed. With no trusted keys nothing loads.\<close>

theorem provenance_gate:
  "(admissible cr policy fid art \<longrightarrow> load_inner cr policy build fid art opts w = build fid (component art) opts w) \<and>
   (\<not> admissible cr policy fid art \<longrightarrow> (\<exists>e. load_inner cr policy build fid art opts w = (Inl e, w))) \<and>
   (\<exists>e. load_inner cr TrustPolicy_empty build fid art opts w = (Inl e, w))"
proof -
  have "\<not> admissible cr TrustPolicy_empty fid art"
    by (simp add: admissible_def attested_def TrustPolicy_empty_def)
  then show ?thesis by (simp add: load_admitted load_refused)
qed

definition example_crypto :: "nat crypto" where
  "example_crypto =
     \<lparr>try_from_pem = (\<lambda>pem. Inr (length pem)), verify_signature = (\<lambda>k sig msg. sig = of_nat k # rev msg),
      sha256 = (\<lambda>b. [of_nat (length b)]), hex_of = example_encode,
      parse_json = (\<lambda>b. if b = [123] then Inr (JObject [(''subject'', JArray [JObject [(''digest'', JObject [(''sha256'', JString ''02'')])]])]) else Inl ''bad'')\<rparr>"

definition example_artifact :: ResolvedArtifact where
  "example_artifact = \<lparr>component = [1, 2], component_signature = [7, 2, 1], sbom = [123], sbom_signature = [7, 123]\<rparr>"

lemma example_attested: "attested example_crypto [7] example_artifact"
  unfolding attested_iff by code_simp

theorem provenance_gate_witness:
  "load_inner example_crypto [7] (\<lambda>fid code opts w. (Inr code, w)) ''auth'' example_artifact (options_untrusted None) () = (Inr [1, 2], ()) \<and>
   (\<exists>e. load_inner example_crypto [8] (\<lambda>fid code opts w. (Inr code, w)) ''auth'' example_artifact (options_untrusted None) () = (Inl e, ()))"
proof -
  have "admissible example_crypto [7] ''auth'' example_artifact"
    using example_attested by (simp add: admissible_def KV_NS_DELIM_char_def example_artifact_def)
  moreover have "\<not> attested example_crypto [8] example_artifact"
    unfolding attested_iff by code_simp
  then have "\<not> admissible example_crypto [8] ''auth'' example_artifact" by (simp add: admissible_def)
  ultimately show ?thesis
    using provenance_gate [of example_crypto "[7]" "''auth''" example_artifact "\<lambda>fid code opts w. (Inr code, w)" "options_untrusted None" "()"]
      provenance_gate [of example_crypto "[8]" "''auth''" example_artifact "\<lambda>fid code opts w. (Inr code, w)" "options_untrusted None" "()"]
    by (simp add: example_artifact_def)
qed

lemma clamp_bounds: "lo \<le> hi \<Longrightarrow> clamp v lo hi \<in> {lo..hi}"
  by (auto simp: clamp_def)

text \<open>Each option of a lowered entry.\<close>

lemmas lowering_defs = load_options_def Let_def options_trusted_def options_untrusted_def LoadOptions_default_def
  with_init_deadline_ms_def with_request_deadline_ms_def with_max_memory_bytes_def with_ratelimit_bucket_def with_outbound_def

lemma lowered_isolation:
  "lo_isolation (load_options par parse_net fe) = (case fe_isolation fe of Trusted \<Rightarrow> IsoTrusted | Untrusted \<Rightarrow> IsoUntrusted)"
  by (simp add: lowering_defs split: option.split IsolationKind.split)

lemma lowered_deadlines:
  "lo_init_deadline_ms (load_options par parse_net fe) = (case fe_init_deadline_ms fe of
       Some ms \<Rightarrow> ms | None \<Rightarrow> case fe_isolation fe of Trusted \<Rightarrow> 5000 | Untrusted \<Rightarrow> 250)"
  "lo_request_deadline_ms (load_options par parse_net fe) = (case fe_request_deadline_ms fe of Some ms \<Rightarrow> ms | None \<Rightarrow> 100)"
  by (simp_all add: lowering_defs DEFAULT_INIT_DEADLINE_MS_def DEFAULT_UNTRUSTED_INIT_DEADLINE_MS_def
      DEFAULT_REQUEST_DEADLINE_MS_def split: option.split IsolationKind.split)

lemma lowered_memory:
  "lo_max_memory_bytes (load_options par parse_net fe) = (case fe_max_memory_bytes fe of Some n \<Rightarrow> n | None \<Rightarrow> 64 * 2 ^ 20)"
  by (simp add: lowering_defs DEFAULT_MAX_MEMORY_BYTES_def split: option.split IsolationKind.split)

lemma lowered_outbound:
  "lo_outbound (load_options par parse_net fe) = None \<and> fe_outbound fe = None \<or>
   (\<exists>p a b c d. lo_outbound (load_options par parse_net fe) = Some p \<and> fe_outbound fe \<noteq> None \<and>
      op_connect_timeout p = clamp a 1 10000 \<and> op_total_timeout p = clamp b 1 30000 \<and>
      op_max_response_bytes p = clamp c 1 (2 ^ 20) \<and> op_max_concurrent p = clamp d 1 64)"
proof (cases "fe_outbound fe")
  case None
  then show ?thesis by (simp add: lowering_defs split: option.split IsolationKind.split)
next
  case (Some ob)
  then show ?thesis
    by (simp add: load_options_def Let_def with_outbound_def clamp_opt_def MAX_OUTBOUND_CONNECT_TIMEOUT_MS_def
        MAX_OUTBOUND_TOTAL_TIMEOUT_MS_def MAX_OUTBOUND_MAX_RESPONSE_BYTES_def MAX_OUTBOUND_MAX_CONCURRENT_def) blast
qed

text \<open>Lowering keeps the host's limits whatever the manifest says: the deadlines, memory cap and bucket
  of an unset knob are the host's defaults for the isolation; an outbound policy's timeouts, response
  cap and concurrency lie between one and the host maximum; and a trusted pool has between one and
  \<open>TRUSTED_POOL_MAX\<close> slots.\<close>

theorem load_options_bounded:
  "let opts = load_options par parse_net fe in
   lo_isolation opts = (case fe_isolation fe of Trusted \<Rightarrow> IsoTrusted | Untrusted \<Rightarrow> IsoUntrusted) \<and>
   lo_init_deadline_ms opts = (case fe_init_deadline_ms fe of
       Some ms \<Rightarrow> ms | None \<Rightarrow> case fe_isolation fe of Trusted \<Rightarrow> 5000 | Untrusted \<Rightarrow> 250) \<and>
   lo_request_deadline_ms opts = (case fe_request_deadline_ms fe of Some ms \<Rightarrow> ms | None \<Rightarrow> 100) \<and>
   lo_max_memory_bytes opts = (case fe_max_memory_bytes fe of Some n \<Rightarrow> n | None \<Rightarrow> 64 * 2 ^ 20) \<and>
   (case lo_outbound opts of
      None \<Rightarrow> fe_outbound fe = None
    | Some p \<Rightarrow>
        fe_outbound fe \<noteq> None \<and>
        op_connect_timeout p \<in> {1..10000} \<and> op_total_timeout p \<in> {1..30000} \<and>
        op_max_response_bytes p \<in> {1..2 ^ 20} \<and> op_max_concurrent p \<in> {1..64}) \<and>
   clamp (lo_trusted_pool_size opts) 1 TRUSTED_POOL_MAX \<in> {1..256}"
proof -
  have w: "(1::u64) \<le> 10000" "(1::u64) \<le> 30000" "(1::u64) \<le> 2 ^ 20" "(1::u32) \<le> 64"
    by (simp_all add: word_le_nat_alt)
  have "clamp (lo_trusted_pool_size (load_options par parse_net fe)) 1 TRUSTED_POOL_MAX \<in> {1..256}"
    using clamp_bounds [of 1 256 "lo_trusted_pool_size (load_options par parse_net fe)"]
    by (simp add: TRUSTED_POOL_MAX_def TRUSTED_POOL_SLOTS_def)
  moreover have "case lo_outbound (load_options par parse_net fe) of
      None \<Rightarrow> fe_outbound fe = None
    | Some p \<Rightarrow> fe_outbound fe \<noteq> None \<and> op_connect_timeout p \<in> {1..10000} \<and> op_total_timeout p \<in> {1..30000} \<and>
        op_max_response_bytes p \<in> {1..2 ^ 20} \<and> op_max_concurrent p \<in> {1..64}"
    using lowered_outbound [of par parse_net fe] clamp_bounds [OF w(1)] clamp_bounds [OF w(2)] clamp_bounds [OF w(3)]
      clamp_bounds [OF w(4)]
    by (auto simp del: atLeastAtMost_iff)
  ultimately show ?thesis
    unfolding Let_def lowered_isolation lowered_deadlines lowered_memory by blast
qed

end
