(* ===== verification/Control.thy ===== *)
theory Control
  imports Chain Load
begin

text \<open>
  The control plane, \<open>control/src/lib.rs\<close>, \<open>control_reload.rs\<close> and \<open>reload.rs\<close>: building an active
  configuration from a manifest, the constructors, and reloading. The artifact store, the WASM
  engine, TLS, the manifest's hash and the files on disk are arguments, collected in \<open>plane\<close>.
\<close>

section \<open>The environment\<close>

record ('k, 'w, 'tls) plane =
  pl_crypto :: "'k crypto"
  pl_policy :: "'k TrustPolicy"
  pl_build :: "string \<Rightarrow> bytes \<Rightarrow> LoadOptions \<Rightarrow> 'w \<Rightarrow> (LoadError + 'w Filter) \<times> 'w"
  pl_display :: "LoadError \<Rightarrow> string"
  pl_store :: store
  pl_parallelism :: "nat option"
  pl_outbound_feature :: bool
  pl_parse_net :: "string \<Rightarrow> IpNet option"
  pl_tls :: "TlsCert list \<Rightarrow> ControlError + ('tls \<times> 'tls) option"
  pl_content_hash :: "Manifest \<Rightarrow> ControlError + string"
  pl_hasher :: "bytes \<Rightarrow> u64"

section \<open>Building a configuration\<close>

fun load_filters ::
    "('k, 'w, 'tls) plane \<Rightarrow> (string \<Rightarrow> 'w Filter option) \<Rightarrow> FilterEntry list \<Rightarrow> 'w \<Rightarrow>
     (ControlError + (string \<Rightarrow> 'w Filter option)) \<times> 'w" where
  "load_filters pl fs [] w = (Inr fs, w)"
| "load_filters pl fs (fe # fes) w =
     (if fs (fe_id fe) \<noteq> None then (Inl (DuplicateFilterId (fe_id fe)), w)
      else case validate_filter (pl_outbound_feature pl) (\<lambda>c. pl_parse_net pl c \<noteq> None) fe of
        Inl e \<Rightarrow> (Inl e, w)
      | Inr _ \<Rightarrow>
          (case pl_store pl (fe_source fe) (fe_digest fe) of
             Inl e \<Rightarrow> (Inl e, w)
           | Inr art \<Rightarrow>
               (case load_inner (pl_crypto pl) (pl_policy pl) (pl_build pl) (fe_id fe) art
                       (load_options (pl_parallelism pl) (pl_parse_net pl) fe) w of
                  (Inl err, w) \<Rightarrow> (Inl (ControlError.Load (fe_id fe) (pl_display pl err)), w)
                | (Inr f, w) \<Rightarrow> load_filters pl (fs(fe_id fe \<mapsto> f)) fes w)))"

fun resolve_targets :: "UpstreamRegistry \<Rightarrow> string \<Rightarrow> (string \<times> u32) list \<Rightarrow> ControlError + (nat \<times> u32) list" where
  "resolve_targets reg pp [] = Inr []"
| "resolve_targets reg pp ((name, weight) # targets) =
     (case group reg name of
        None \<Rightarrow> Inl (UnknownRouteUpstream pp name)
      | Some g \<Rightarrow> (case resolve_targets reg pp targets of Inl e \<Rightarrow> Inl e | Inr gs \<Rightarrow> Inr ((g, weight) # gs)))"

definition compile_route ::
    "('k, 'w, 'tls) plane \<Rightarrow> (string \<Rightarrow> 'w Filter option) \<Rightarrow> UpstreamRegistry \<Rightarrow> ValidatedRoute \<Rightarrow> ControlError + CompiledRoute" where
  "compile_route pl filters reg vr =
     (let r = vr_route vr; m = matcher r; pp = match_path_prefix m in
      case resolve_targets reg pp (vr_targets vr) of
        Inl e \<Rightarrow> Inl e
      | Inr resolved \<Rightarrow>
          (case WeightedBackends_new resolved of
             Inl reason \<Rightarrow> Inl (InvalidRoute pp (Split reason))
           | Inr backends \<Rightarrow>
               Inr \<lparr>cr_host = map_option ascii_lower (match_host m),
                    cr_path_prefix = pp,
                    cr_method = map_option ascii_upper (match_method m),
                    cr_headers = map (\<lambda>(k, v). (ascii_lower k, v)) (match_headers m),
                    cr_query = match_query m,
                    cr_filters = route_filters r,
                    cr_reads_body =
                      list_ex (\<lambda>fid. case filters fid of Some f \<Rightarrow> f_reads_body f | None \<Rightarrow> False) (route_filters r),
                    cr_backends = backends,
                    cr_strip_prefix = route_strip_prefix r,
                    cr_rate_limit = map_option (\<lambda>rl. NativeRateLimit_new rl (pl_hasher pl)) (route_rate_limit r)\<rparr>))"

fun compile_routes ::
    "('k, 'w, 'tls) plane \<Rightarrow> (string \<Rightarrow> 'w Filter option) \<Rightarrow> UpstreamRegistry \<Rightarrow> ValidatedRoute list \<Rightarrow>
     ControlError + CompiledRoute list" where
  "compile_routes pl filters reg [] = Inr []"
| "compile_routes pl filters reg (vr # vrs) =
     (case compile_route pl filters reg vr of
        Inl e \<Rightarrow> Inl e
      | Inr r \<Rightarrow> (case compile_routes pl filters reg vrs of Inl e \<Rightarrow> Inl e | Inr rs \<Rightarrow> Inr (r # rs)))"

definition build_active ::
    "('k, 'w, 'tls) plane \<Rightarrow> Manifest \<Rightarrow> UpstreamRegistry \<Rightarrow> 'w \<Rightarrow>
     ((ControlError + ('w, 'tls) ActiveConfig) \<times> UpstreamRegistry \<times> 'w) option" where
  "build_active pl manifest reg w =
     (case load_filters pl (\<lambda>_. None) (m_filters manifest) w of
        (Inl e, w) \<Rightarrow> Some (Inl e, reg, w)
      | (Inr filters, w) \<Rightarrow>
     (case find (\<lambda>fid. filters fid = None) (chain_filters (m_chain manifest)) of
        Some fid \<Rightarrow> Some (Inl (UnknownChainFilter fid), reg, w)
      | None \<Rightarrow>
     (case validate_routes (dom filters) (up_name ` set (m_upstreams manifest)) (m_routes manifest) of
        Inl e \<Rightarrow> Some (Inl e, reg, w)
      | Inr validated \<Rightarrow>
     (case pl_tls pl (m_tls manifest) of
        Inl e \<Rightarrow> Some (Inl e, reg, w)
      | Inr configs \<Rightarrow>
     (case pl_content_hash pl manifest of
        Inl e \<Rightarrow> Some (Inl e, reg, w)
      | Inr hash \<Rightarrow>
     (case reconcile reg (m_upstreams manifest) of
        None \<Rightarrow> None
      | Some (reg, Inl e) \<Rightarrow> Some (Inl e, reg, w)
      | Some (reg, Inr _) \<Rightarrow>
     (case compile_routes pl filters reg validated of
        Inl e \<Rightarrow> Some (Inl e, reg, w)
      | Inr routes \<Rightarrow>
          Some (Inr \<lparr>ac_filters = filters, ac_chain = chain_filters (m_chain manifest), ac_routes = routes,
                     ac_tls = map_option fst configs, ac_quic_tls = map_option snd configs, ac_hash = hash\<rparr>,
                reg, w))))))))"

section \<open>The control plane\<close>

record ('w, 'tls) Control =
  ct_active :: "('w, 'tls) ActiveConfig"
  ct_upstreams :: UpstreamRegistry
  ct_manifest_path :: "string option"
  ct_trust :: Trust
  ct_observability :: Observability

definition control_new ::
    "('k, 'w, 'tls) plane \<Rightarrow> Manifest \<Rightarrow> string option \<Rightarrow> 'w \<Rightarrow> ((ControlError + ('w, 'tls) Control) \<times> 'w) option" where
  "control_new pl manifest path w =
     (case build_active pl manifest UpstreamRegistry_new w of
        None \<Rightarrow> None
      | Some (Inl e, _, w) \<Rightarrow> Some (Inl e, w)
      | Some (Inr active, reg, w) \<Rightarrow>
          Some (Inr \<lparr>ct_active = active, ct_upstreams = reg, ct_manifest_path = path, ct_trust = trust manifest,
                     ct_observability = observability manifest\<rparr>, w))"

text \<open>\<open>load\<close> takes the host as it is; the ops constructors read the trusted keys and build it. A
  constructor from a path remembers the path.\<close>

definition control_load ::
    "('k, 'w, 'tls) plane \<Rightarrow> Manifest \<Rightarrow> 'w \<Rightarrow> ((ControlError + ('w, 'tls) Control) \<times> 'w) option" where
  "control_load pl manifest w = control_new pl manifest None w"

definition control_load_at ::
    "('k, 'w, 'tls) plane \<Rightarrow> string \<Rightarrow> ControlError + Manifest \<Rightarrow> 'w \<Rightarrow> ((ControlError + ('w, 'tls) Control) \<times> 'w) option" where
  "control_load_at pl path disk w =
     (case disk of Inl e \<Rightarrow> Some (Inl e, w) | Inr manifest \<Rightarrow> control_new pl manifest (Some path) w)"

fun read_keys :: "(string \<Rightarrow> ControlError + bytes) \<Rightarrow> string list \<Rightarrow> ControlError + bytes list" where
  "read_keys read_file [] = Inr []"
| "read_keys read_file (k # ks) =
     (case read_file k of
        Inl e \<Rightarrow> Inl e
      | Inr pem \<Rightarrow> (case read_keys read_file ks of Inl e \<Rightarrow> Inl e | Inr pems \<Rightarrow> Inr (pem # pems)))"

definition build_host ::
    "('k, 'w, 'tls) plane \<Rightarrow> (string \<Rightarrow> ControlError + bytes) \<Rightarrow> string option \<Rightarrow> Manifest \<Rightarrow> ControlError + ('k, 'w, 'tls) plane" where
  "build_host pl read_file engine_error manifest =
     (case read_keys read_file (trust_keys (trust manifest)) of
        Inl e \<Rightarrow> Inl e
      | Inr pems \<Rightarrow>
          (case from_pem_keys (pl_crypto pl) pems of
             Inl e \<Rightarrow> Inl (TrustKey e)
           | Inr keys \<Rightarrow>
               (case engine_error of Some e \<Rightarrow> Inl (HostInit e) | None \<Rightarrow> Inr (pl\<lparr>pl_policy := keys\<rparr>))))"

definition from_manifest ::
    "('k, 'w, 'tls) plane \<Rightarrow> (string \<Rightarrow> ControlError + bytes) \<Rightarrow> string option \<Rightarrow> Manifest \<Rightarrow> 'w \<Rightarrow>
     ((ControlError + ('w, 'tls) Control) \<times> 'w) option" where
  "from_manifest pl read_file engine_error manifest w =
     (case build_host pl read_file engine_error manifest of
        Inl e \<Rightarrow> Some (Inl e, w)
      | Inr pl \<Rightarrow> control_new pl manifest None w)"

definition from_manifest_path ::
    "('k, 'w, 'tls) plane \<Rightarrow> (string \<Rightarrow> ControlError + bytes) \<Rightarrow> string option \<Rightarrow> string \<Rightarrow> ControlError + Manifest \<Rightarrow> 'w \<Rightarrow>
     ((ControlError + ('w, 'tls) Control) \<times> 'w) option" where
  "from_manifest_path pl read_file engine_error path disk w =
     (case disk of
        Inl e \<Rightarrow> Some (Inl e, w)
      | Inr manifest \<Rightarrow>
          (case build_host pl read_file engine_error manifest of
             Inl e \<Rightarrow> Some (Inl e, w)
           | Inr pl \<Rightarrow> control_new pl manifest (Some path) w))"

definition loaded_ids :: "('w, 'tls) Control \<Rightarrow> string set" where
  "loaded_ids c = dom (ac_filters (ct_active c))"

definition snapshot_with_trace :: "('w, 'tls) Control \<Rightarrow> RequestTrace \<Rightarrow> ('w, 'tls) ConfigSnapshot" where
  "snapshot_with_trace c trace = \<lparr>snap_config = ct_active c, snap_trace = trace\<rparr>"

definition snapshot :: "('w, 'tls) Control \<Rightarrow> id_source \<Rightarrow> ('w, 'tls) ConfigSnapshot \<times> id_source" where
  "snapshot c ids = (let (trace, ids) = trace_root ids in (snapshot_with_trace c trace, ids))"

section \<open>Reloading\<close>

datatype ReloadOutcome = Unchanged | Reloaded string

definition ensure_trust_unchanged :: "('w, 'tls) Control \<Rightarrow> Manifest \<Rightarrow> ControlError + unit" where
  "ensure_trust_unchanged c manifest = (if trust manifest \<noteq> ct_trust c then Inl TrustChangeRequiresRestart else Inr ())"

definition swap_in ::
    "('k, 'w, 'tls) plane \<Rightarrow> ('w, 'tls) Control \<Rightarrow> Manifest \<Rightarrow> 'w \<Rightarrow> ((ControlError + unit) \<times> ('w, 'tls) Control \<times> 'w) option" where
  "swap_in pl c manifest w =
     (case build_active pl manifest (ct_upstreams c) w of
        None \<Rightarrow> None
      | Some (Inl e, reg, w) \<Rightarrow> Some (Inl e, c\<lparr>ct_upstreams := reg\<rparr>, w)
      | Some (Inr active, reg, w) \<Rightarrow> Some (Inr (), c\<lparr>ct_upstreams := reg, ct_active := active\<rparr>, w))"

definition reload ::
    "('k, 'w, 'tls) plane \<Rightarrow> ('w, 'tls) Control \<Rightarrow> Manifest \<Rightarrow> 'w \<Rightarrow> ((ControlError + unit) \<times> ('w, 'tls) Control \<times> 'w) option" where
  "reload pl c manifest w =
     (case ensure_trust_unchanged c manifest of
        Inl e \<Rightarrow> Some (Inl e, c, w)
      | Inr _ \<Rightarrow> swap_in pl c manifest w)"

definition reload_from_disk ::
    "('k, 'w, 'tls) plane \<Rightarrow> ('w, 'tls) Control \<Rightarrow> (string \<Rightarrow> ControlError + Manifest) \<Rightarrow> 'w \<Rightarrow>
     ((ControlError + ReloadOutcome) \<times> ('w, 'tls) Control \<times> 'w) option" where
  "reload_from_disk pl c disk w =
     (case ct_manifest_path c of
        None \<Rightarrow> Some (Inl NoManifestPath, c, w)
      | Some path \<Rightarrow>
     (case disk path of
        Inl e \<Rightarrow> Some (Inl e, c, w)
      | Inr manifest \<Rightarrow>
     (case ensure_trust_unchanged c manifest of
        Inl e \<Rightarrow> Some (Inl e, c, w)
      | Inr _ \<Rightarrow>
     (case pl_content_hash pl manifest of
        Inl e \<Rightarrow> Some (Inl e, c, w)
      | Inr new_hash \<Rightarrow>
          if new_hash = ac_hash (ct_active c) then Some (Inr Unchanged, c, w)
          else map_option (\<lambda>(r, c, w). (case r of Inl e \<Rightarrow> Inl e | Inr _ \<Rightarrow> Inr (Reloaded new_hash), c, w))
                 (swap_in pl c manifest w)))))"

text \<open>The reload loop, over the contents of the disk at each trigger.\<close>

fun serve_reloads ::
    "('k, 'w, 'tls) plane \<Rightarrow> ('w, 'tls) Control \<Rightarrow> (string \<Rightarrow> ControlError + Manifest) list \<Rightarrow> 'w \<Rightarrow>
     (('w, 'tls) Control \<times> 'w) option" where
  "serve_reloads pl c [] w = Some (c, w)"
| "serve_reloads pl c (disk # disks) w =
     (case reload_from_disk pl c disk w of
        None \<Rightarrow> None
      | Some (_, c, w) \<Rightarrow> serve_reloads pl c disks w)"

section \<open>What validation guarantees\<close>

lemma find_None_all: "find P xs = None \<longleftrightarrow> (\<forall>x\<in>set xs. \<not> P x)"
  by (auto simp: find_None_iff)

lemma validate_route_ok:
  assumes "validate_route fs ups r = Inr vr"
  shows "vr_route vr = r" "\<forall>(n, _)\<in>set (vr_targets vr). n \<in> ups" "\<exists>k. validate_split (map snd (vr_targets vr)) = Inr k"
    "set (route_filters r) \<subseteq> fs"
  using assms
  by (auto simp: validate_route_def Let_def find_None_all split: sum.splits option.splits)

lemma validate_routes_ok:
  assumes "validate_routes fs ups rs = Inr vrs"
  shows "list_all2 (\<lambda>r vr. validate_route fs ups r = Inr vr) rs vrs"
  using assms by (induction rs arbitrary: vrs) (auto simp: bind_res_Inr_iff)

lemma WeightedBackends_new_Inr: "validate_split (map snd targets) = Inr k \<Longrightarrow> \<exists>wb. WeightedBackends_new targets = Inr wb"
  by (simp add: WeightedBackends_new_def Let_def bind_res_Inr_iff)

lemma resolve_targets_Inr:
  assumes "\<forall>(n, _)\<in>set ts. group reg n \<noteq> None"
  shows "\<exists>gs. resolve_targets reg pp ts = Inr gs \<and> list_all2 (\<lambda>(n, w) (g, w'). group reg n = Some g \<and> w' = w) ts gs"
  using assms
proof (induction ts)
  case (Cons p ts)
  obtain n w where p: "p = (n, w)" by (cases p)
  show ?case using Cons by (auto simp: p)
qed simp

lemma resolved_weights:
  "list_all2 (\<lambda>(n, w) (g, w'). group reg n = Some g \<and> w' = w) ts gs \<Longrightarrow> map snd gs = map snd ts"
  by (induction rule: list_all2_induct) auto

lemma reconcile_built_group:
  assumes "registry_ok reg" "reconcile reg ups = Some (reg', Inr ())" "up \<in> set ups" "group reg' (up_name up) = Some k"
  shows "k < length (group_heap reg') \<and> (\<exists>h. group_built reg h up (group_heap reg' ! k))"
proof -
  have ck: "check_upstreams [] ups = None" "\<not> reg_poisoned reg"
    using assms(2) by (auto simp: reconcile_def split: option.splits if_splits)
  obtain ext new m' where r: "reg' = reg\<lparr>insts := insts reg @ ext, group_heap := group_heap reg @ new, groups := m'\<rparr>"
    "list_all2 (group_built reg (insts reg @ ext)) ups new"
    "\<forall>k<length ups. m' (up_name (ups ! k)) = Some (length (group_heap reg) + k)"
    using reconcile_built [OF assms(1) ck] assms(2) by auto
  obtain j where j: "j < length ups" "ups ! j = up" using assms(3) by (auto simp: in_set_conv_nth)
  have "m' (up_name up) = Some k" using assms(4) r(1) ck(2) by (simp add: group_def)
  then have "k = length (group_heap reg) + j" using r(3) j by auto
  then show ?thesis using r(1,2) j list_all2_lengthD [OF r(2)] by (auto simp: nth_append dest: list_all2_nthD2)
qed

lemma reconcile_groups:
  assumes "registry_ok reg" "reconcile reg ups = Some (reg', Inr ())"
  shows "group reg' n \<noteq> None \<longleftrightarrow> n \<in> up_name ` set ups"
proof -
  have ck: "check_upstreams [] ups = None" "\<not> reg_poisoned reg"
    using assms(2) by (auto simp: reconcile_def split: option.splits if_splits)
  obtain ext new m' where r: "reg' = reg\<lparr>insts := insts reg @ ext, group_heap := group_heap reg @ new, groups := m'\<rparr>"
    "dom m' = up_name ` set ups"
    using reconcile_built [OF assms(1) ck] assms(2) by auto
  have "group reg' n = m' n" using r(1) ck(2) by (simp add: group_def)
  then show ?thesis using r(2) by auto
qed

text \<open>A reconcile always returns, and an error leaves the registry as it was.\<close>

lemma reconcile_cases:
  assumes "registry_ok reg"
  obtains (ok) reg' where "reconcile reg ups = Some (reg', Inr ())" "registry_ok reg'"
    | (error) e where "reconcile reg ups = Some (reg, Inl e)"
proof (cases "check_upstreams [] ups = None \<and> \<not> reg_poisoned reg")
  case True
  then obtain reg' where "reconcile reg ups = Some (reg', Inr ())" using reconcile_built [OF assms] by blast
  then show ?thesis using ok reconcile_ok_inv [OF assms] by blast
next
  case False
  then show ?thesis using error by (cases "check_upstreams [] ups") (auto simp: reconcile_def)
qed

lemma compile_route_Inr:
  assumes "\<forall>(n, _)\<in>set (vr_targets vr). group reg n \<noteq> None" "validate_split (map snd (vr_targets vr)) = Inr k"
  shows "\<exists>cr gs. compile_route pl filters reg vr = Inr cr \<and>
    list_all2 (\<lambda>(n, w) (g, w'). group reg n = Some g \<and> w' = w) (vr_targets vr) gs \<and>
    WeightedBackends_new gs = Inr (cr_backends cr) \<and> cr_filters cr = route_filters (vr_route vr) \<and>
    cr_path_prefix cr = match_path_prefix (matcher (vr_route vr))"
proof -
  obtain gs where gs: "resolve_targets reg (match_path_prefix (matcher (vr_route vr))) (vr_targets vr) = Inr gs"
    "list_all2 (\<lambda>(n, w) (g, w'). group reg n = Some g \<and> w' = w) (vr_targets vr) gs"
    using resolve_targets_Inr [OF assms(1)] by blast
  then obtain wb where "WeightedBackends_new gs = Inr wb"
    using WeightedBackends_new_Inr [of gs k] resolved_weights [OF gs(2)] assms(2) by auto
  then show ?thesis using gs by (auto simp: compile_route_def Let_def)
qed

lemma compile_routes_Inr:
  assumes "\<forall>vr\<in>set vrs. (\<forall>(n, _)\<in>set (vr_targets vr). group reg n \<noteq> None) \<and> (\<exists>k. validate_split (map snd (vr_targets vr)) = Inr k)"
  shows "\<exists>crs. compile_routes pl filters reg vrs = Inr crs \<and> list_all2 (\<lambda>vr cr. compile_route pl filters reg vr = Inr cr) vrs crs"
  using assms
proof (induction vrs)
  case (Cons vr vrs)
  obtain cr where "compile_route pl filters reg vr = Inr cr" using compile_route_Inr Cons.prems by (metis list.set_intros(1))
  then show ?case using Cons by auto
qed simp

section \<open>What loading guarantees\<close>

text \<open>A filter that came through the store's pin and the provenance gate for one of the entries.\<close>

definition gated :: "('k, 'w, 'tls) plane \<Rightarrow> FilterEntry list \<Rightarrow> string \<Rightarrow> 'w Filter \<Rightarrow> bool" where
  "gated pl fes fid f \<longleftrightarrow>
     (\<exists>fe\<in>set fes. \<exists>art w w'. fe_id fe = fid \<and> pl_store pl (fe_source fe) (fe_digest fe) = Inr art \<and>
        admissible (pl_crypto pl) (pl_policy pl) fid art \<and>
        validate_filter (pl_outbound_feature pl) (\<lambda>c. pl_parse_net pl c \<noteq> None) fe = Inr () \<and>
        pl_build pl fid (component art) (load_options (pl_parallelism pl) (pl_parse_net pl) fe) w = (Inr f, w'))"

lemma gated_mono: "gated pl es fid f \<Longrightarrow> set es \<subseteq> set es' \<Longrightarrow> gated pl es' fid f"
  unfolding gated_def by blast

lemma load_inner_Inr:
  "load_inner cr policy build fid art opts w = (Inr f, w') \<Longrightarrow> admissible cr policy fid art \<and> build fid (component art) opts w = (Inr f, w')"
  using load_admitted [of cr policy fid art build opts w] load_refused [of cr policy fid art build opts w] by force

lemma load_filters_ok:
  assumes "load_filters pl fs fes w = (Inr fs', w')"
  shows "distinct (map fe_id fes) \<and> dom fs' = dom fs \<union> fe_id ` set fes \<and> dom fs \<inter> fe_id ` set fes = {} \<and>
    (\<forall>fid f. fs' fid = Some f \<longrightarrow> fs fid = Some f \<or> gated pl fes fid f)"
  using assms
proof (induction pl fs fes w rule: load_filters.induct)
  case (2 pl fs fe fes w)
  then have new: "fs (fe_id fe) = None" by (auto split: if_splits)
  obtain art where v: "validate_filter (pl_outbound_feature pl) (\<lambda>c. pl_parse_net pl c \<noteq> None) fe = Inr ()"
    "pl_store pl (fe_source fe) (fe_digest fe) = Inr art"
    using 2(2) by (auto split: if_splits sum.splits)
  obtain f w1 where l: "load_inner (pl_crypto pl) (pl_policy pl) (pl_build pl) (fe_id fe) art
        (load_options (pl_parallelism pl) (pl_parse_net pl) fe) w = (Inr f, w1)"
    "load_filters pl (fs(fe_id fe \<mapsto> f)) fes w1 = (Inr fs', w')"
    using 2(2) v by (auto split: if_splits sum.splits prod.splits)
  have IH: "distinct (map fe_id fes) \<and> dom fs' = dom (fs(fe_id fe \<mapsto> f)) \<union> fe_id ` set fes \<and>
      dom (fs(fe_id fe \<mapsto> f)) \<inter> fe_id ` set fes = {} \<and>
      (\<forall>fid g. fs' fid = Some g \<longrightarrow> (fs(fe_id fe \<mapsto> f)) fid = Some g \<or> gated pl fes fid g)"
    by (rule 2(1) [OF _ v(1) v(2) l(1) [symmetric]]) (use new l(2) in \<open>simp_all add: fun_upd_def\<close>)
  have "gated pl (fe # fes) (fe_id fe) f"
    using load_inner_Inr [OF l(1)] v unfolding gated_def by auto
  moreover have "gated pl fes fid g \<Longrightarrow> gated pl (fe # fes) fid g" for fid g
    by (rule gated_mono) auto
  ultimately have "\<forall>fid g. fs' fid = Some g \<longrightarrow> fs fid = Some g \<or> gated pl (fe # fes) fid g"
    using IH by (metis fun_upd_apply option.inject)
  then show ?case using IH new by (auto simp: image_iff)
qed auto

section \<open>A build in full\<close>

text \<open>The invariant of an active configuration over the registry it was built against.\<close>

definition config_ok :: "('k, 'w, 'tls) plane \<Rightarrow> Manifest \<Rightarrow> UpstreamRegistry \<Rightarrow> ('w, 'tls) ActiveConfig \<Rightarrow> bool" where
  "config_ok pl manifest reg ac \<longleftrightarrow>
     dom (ac_filters ac) = fe_id ` set (m_filters manifest) \<and>
     (\<forall>fid f. ac_filters ac fid = Some f \<longrightarrow> gated pl (m_filters manifest) fid f) \<and>
     set (ac_chain ac) \<subseteq> dom (ac_filters ac) \<and>
     length (ac_routes ac) = length (m_routes manifest) \<and>
     (\<forall>r\<in>set (ac_routes ac). set (cr_filters r) \<subseteq> dom (ac_filters ac) \<and>
        (\<exists>targets. WeightedBackends_new targets = Inr (cr_backends r) \<and>
           (\<forall>(g, _)\<in>set targets. \<exists>up\<in>set (m_upstreams manifest). group reg (up_name up) = Some g)))"

lemma compiled_route_ok:
  assumes "validate_route (dom fs) (up_name ` set ups) r = Inr vr" "compile_route pl fs reg vr = Inr cr"
    and g: "\<And>n. group reg n \<noteq> None \<longleftrightarrow> n \<in> up_name ` set ups"
  shows "set (cr_filters cr) \<subseteq> dom fs \<and>
    (\<exists>targets. WeightedBackends_new targets = Inr (cr_backends cr) \<and>
       (\<forall>(k, _)\<in>set targets. \<exists>up\<in>set ups. group reg (up_name up) = Some k))"
proof -
  note v = validate_route_ok [OF assms(1)]
  obtain k where "validate_split (map snd (vr_targets vr)) = Inr k" using v(3) by blast
  moreover have "\<forall>(n, _)\<in>set (vr_targets vr). group reg n \<noteq> None" using v(2) g by fastforce
  ultimately obtain gs where gs: "list_all2 (\<lambda>(n, w) (g, w'). group reg n = Some g \<and> w' = w) (vr_targets vr) gs"
    "WeightedBackends_new gs = Inr (cr_backends cr)" "cr_filters cr = route_filters (vr_route vr)"
    using compile_route_Inr [of vr reg k pl fs] assms(2) by auto
  have "\<exists>up\<in>set ups. group reg (up_name up) = Some x" if x: "(x, w) \<in> set gs" for x w
  proof -
    obtain n where "(n, w) \<in> set (vr_targets vr)" "group reg n = Some x"
      using gs(1) x by (fastforce simp: list_all2_conv_all_nth in_set_conv_nth)
    then show ?thesis using v(2) by force
  qed
  then show ?thesis using gs v(1,4) by auto
qed

lemma build_active_early:
  assumes "load_filters pl (\<lambda>_. None) (m_filters manifest) w = (res, w1)"
  shows "(\<exists>e. build_active pl manifest reg w = Some (Inl e, reg, w1)) \<or>
    (\<exists>fs validated configs hash. res = Inr fs \<and> find (\<lambda>fid. fs fid = None) (chain_filters (m_chain manifest)) = None \<and>
      validate_routes (dom fs) (up_name ` set (m_upstreams manifest)) (m_routes manifest) = Inr validated \<and>
      pl_tls pl (m_tls manifest) = Inr configs \<and> pl_content_hash pl manifest = Inr hash)"
proof (cases res)
  case (Inr fs)
  then show ?thesis
    using assms
    by (cases "find (\<lambda>fid. fs fid = None) (chain_filters (m_chain manifest))";
        cases "validate_routes (dom fs) (up_name ` set (m_upstreams manifest)) (m_routes manifest)";
        cases "pl_tls pl (m_tls manifest)"; cases "pl_content_hash pl manifest")
      (simp_all add: build_active_def)
qed (simp add: build_active_def assms)

lemma build_active_cases:
  assumes "registry_ok reg"
  obtains (ok) ac reg' w' where "build_active pl manifest reg w = Some (Inr ac, reg', w')"
      "reconcile reg (m_upstreams manifest) = Some (reg', Inr ())" "registry_ok reg'" "config_ok pl manifest reg' ac"
      "pl_content_hash pl manifest = Inr (ac_hash ac)"
    | (error) e w' where "build_active pl manifest reg w = Some (Inl e, reg, w')"
proof -
  obtain res w1 where lf: "load_filters pl (\<lambda>_. None) (m_filters manifest) w = (res, w1)" by fastforce
  consider e where "build_active pl manifest reg w = Some (Inl e, reg, w1)"
    | fs validated configs hash where "res = Inr fs" "find (\<lambda>fid. fs fid = None) (chain_filters (m_chain manifest)) = None"
      "validate_routes (dom fs) (up_name ` set (m_upstreams manifest)) (m_routes manifest) = Inr validated"
      "pl_tls pl (m_tls manifest) = Inr configs" "pl_content_hash pl manifest = Inr hash"
    using build_active_early [OF lf, of reg] by blast
  then show ?thesis
  proof cases
    case 1
    then show ?thesis by (rule error)
  next
    case (2 fs validated configs hash)
    from assms show ?thesis
    proof (cases rule: reconcile_cases [of reg "m_upstreams manifest"])
      case (error e)
      then show ?thesis using that(2) 2 lf by (auto simp: build_active_def)
    next
      case (ok reg')
      note g = reconcile_groups [OF assms ok(1)]
      note la = validate_routes_ok [OF 2(3)]
      have "\<forall>vr\<in>set validated. (\<forall>(n, _)\<in>set (vr_targets vr). group reg' n \<noteq> None) \<and>
          (\<exists>k. validate_split (map snd (vr_targets vr)) = Inr k)"
        using la validate_route_ok(2,3) g by (fastforce simp: list_all2_conv_all_nth in_set_conv_nth)
      then obtain crs where crs: "compile_routes pl fs reg' validated = Inr crs"
        "list_all2 (\<lambda>vr cr. compile_route pl fs reg' vr = Inr cr) validated crs"
        using compile_routes_Inr by blast
      define ac where "ac = \<lparr>ac_filters = fs, ac_chain = chain_filters (m_chain manifest), ac_routes = crs,
          ac_tls = map_option fst configs, ac_quic_tls = map_option snd configs, ac_hash = hash\<rparr>"
      have b: "build_active pl manifest reg w = Some (Inr ac, reg', w1)"
        using lf 2 ok(1) crs(1) by (simp add: build_active_def ac_def)
      have routes: "set (cr_filters cr) \<subseteq> dom fs \<and>
          (\<exists>targets. WeightedBackends_new targets = Inr (cr_backends cr) \<and>
             (\<forall>(k, _)\<in>set targets. \<exists>up\<in>set (m_upstreams manifest). group reg' (up_name up) = Some k))"
        if cr: "cr \<in> set crs" for cr
      proof -
        obtain j where j: "j < length crs" "crs ! j = cr" using cr by (metis in_set_conv_nth)
        then have "validate_route (dom fs) (up_name ` set (m_upstreams manifest)) (m_routes manifest ! j) = Inr (validated ! j)"
          "compile_route pl fs reg' (validated ! j) = Inr cr"
          using la crs(2) by (auto simp: list_all2_conv_all_nth)
        from compiled_route_ok [OF this g] show ?thesis .
      qed
      have lens: "length crs = length (m_routes manifest)" using la crs(2) by (simp add: list_all2_lengthD)
      have filters: "dom fs = fe_id ` set (m_filters manifest)" "\<forall>fid f. fs fid = Some f \<longrightarrow> gated pl (m_filters manifest) fid f"
        using load_filters_ok [of pl "\<lambda>_. None" "m_filters manifest" w fs w1] lf 2(1) by auto
      have chain: "set (chain_filters (m_chain manifest)) \<subseteq> dom fs" using 2(2) by (auto simp: find_None_all)
      have "config_ok pl manifest reg' ac"
        unfolding config_ok_def ac_def using filters chain routes lens by simp
      then show ?thesis using that(1) [OF b ok(1,2)] 2(5) by (simp add: ac_def)
    qed
  qed
qed

section \<open>Properties\<close>

lemma swap_in_cases:
  assumes "registry_ok (ct_upstreams c)"
  obtains (ok) c' w' where "swap_in pl c manifest w = Some (Inr (), c', w')" "registry_ok (ct_upstreams c')"
      "ct_trust c' = ct_trust c" "ct_manifest_path c' = ct_manifest_path c"
      "config_ok pl manifest (ct_upstreams c') (ct_active c')" "pl_content_hash pl manifest = Inr (ac_hash (ct_active c'))"
    | (error) e w' where "swap_in pl c manifest w = Some (Inl e, c, w')"
  using assms
proof (cases rule: build_active_cases [of _ pl manifest w])
  case (ok ac reg' w')
  then show ?thesis by (intro that(1) [of "c\<lparr>ct_upstreams := reg', ct_active := ac\<rparr>" w']) (simp_all add: swap_in_def)
next
  case (error e w')
  then show ?thesis by (intro that(2) [of e w']) (simp add: swap_in_def)
qed

text \<open>C6: Reloading is total and all-or-nothing. It always returns; on any error the active configuration,
  the upstream registry and its health state are exactly as before; on success the trust roots were
  unchanged and the new configuration is sound: every filter passed the digest pin, the provenance
  gate and validation, every filter a chain or route names is loaded, and every route's backends are
  groups of the reconciled registry.\<close>

theorem reload_all_or_nothing:
  assumes "registry_ok (ct_upstreams c)"
  shows "\<exists>r c' w'. reload pl c manifest w = Some (r, c', w') \<and> registry_ok (ct_upstreams c') \<and>
    (case r of
       Inl e \<Rightarrow> c' = c
     | Inr _ \<Rightarrow> trust manifest = ct_trust c \<and> ct_trust c' = ct_trust c \<and> ct_manifest_path c' = ct_manifest_path c \<and>
         config_ok pl manifest (ct_upstreams c') (ct_active c'))"
proof (cases "trust manifest = ct_trust c")
  case True
  then have "reload pl c manifest w = swap_in pl c manifest w"
    by (simp add: reload_def ensure_trust_unchanged_def)
  moreover from assms have "\<exists>r c' w'. swap_in pl c manifest w = Some (r, c', w') \<and> registry_ok (ct_upstreams c') \<and>
      (case r of Inl e \<Rightarrow> c' = c
       | Inr _ \<Rightarrow> trust manifest = ct_trust c \<and> ct_trust c' = ct_trust c \<and> ct_manifest_path c' = ct_manifest_path c \<and>
           config_ok pl manifest (ct_upstreams c') (ct_active c'))"
    by (cases rule: swap_in_cases [of c pl manifest w]) (use assms True in simp_all)
  ultimately show ?thesis by simp
next
  case False
  then show ?thesis using assms by (simp add: reload_def ensure_trust_unchanged_def)
qed

text \<open>A manifest with one route, one upstream and no filters.\<close>

definition example_manifest :: Manifest where
  "example_manifest =
     \<lparr>trust = \<lparr>trust_keys = []\<rparr>, m_filters = [], m_chain = \<lparr>chain_filters = []\<rparr>, m_upstreams = [example_upstream],
      m_routes = [\<lparr>matcher = \<lparr>match_host = None, match_path_prefix = ''/'', match_method = None, match_headers = [], match_query = []\<rparr>,
                   route_filters = [], route_upstream = Some (up_name example_upstream), route_backends = [],
                   route_strip_prefix = None, route_rate_limit = None\<rparr>],
      m_tls = [], observability = \<lparr>admin_addr = None, access_log = False\<rparr>\<rparr>"

definition example_plane :: "(nat, unit, unit) plane" where
  "example_plane =
     \<lparr>pl_crypto = example_crypto, pl_policy = [], pl_build = (\<lambda>_ _ _ w. (Inl (Wasmtime ''none''), w)), pl_display = (\<lambda>_. ''load''),
      pl_store = MemoryStore_resolve example_crypto MemoryStore_new, pl_parallelism = None, pl_outbound_feature = True,
      pl_parse_net = (\<lambda>_. None), pl_tls = (\<lambda>_. Inr None), pl_content_hash = (\<lambda>m. Inr (if m_routes m = [] then ''a'' else ''b'')),
      pl_hasher = (\<lambda>_. 0)\<rparr>"

definition example_control :: "(unit, unit) Control" where
  "example_control =
     \<lparr>ct_active = \<lparr>ac_filters = (\<lambda>_. None), ac_chain = [], ac_routes = [], ac_tls = None, ac_quic_tls = None, ac_hash = ''a''\<rparr>,
      ct_upstreams = UpstreamRegistry_new, ct_manifest_path = Some ''plecto.toml'', ct_trust = \<lparr>trust_keys = []\<rparr>,
      ct_observability = \<lparr>admin_addr = None, access_log = False\<rparr>\<rparr>"

lemma example_control_ok: "registry_ok (ct_upstreams example_control)"
  by (simp add: example_control_def registry_new_ok)

lemma example_swap:
  "\<exists>c' w'. swap_in example_plane example_control example_manifest () = Some (Inr (), c', w')"
proof -
  obtain reg' where r: "reconcile UpstreamRegistry_new [example_upstream] = Some (reg', Inr ())"
    using example_reconciles by blast
  then obtain g where g: "group reg' (up_name example_upstream) = Some g"
    using reconcile_groups [OF registry_new_ok r, of "up_name example_upstream"] by auto
  have v: "\<exists>k. validate_split [1] = Inr k" by (rule exI [of _ 1]) code_simp
  then obtain wb where "WeightedBackends_new [(g, 1)] = Inr wb"
    using WeightedBackends_new_Inr [of "[(g, 1)]"] by auto
  then show ?thesis
    using v r g
    by (auto simp: swap_in_def build_active_def example_manifest_def example_plane_def example_control_def validate_route_def
        route_targets_def check_route_rate_def bind_res_def compile_route_def)
qed

theorem reload_all_or_nothing_witness:
  "(\<exists>r c' w'. reload example_plane example_control (example_manifest\<lparr>trust := \<lparr>trust_keys = [''k.pem'']\<rparr>\<rparr>) () = Some (r, c', w') \<and>
     (case r of Inl e \<Rightarrow> c' = example_control | Inr _ \<Rightarrow> False)) \<and>
   (\<exists>c' w'. reload example_plane example_control example_manifest () = Some (Inr (), c', w') \<and>
     config_ok example_plane example_manifest (ct_upstreams c') (ct_active c'))"
proof
  show "\<exists>r c' w'. reload example_plane example_control (example_manifest\<lparr>trust := \<lparr>trust_keys = [''k.pem'']\<rparr>\<rparr>) () = Some (r, c', w') \<and>
     (case r of Inl e \<Rightarrow> c' = example_control | Inr _ \<Rightarrow> False)"
  proof -
    obtain r c' w' where r: "reload example_plane example_control (example_manifest\<lparr>trust := \<lparr>trust_keys = [''k.pem'']\<rparr>\<rparr>) () = Some (r, c', w')"
      "case r of Inl e \<Rightarrow> c' = example_control | Inr _ \<Rightarrow> trust (example_manifest\<lparr>trust := \<lparr>trust_keys = [''k.pem'']\<rparr>\<rparr>) = ct_trust example_control"
      using reload_all_or_nothing [OF example_control_ok, of example_plane "example_manifest\<lparr>trust := \<lparr>trust_keys = [''k.pem'']\<rparr>\<rparr>" "()"]
      by (fastforce split: sum.splits)
    then have "case r of Inl e \<Rightarrow> c' = example_control | Inr _ \<Rightarrow> False"
      by (cases r) (simp_all add: example_control_def)
    then show ?thesis using r(1) by blast
  qed
  have "trust example_manifest = ct_trust example_control" by (simp add: example_manifest_def example_control_def)
  then show "\<exists>c' w'. reload example_plane example_control example_manifest () = Some (Inr (), c', w') \<and>
     config_ok example_plane example_manifest (ct_upstreams c') (ct_active c')"
    using reload_all_or_nothing [OF example_control_ok, of example_plane example_manifest "()"] example_swap
    by (auto simp: reload_def ensure_trust_unchanged_def)
qed

text \<open>Reloading from disk. Whatever is on disk the reload returns; an error or an unchanged version
  leaves the control plane as it was; after a reload that swapped, the running version is the hash of
  the manifest read, and reloading again from the same disk changes nothing.\<close>

theorem disk_reload_idempotent:
  assumes "registry_ok (ct_upstreams c)"
  shows "\<exists>r c' w'. reload_from_disk pl c disk w = Some (r, c', w') \<and> registry_ok (ct_upstreams c') \<and>
    (case r of
       Inr (Reloaded hash) \<Rightarrow> ac_hash (ct_active c') = hash \<and> hash \<noteq> ac_hash (ct_active c) \<and>
         reload_from_disk pl c' disk w' = Some (Inr Unchanged, c', w')
     | _ \<Rightarrow> c' = c)"
proof (cases "ct_manifest_path c")
  case None
  then show ?thesis using assms by (simp add: reload_from_disk_def)
next
  case (Some path)
  show ?thesis
  proof (cases "disk path")
    case (Inl e)
    then show ?thesis using assms Some by (simp add: reload_from_disk_def)
  next
    case (Inr m)
    show ?thesis
    proof (cases "trust m = ct_trust c")
      case False
      then show ?thesis using assms Some Inr by (simp add: reload_from_disk_def ensure_trust_unchanged_def)
    next
      case True
      show ?thesis
      proof (cases "pl_content_hash pl m")
        case (Inl e)
        then show ?thesis using assms Some Inr True by (simp add: reload_from_disk_def ensure_trust_unchanged_def)
      next
        case h: (Inr h)
        note facts = h assms Some Inr True
        show ?thesis
        proof (cases "h = ac_hash (ct_active c)")
          case True
          then show ?thesis using facts by (simp add: reload_from_disk_def ensure_trust_unchanged_def)
        next
          case False
          from assms show ?thesis
            by (cases rule: swap_in_cases [of c pl m w])
              (use facts False in \<open>simp_all add: reload_from_disk_def ensure_trust_unchanged_def\<close>)
        qed
      qed
    qed
  qed
qed

theorem disk_reload_idempotent_witness:
  "\<exists>c' w'. reload_from_disk example_plane example_control (\<lambda>_. Inr example_manifest) () = Some (Inr (Reloaded ''b''), c', w') \<and>
     reload_from_disk example_plane c' (\<lambda>_. Inr example_manifest) w' = Some (Inr Unchanged, c', w')"
proof -
  have "trust example_manifest = ct_trust example_control" "ct_manifest_path example_control = Some ''plecto.toml''"
    "pl_content_hash example_plane example_manifest = Inr ''b''" "ac_hash (ct_active example_control) = ''a''"
    by (simp_all add: example_manifest_def example_control_def example_plane_def)
  then have "\<exists>c' w'. reload_from_disk example_plane example_control (\<lambda>_. Inr example_manifest) () = Some (Inr (Reloaded ''b''), c', w')"
    using example_swap by (auto simp: reload_from_disk_def ensure_trust_unchanged_def)
  then show ?thesis
    using disk_reload_idempotent [OF example_control_ok, of example_plane "\<lambda>_. Inr example_manifest" "()"] by auto
qed

end
