(* ===== verification/Headers.thy ===== *)
theory Headers
  imports Http Manifest Net
begin

text \<open>
  The header handling of the fast path, \<open>server/src/headers.rs\<close>: the strip of hop-by-hop headers,
  the propagation of the client address, the projection of a request into the filter contract and
  the copy of the chain's headers into the message that goes out.

  A \<open>HeaderMap\<close> of the \<open>http\<close> crate is the sequence of its entries, with the names in lower case
  as \<open>HeaderName\<close> keeps them; the values of one name are in the order they were added, and
  nothing below depends on the order of different names. The validation of names and values by that
  crate is an argument. The texts of addresses and the lossy decoding of UTF-8 are those of the
  standard library.
\<close>

section \<open>Standard library texts\<close>

definition digit_char :: "nat \<Rightarrow> char" where
  "digit_char d = (if d < 10 then char_of (48 + d) else char_of (87 + d))"

fun radix_string :: "nat \<Rightarrow> nat \<Rightarrow> string" where
  "radix_string b n =
     (if b < 2 \<or> n < b then [digit_char n] else radix_string b (n div b) @ [digit_char (n mod b)])"

declare radix_string.simps [simp del]

definition dec_string :: "nat \<Rightarrow> string" where
  "dec_string n = radix_string 10 n"

definition ipv4_string :: "u32 \<Rightarrow> string" where
  "ipv4_string a = join_with CHR ''.'' (map (\<lambda>b. dec_string (unat b)) (v4_octets a))"

text \<open>The first longest run of zero segments, as its start and its length.\<close>

fun zero_run :: "nat \<Rightarrow> nat \<times> nat \<Rightarrow> nat \<times> nat \<Rightarrow> u16 list \<Rightarrow> nat \<times> nat" where
  "zero_run i current longest [] = longest"
| "zero_run i current longest (s # ss) =
     (if s = 0 then
        (let current = (if snd current = 0 then i else fst current, snd current + 1);
             longest = (if snd current > snd longest then current else longest)
         in zero_run (i + 1) current longest ss)
      else zero_run (i + 1) (0, 0) longest ss)"

definition segments_string :: "u16 list \<Rightarrow> string" where
  "segments_string ss = join_with CHR '':'' (map (\<lambda>s. radix_string 16 (unat s)) ss)"

definition ipv6_string :: "128 word \<Rightarrow> string" where
  "ipv6_string a =
     (case to_ipv4_mapped a of
        Some v4 \<Rightarrow> ''::ffff:'' @ ipv4_string v4
      | None \<Rightarrow>
          (let ss = v6_segments a; (start, len) = zero_run 0 (0, 0) (0, 0) ss
           in if len > 1 then segments_string (take start ss) @ ''::'' @ segments_string (drop (start + len) ss)
              else segments_string ss))"

subsection \<open>Lossy UTF-8\<close>

definition utf8_cont :: "u8 \<Rightarrow> bool" where
  "utf8_cont b \<longleftrightarrow> 0x80 \<le> b \<and> b \<le> 0xBF"

text \<open>The second byte of a sequence of three or four.\<close>

definition utf8_second :: "u8 \<Rightarrow> u8 \<Rightarrow> bool" where
  "utf8_second b c \<longleftrightarrow>
     (if b = 0xE0 then 0xA0 \<le> c \<and> c \<le> 0xBF
      else if b = 0xED then 0x80 \<le> c \<and> c \<le> 0x9F
      else if b = 0xF0 then 0x90 \<le> c \<and> c \<le> 0xBF
      else if b = 0xF4 then 0x80 \<le> c \<and> c \<le> 0x8F
      else utf8_cont c)"

text \<open>How many bytes the next chunk has, and whether they are one character.\<close>

fun utf8_tail :: "nat \<Rightarrow> nat \<Rightarrow> bytes \<Rightarrow> nat \<times> bool" where
  "utf8_tail n 0 bs = (n, True)"
| "utf8_tail n (Suc k) [] = (n, False)"
| "utf8_tail n (Suc k) (b # bs) = (if utf8_cont b then utf8_tail (n + 1) k bs else (n, False))"

fun utf8_chunk :: "bytes \<Rightarrow> nat \<times> bool" where
  "utf8_chunk [] = (0, True)"
| "utf8_chunk (b # bs) =
     (if b < 0x80 then (1, True)
      else if 0xC2 \<le> b \<and> b \<le> 0xDF then utf8_tail 1 1 bs
      else if 0xE0 \<le> b \<and> b \<le> 0xF4 then
        (case bs of
           [] \<Rightarrow> (1, False)
         | c # cs \<Rightarrow> if utf8_second b c then utf8_tail 2 (if b < 0xF0 then 1 else 2) cs else (1, False))
      else (1, False))"

lemma utf8_tail_pos: "0 < n \<Longrightarrow> 0 < fst (utf8_tail n k bs)"
  by (induction n k bs rule: utf8_tail.induct) auto

lemma utf8_chunk_pos: "bs \<noteq> [] \<Longrightarrow> 0 < fst (utf8_chunk bs)"
  by (cases bs) (auto intro: utf8_tail_pos split: list.splits)

definition REPLACEMENT :: bytes where "REPLACEMENT = [0xEF, 0xBF, 0xBD]"

function utf8_lossy :: "bytes \<Rightarrow> bytes" where
  "utf8_lossy bs =
     (if bs = [] then []
      else let (n, ok) = utf8_chunk bs
           in (if ok then take n bs else REPLACEMENT) @ utf8_lossy (drop n bs))"
  by pat_completeness auto
termination
proof (relation "measure length")
  fix bs :: bytes and p n ok
  assume "bs \<noteq> []" "p = utf8_chunk bs" "(n, ok) = p"
  then show "(drop n bs, bs) \<in> measure length" using utf8_chunk_pos [of bs] by (cases "utf8_chunk bs") auto
qed simp

declare utf8_lossy.simps [simp del]

definition from_utf8_lossy :: "bytes \<Rightarrow> string" where
  "from_utf8_lossy bs = map (\<lambda>b. char_of (unat b)) (utf8_lossy bs)"

section \<open>Header maps\<close>

type_synonym HeaderMap = "(string \<times> bytes) list"

definition get_all :: "HeaderMap \<Rightarrow> string \<Rightarrow> bytes list" where
  "get_all m name = map snd (filter (\<lambda>(k, _). k = name) m)"

definition get_first :: "HeaderMap \<Rightarrow> string \<Rightarrow> bytes option" where
  "get_first m name = (case get_all m name of [] \<Rightarrow> None | v # _ \<Rightarrow> Some v)"

definition hm_append :: "HeaderMap \<Rightarrow> string \<Rightarrow> bytes \<Rightarrow> HeaderMap" where
  "hm_append m name v = m @ [(name, v)]"

definition hm_insert :: "HeaderMap \<Rightarrow> string \<Rightarrow> bytes \<Rightarrow> HeaderMap" where
  "hm_insert m name v = filter (\<lambda>(k, _). k \<noteq> name) m @ [(name, v)]"

text \<open>\<open>HeaderName::from_bytes\<close>, \<open>HeaderValue::from_str\<close>, \<open>HeaderValue::to_str\<close>, and whether
  \<open>StatusCode::from_u16\<close> accepts a code.\<close>

record http_lib =
  name_from_bytes :: "string \<Rightarrow> string option"
  value_from_str :: "string \<Rightarrow> bytes option"
  value_to_str :: "bytes \<Rightarrow> string option"
  status_valid :: "u16 \<Rightarrow> bool"

text \<open>What their documentation promises: a valid name is put in lower case, a valid value is kept as
  it is and has no control character but the tab, and a status has three digits.\<close>

definition header_byte :: "u8 \<Rightarrow> bool" where
  "header_byte b \<longleftrightarrow> 32 \<le> b \<and> b \<noteq> 127 \<or> b = 9"

definition http_lib_ok :: "http_lib \<Rightarrow> bool" where
  "http_lib_ok lib \<longleftrightarrow>
     (\<forall>s n. name_from_bytes lib s = Some n \<longrightarrow> n = ascii_lower s) \<and>
     (\<forall>s v. value_from_str lib s = Some v \<longrightarrow> v = str_bytes s \<and> list_all header_byte v) \<and>
     (\<forall>c. status_valid lib c \<longleftrightarrow> 100 \<le> c \<and> c < 1000)"

section \<open>Hop-by-hop headers\<close>

definition HOP_BY_HOP :: "string list" where
  "HOP_BY_HOP =
     [''connection'', ''keep-alive'', ''proxy-connection'', ''transfer-encoding'', ''te'', ''trailer'', ''upgrade'',
      ''proxy-authorization'', ''proxy-authenticate'']"

definition is_hop_by_hop :: "string \<Rightarrow> bool" where
  "is_hop_by_hop name = list_ex (\<lambda>h. eq_ignore_case name h) HOP_BY_HOP"

definition connection_tokens :: "string \<Rightarrow> string list" where
  "connection_tokens s = map ascii_lower (filter (\<lambda>t. t \<noteq> []) (map trim_ws (split_at CHR '','' s)))"

definition connection_named :: "http_lib \<Rightarrow> HeaderMap \<Rightarrow> string set" where
  "connection_named lib m =
     set (concat (map (\<lambda>v. case value_to_str lib v of Some s \<Rightarrow> connection_tokens s | None \<Rightarrow> []) (get_all m ''connection'')))"

section \<open>The client address\<close>

definition FORWARDED_HEADERS :: "string list" where
  "FORWARDED_HEADERS =
     [''forwarded'', ''x-forwarded-for'', ''x-forwarded-proto'', ''x-forwarded-host'', ''x-real-ip'', ''true-client-ip'',
      ''cf-connecting-ip'', ''fastly-client-ip'', ''x-client-ip'', ''x-cluster-client-ip'']"

definition client_ip :: "IpAddr \<Rightarrow> string" where
  "client_ip peer =
     (case peer of
        V6 v6 \<Rightarrow> (case to_ipv4_mapped v6 of Some v4 \<Rightarrow> ipv4_string v4 | None \<Rightarrow> ipv6_string v6)
      | V4 v4 \<Rightarrow> ipv4_string v4)"

definition set_forwarded :: "Header list \<Rightarrow> IpAddr \<Rightarrow> string \<Rightarrow> Header list" where
  "set_forwarded headers peer scheme =
     filter (\<lambda>h. \<not> list_ex (\<lambda>f. eq_ignore_case (h_name h) f) FORWARDED_HEADERS) headers @
     [\<lparr>h_name = ''x-forwarded-for'', h_value = client_ip peer\<rparr>,
      \<lparr>h_name = ''x-real-ip'', h_value = client_ip peer\<rparr>,
      \<lparr>h_name = ''x-forwarded-proto'', h_value = scheme\<rparr>]"

section \<open>Between the wire and the contract\<close>

record Parts =
  pt_method :: string
  pt_path_and_query :: "string option"
  pt_uri_authority :: "string option"
  pt_headers :: HeaderMap

definition headers_to_vec :: "http_lib \<Rightarrow> HeaderMap \<Rightarrow> Header list" where
  "headers_to_vec lib m =
     map (\<lambda>(name, v). \<lparr>h_name = name, h_value = from_utf8_lossy v\<rparr>)
       (filter (\<lambda>(name, _). \<not> is_hop_by_hop name \<and> ascii_lower name \<notin> connection_named lib m) m)"

definition request_authority :: "http_lib \<Rightarrow> Parts \<Rightarrow> string" where
  "request_authority lib parts =
     (case pt_uri_authority parts of
        Some a \<Rightarrow> a
      | None \<Rightarrow>
          (case get_first (pt_headers parts) ''host'' of
             None \<Rightarrow> []
           | Some v \<Rightarrow> (case value_to_str lib v of Some s \<Rightarrow> s | None \<Rightarrow> [])))"

definition to_http_request :: "http_lib \<Rightarrow> Parts \<Rightarrow> string \<Rightarrow> HttpRequest" where
  "to_http_request lib parts scheme =
     \<lparr>req_method = pt_method parts,
      req_path = (case pt_path_and_query parts of Some pq \<Rightarrow> pq | None \<Rightarrow> ''/''),
      req_authority = request_authority lib parts,
      req_scheme = scheme,
      req_headers = headers_to_vec lib (pt_headers parts)\<rparr>"

fun copy_headers :: "http_lib \<Rightarrow> HeaderMap \<Rightarrow> Header list \<Rightarrow> HeaderMap" where
  "copy_headers lib dst [] = dst"
| "copy_headers lib dst (h # hs) =
     (if is_hop_by_hop (h_name h) then copy_headers lib dst hs
      else case (name_from_bytes lib (h_name h), value_from_str lib (h_value h)) of
             (Some name, Some v) \<Rightarrow> copy_headers lib (hm_append dst name v) hs
           | _ \<Rightarrow> copy_headers lib dst hs)"

fun copy_headers_preserving :: "http_lib \<Rightarrow> HeaderMap \<Rightarrow> Header list \<Rightarrow> HeaderMap \<Rightarrow> HeaderMap" where
  "copy_headers_preserving lib dst [] original = dst"
| "copy_headers_preserving lib dst (h # hs) original =
     (if is_hop_by_hop (h_name h) then copy_headers_preserving lib dst hs original
      else case name_from_bytes lib (h_name h) of
             None \<Rightarrow> copy_headers_preserving lib dst hs original
           | Some name \<Rightarrow>
               (case find (\<lambda>v. from_utf8_lossy v = h_value h) (get_all original name) of
                  Some v \<Rightarrow> copy_headers_preserving lib (hm_append dst name v) hs original
                | None \<Rightarrow>
                    (case value_from_str lib (h_value h) of
                       Some v \<Rightarrow> copy_headers_preserving lib (hm_append dst name v) hs original
                     | None \<Rightarrow> copy_headers_preserving lib dst hs original)))"

section \<open>What is sent\<close>

text \<open>The entries a header of the chain contributes.\<close>

definition kept_value :: "http_lib \<Rightarrow> HeaderMap \<Rightarrow> string \<Rightarrow> string \<Rightarrow> bytes option" where
  "kept_value lib original name s =
     (case find (\<lambda>v. from_utf8_lossy v = s) (get_all original name) of
        Some v \<Rightarrow> Some v
      | None \<Rightarrow> value_from_str lib s)"

definition sent_entries :: "http_lib \<Rightarrow> HeaderMap \<Rightarrow> Header \<Rightarrow> HeaderMap" where
  "sent_entries lib original h =
     (if is_hop_by_hop (h_name h) then []
      else case name_from_bytes lib (h_name h) of
             None \<Rightarrow> []
           | Some name \<Rightarrow> (case kept_value lib original name (h_value h) of None \<Rightarrow> [] | Some v \<Rightarrow> [(name, v)]))"

lemma copy_headers_preserving_eq:
  "copy_headers_preserving lib dst hs original = dst @ concat (map (sent_entries lib original) hs)"
  by (induction hs arbitrary: dst)
    (auto simp: sent_entries_def kept_value_def hm_append_def split: option.splits)

lemma get_all_Nil [simp]: "get_all [] n = []"
  by (simp add: get_all_def)

lemma get_all_Cons [simp]: "get_all ((k, v) # m) n = (if k = n then v # get_all m n else get_all m n)"
  by (simp add: get_all_def)

lemma get_all_append [simp]: "get_all (m @ m') n = get_all m n @ get_all m' n"
  by (simp add: get_all_def)

lemma get_all_set: "v \<in> set (get_all m n) \<longleftrightarrow> (n, v) \<in> set m"
  by (force simp: get_all_def)

lemma is_hop_by_hop_lower [simp]: "is_hop_by_hop (ascii_lower n) = is_hop_by_hop n"
  by (simp add: is_hop_by_hop_def eq_ignore_case_def)

lemma find_Some_imp: "find P xs = Some x \<Longrightarrow> x \<in> set xs \<and> P x"
  by (metis find_Some_iff nth_mem)

lemma kept_value_cases:
  assumes "http_lib_ok lib" "kept_value lib original n s = Some v"
  shows "v \<in> set (get_all original n) \<and> from_utf8_lossy v = s \<or> v = str_bytes s \<and> list_all header_byte v"
proof (cases "find (\<lambda>v. from_utf8_lossy v = s) (get_all original n)")
  case None
  then show ?thesis using assms by (auto simp: kept_value_def http_lib_ok_def)
next
  case (Some x)
  then show ?thesis using assms(2) find_Some_imp [OF Some] by (auto simp: kept_value_def)
qed

lemma sent_entries_cases:
  assumes "http_lib_ok lib" "(k, v) \<in> set (sent_entries lib original h)"
  shows "\<not> is_hop_by_hop k" "k = ascii_lower (h_name h)" "kept_value lib original k (h_value h) = Some v"
proof -
  have k: "name_from_bytes lib (h_name h) = Some k" "\<not> is_hop_by_hop (h_name h)"
    "kept_value lib original k (h_value h) = Some v"
    using assms(2) by (auto simp: sent_entries_def split: if_splits option.splits)
  then show "k = ascii_lower (h_name h)" using assms(1) by (simp add: http_lib_ok_def)
  then show "\<not> is_hop_by_hop k" "kept_value lib original k (h_value h) = Some v" using k by simp_all
qed

text \<open>A value that is the only inbound one of its name with its decoding is kept as it is.\<close>

lemma kept_value_original:
  assumes "v \<in> set (get_all m n)" "inj_on from_utf8_lossy (set (get_all m n))"
  shows "kept_value lib m n (from_utf8_lossy v) = Some v"
proof -
  obtain x where x: "find (\<lambda>x. from_utf8_lossy x = from_utf8_lossy v) (get_all m n) = Some x"
    using assms(1) by (cases "find (\<lambda>x. from_utf8_lossy x = from_utf8_lossy v) (get_all m n)") (auto simp: find_None_iff)
  then have "x = v" using find_Some_imp [OF x] assms by (auto dest: inj_onD)
  then show ?thesis using x by (simp add: kept_value_def)
qed

lemma sent_entry_exact:
  assumes "(k, v) \<in> set m" "name_from_bytes lib k = Some k" "inj_on from_utf8_lossy (set (get_all m n))" "\<not> is_hop_by_hop k"
  shows "get_all (sent_entries lib m \<lparr>h_name = k, h_value = from_utf8_lossy v\<rparr>) n = (if k = n then [v] else [])"
proof (cases "k = n")
  case True
  then have "kept_value lib m n (from_utf8_lossy v) = Some v"
    using assms by (intro kept_value_original) (auto simp: get_all_set)
  then show ?thesis using assms True by (simp add: sent_entries_def)
qed (use assms in \<open>auto simp: sent_entries_def split: option.splits\<close>)

lemma sent_exact:
  assumes "set xs \<subseteq> set m" "\<forall>(k, _) \<in> set m. name_from_bytes lib k = Some k"
    and "inj_on from_utf8_lossy (set (get_all m n))" "\<forall>(k, _) \<in> set xs. \<not> is_hop_by_hop k"
  shows "get_all (concat (map (\<lambda>(k, v). sent_entries lib m \<lparr>h_name = k, h_value = from_utf8_lossy v\<rparr>) xs)) n = get_all xs n"
  using assms(1,4)
proof (induction xs)
  case (Cons e xs)
  obtain k v where e: "e = (k, v)" by (cases e)
  have "get_all (sent_entries lib m \<lparr>h_name = k, h_value = from_utf8_lossy v\<rparr>) n = (if k = n then [v] else [])"
    using Cons.prems assms(2,3) e by (intro sent_entry_exact) auto
  then show ?case using Cons e by auto
qed simp

lemma get_all_filter:
  "get_all (filter (\<lambda>(k, _). P k) m) n = (if P n then get_all m n else [])"
  by (induction m) (auto simp: get_all_def)

lemma to_ipv4_mapped_wrap: "to_ipv4_mapped (push_bit 32 0xFFFF + ucast (a :: u32)) = Some a"
proof -
  let ?w = "push_bit 32 0xFFFF + ucast a :: 128 word"
  have lt: "unat a < 2 ^ 32" using unsigned_less [of a] by simp
  then have "unat ?w = 0xFFFF00000000 + unat a" by (simp add: unat_word_ariths unsigned_ucast_eq take_bit_nat_eq_self)
  moreover have "unat (drop_bit 32 ?w) = unat ?w div 2 ^ 32" by (subst unat_drop_bit_eq) (rule drop_bit_eq_div)
  moreover have "(0xFFFF00000000 + unat a) div 2 ^ 32 = 0xFFFF" using lt by simp
  ultimately have "drop_bit 32 ?w = 0xFFFF" by (simp add: word_unat_eq_iff)
  moreover have r: "(0xFFFF * 2 ^ 32 + unat a) mod 2 ^ 32 = unat a" using lt by (simp only: mod_mult_self3 mod_less)
  moreover have "ucast ?w = a"
    using \<open>unat ?w = 0xFFFF00000000 + unat a\<close> lt r
    by (simp add: word_unat_eq_iff unsigned_ucast_eq take_bit_eq_mod)
  ultimately show ?thesis by (simp add: to_ipv4_mapped_def)
qed

definition example_lib :: http_lib where
  "example_lib =
     \<lparr>name_from_bytes = (\<lambda>s. if s = [] then None else Some (ascii_lower s)),
      value_from_str = (\<lambda>s. if list_all header_byte (str_bytes s) then Some (str_bytes s) else None),
      value_to_str = (\<lambda>v. if list_all (\<lambda>b. 32 \<le> b \<and> b < 127 \<or> b = 9) v then Some (map (\<lambda>b. char_of (unat b)) v) else None),
      status_valid = (\<lambda>c. 100 \<le> c \<and> c < 1000)\<rparr>"

lemma example_lib_ok: "http_lib_ok example_lib"
  by (simp add: http_lib_ok_def example_lib_def)

definition example_map :: HeaderMap where
  "example_map = [(''x-a'', [0x61, 0xFF]), (''connection'', str_bytes ''X-Drop, close''), (''x-drop'', [0x31]), (''te'', [0x31])]"

section \<open>Properties\<close>

text \<open>C20: The forwarding headers a filter or an upstream sees are the proxy's own: whatever the client
  sent, every header of the spoofable family carries exactly the address of the connection's peer or
  the scheme of the wire, or is absent, under any spelling of its name, and every other header keeps
  its values. The address is in IPv4 form for an IPv4 client of a dual-stack listener.\<close>

theorem forwarded_authoritative:
  "header_values (set_forwarded headers peer scheme) n =
     (if eq_ignore_case n ''x-forwarded-for'' \<or> eq_ignore_case n ''x-real-ip'' then [client_ip peer]
      else if eq_ignore_case n ''x-forwarded-proto'' then [scheme]
      else if list_ex (eq_ignore_case n) FORWARDED_HEADERS then []
      else header_values headers n) \<and>
   client_ip (V6 (push_bit 32 0xFFFF + ucast a)) = client_ip (V4 a)"
proof
  let ?own = "[\<lparr>h_name = ''x-forwarded-for'', h_value = client_ip peer\<rparr>, \<lparr>h_name = ''x-real-ip'', h_value = client_ip peer\<rparr>,
      \<lparr>h_name = ''x-forwarded-proto'', h_value = scheme\<rparr>]"
  let ?keep = "filter (\<lambda>h. \<not> list_ex (\<lambda>f. eq_ignore_case (h_name h) f) FORWARDED_HEADERS) headers"
  have keep: "header_values ?keep n = (if list_ex (eq_ignore_case n) FORWARDED_HEADERS then [] else header_values headers n)"
    by (auto simp: header_values_def eq_ignore_case_def list_ex_iff filter_empty_conv intro!: arg_cong [where f = "map h_value"] filter_cong)
  have lits: "ascii_lower ''x-forwarded-for'' = ''x-forwarded-for''" "ascii_lower ''x-real-ip'' = ''x-real-ip''"
    "ascii_lower ''x-forwarded-proto'' = ''x-forwarded-proto''"
    by code_simp+
  have own: "header_values ?own n =
      (if eq_ignore_case n ''x-forwarded-for'' \<or> eq_ignore_case n ''x-real-ip'' then [client_ip peer]
       else if eq_ignore_case n ''x-forwarded-proto'' then [scheme] else [])"
    by (auto simp: header_values_def eq_ignore_case_def lits)
  have fam: "eq_ignore_case n f \<Longrightarrow> f \<in> set FORWARDED_HEADERS \<Longrightarrow> list_ex (eq_ignore_case n) FORWARDED_HEADERS" for f
    by (auto simp: list_ex_iff)
  have mem: "''x-forwarded-for'' \<in> set FORWARDED_HEADERS" "''x-real-ip'' \<in> set FORWARDED_HEADERS"
    "''x-forwarded-proto'' \<in> set FORWARDED_HEADERS"
    by (simp_all add: FORWARDED_HEADERS_def)
  show "header_values (set_forwarded headers peer scheme) n =
     (if eq_ignore_case n ''x-forwarded-for'' \<or> eq_ignore_case n ''x-real-ip'' then [client_ip peer]
      else if eq_ignore_case n ''x-forwarded-proto'' then [scheme]
      else if list_ex (eq_ignore_case n) FORWARDED_HEADERS then []
      else header_values headers n)"
    using fam [of "''x-forwarded-for''", OF _ mem(1)] fam [of "''x-real-ip''", OF _ mem(2)]
      fam [of "''x-forwarded-proto''", OF _ mem(3)]
    by (simp add: set_forwarded_def keep own)
  have "to_ipv4_mapped (push_bit 32 0xFFFF + ucast a) = Some a"
    by (rule to_ipv4_mapped_wrap)
  then show "client_ip (V6 (push_bit 32 0xFFFF + ucast a)) = client_ip (V4 a)"
    by (simp add: client_ip_def)
qed

text \<open>C28: Whatever headers the filters produce, the message that goes out carries no hop-by-hop header
  under any spelling, and every line of it stems from a header of the chain with that name: its
  value is the text the chain asked for and free of control characters, or bytes the peer sent under
  that very name which the chain passed through.\<close>

theorem forwarded_headers_clean:
  assumes "http_lib_ok lib" "(k, v) \<in> set (copy_headers_preserving lib [] hs original)"
  shows "\<not> is_hop_by_hop k \<and>
    (\<exists>h\<in>set hs. ascii_lower (h_name h) = k \<and>
       (v \<in> set (get_all original k) \<and> from_utf8_lossy v = h_value h \<or>
        v = str_bytes (h_value h) \<and> list_all header_byte v))"
proof -
  obtain h where h: "h \<in> set hs" "(k, v) \<in> set (sent_entries lib original h)"
    using assms(2) by (auto simp: copy_headers_preserving_eq)
  note c = sent_entries_cases [OF assms(1) h(2)]
  show ?thesis using c h(1) kept_value_cases [OF assms(1) c(3)] by blast
qed

theorem forwarded_headers_clean_witness:
  "\<not> is_hop_by_hop ''x-a'' \<and>
   (\<exists>h\<in>set (headers_to_vec example_lib example_map). ascii_lower (h_name h) = ''x-a'' \<and>
       ([0x61, 0xFF] \<in> set (get_all example_map ''x-a'') \<and> from_utf8_lossy [0x61, 0xFF] = h_value h \<or>
        [0x61, 0xFF] = str_bytes (h_value h) \<and> list_all header_byte [0x61, 0xFF]))"
proof (rule forwarded_headers_clean [OF example_lib_ok])
  show "(''x-a'', [0x61, 0xFF]) \<in>
      set (copy_headers_preserving example_lib [] (headers_to_vec example_lib example_map) example_map)"
    by code_simp
qed

text \<open>Headers the chain does not touch pass byte for byte: for every name whose inbound values are told
  apart by their lossy decoding, the message that goes out has exactly the inbound values, in order,
  and none if the name is hop-by-hop or the peer's \<open>Connection\<close> header names it.\<close>

theorem passthrough_exact:
  assumes "\<forall>(k, _) \<in> set m. name_from_bytes lib k = Some k" "\<forall>(k, _) \<in> set m. ascii_lower k = k"
    and "inj_on from_utf8_lossy (set (get_all m n))"
  shows "get_all (copy_headers_preserving lib [] (headers_to_vec lib m) m) n =
    (if is_hop_by_hop n \<or> n \<in> connection_named lib m then [] else get_all m n)"
proof -
  let ?P = "\<lambda>k. \<not> is_hop_by_hop k \<and> ascii_lower k \<notin> connection_named lib m"
  let ?xs = "filter (\<lambda>(k, _). ?P k) m"
  have "get_all (copy_headers_preserving lib [] (headers_to_vec lib m) m) n = get_all ?xs n"
    using sent_exact [of ?xs m lib n] assms
    by (auto simp: copy_headers_preserving_eq headers_to_vec_def comp_def case_prod_unfold)
  also have "\<dots> = (if ?P n then get_all m n else [])" by (rule get_all_filter)
  also have "\<dots> = (if is_hop_by_hop n \<or> n \<in> connection_named lib m then [] else get_all m n)"
  proof (cases "get_all m n = []")
    case False
    then have "ascii_lower n = n" using assms(2) by (auto simp: get_all_def filter_empty_conv)
    then show ?thesis by simp
  qed simp
  finally show ?thesis .
qed

theorem passthrough_exact_witness:
  "get_all (copy_headers_preserving example_lib [] (headers_to_vec example_lib example_map) example_map) ''x-a'' = [[0x61, 0xFF]] \<and>
   get_all (copy_headers_preserving example_lib [] (headers_to_vec example_lib example_map) example_map) ''x-drop'' = []"
proof -
  have names: "\<forall>(k, _) \<in> set example_map. name_from_bytes example_lib k = Some k"
    "\<forall>(k, _) \<in> set example_map. ascii_lower k = k"
    by code_simp+
  have inj: "inj_on from_utf8_lossy (set (get_all example_map n))" if "n = ''x-a'' \<or> n = ''x-drop''" for n
    using that by (auto simp: example_map_def)
  have v: "get_all example_map ''x-a'' = [[0x61, 0xFF]]" "is_hop_by_hop ''x-a'' = False"
    "''x-a'' \<notin> connection_named example_lib example_map" "''x-drop'' \<in> connection_named example_lib example_map"
    by code_simp+
  show ?thesis
    using passthrough_exact [OF names inj [of "''x-a''"]] passthrough_exact [OF names inj [of "''x-drop''"]] v by simp
qed

text \<open>Without that condition the bytes are not kept: two values of one name with the same lossy decoding
  both go out as the first of them.\<close>

theorem passthrough_collision:
  "get_all (copy_headers_preserving example_lib [] (headers_to_vec example_lib [(''x-a'', [0xFF]), (''x-a'', [0xFE])])
     [(''x-a'', [0xFF]), (''x-a'', [0xFE])]) ''x-a'' = [[0xFF], [0xFF]]"
  by code_simp

end
