(* ===== verification/Metrics.thy ===== *)
theory Metrics
  imports Prelude
begin

text \<open>
  The data-plane counters of \<open>server/src/metrics.rs\<close>: requests by status class, the gauge of
  requests in flight, the event counters and the latency histogram. Counters are 64-bit words that
  wrap, as the atomics do. The arithmetic on floating-point seconds is an argument: the first bucket
  bound an observation does not exceed, and its microseconds. The text they are
  exposed as is in the theory of the admin endpoint.
\<close>

section \<open>The histogram\<close>

definition DURATION_BUCKETS :: nat where "DURATION_BUCKETS = 12"

record Histogram =
  hist_buckets :: "u64 list"
  hist_count :: u64
  hist_sum_micros :: u64

definition Histogram_new :: Histogram where
  "Histogram_new = \<lparr>hist_buckets = replicate DURATION_BUCKETS 0, hist_count = 0, hist_sum_micros = 0\<rparr>"

text \<open>\<open>within i\<close> tells whether the observation is at most the \<open>i\<close>-th bound.\<close>

definition observe :: "(nat \<Rightarrow> bool) \<Rightarrow> u64 \<Rightarrow> Histogram \<Rightarrow> Histogram" where
  "observe within micros h =
     (let h = h\<lparr>hist_count := hist_count h + 1, hist_sum_micros := hist_sum_micros h + micros\<rparr>
      in case find within [0..<length (hist_buckets h)] of
           Some i \<Rightarrow> h\<lparr>hist_buckets := (hist_buckets h)[i := hist_buckets h ! i + 1]\<rparr>
         | None \<Rightarrow> h)"

section \<open>The counters\<close>

record ServerMetrics =
  status_class :: "u64 list"
  requests_in_flight :: i64
  retries :: u64
  circuit_open :: u64
  rate_limited :: u64
  outlier_ejections :: u64
  duration :: Histogram

definition ServerMetrics_new :: ServerMetrics where
  "ServerMetrics_new =
     \<lparr>status_class = replicate 5 0, requests_in_flight = 0, retries = 0, circuit_open = 0, rate_limited = 0,
      outlier_ejections = 0, duration = Histogram_new\<rparr>"

definition inc_in_flight :: "ServerMetrics \<Rightarrow> ServerMetrics" where
  "inc_in_flight m = m\<lparr>requests_in_flight := requests_in_flight m + 1\<rparr>"

definition dec_in_flight :: "ServerMetrics \<Rightarrow> ServerMetrics" where
  "dec_in_flight m = m\<lparr>requests_in_flight := requests_in_flight m - 1\<rparr>"

definition inc_retries :: "ServerMetrics \<Rightarrow> ServerMetrics" where
  "inc_retries m = m\<lparr>retries := retries m + 1\<rparr>"

definition inc_circuit_open :: "ServerMetrics \<Rightarrow> ServerMetrics" where
  "inc_circuit_open m = m\<lparr>circuit_open := circuit_open m + 1\<rparr>"

definition inc_rate_limited :: "ServerMetrics \<Rightarrow> ServerMetrics" where
  "inc_rate_limited m = m\<lparr>rate_limited := rate_limited m + 1\<rparr>"

definition inc_outlier_ejection :: "ServerMetrics \<Rightarrow> ServerMetrics" where
  "inc_outlier_ejection m = m\<lparr>outlier_ejections := outlier_ejections m + 1\<rparr>"

definition class_index :: "u16 \<Rightarrow> nat" where
  "class_index status = unat (max 1 (min 5 (status div 100))) - 1"

definition record_request :: "u16 \<Rightarrow> (nat \<Rightarrow> bool) \<Rightarrow> u64 \<Rightarrow> ServerMetrics \<Rightarrow> ServerMetrics" where
  "record_request status within micros m =
     (let i = class_index status;
          m = (if i < length (status_class m) then m\<lparr>status_class := (status_class m)[i := status_class m ! i + 1]\<rparr> else m)
      in m\<lparr>duration := observe within micros (duration m)\<rparr>)"

section \<open>What the counters count\<close>

text \<open>A request as the counters see it: its status, the bounds it is within, its microseconds.\<close>

type_synonym sample = "u16 \<times> (nat \<Rightarrow> bool) \<times> u64"

fun record_all :: "sample list \<Rightarrow> ServerMetrics \<Rightarrow> ServerMetrics" where
  "record_all [] m = m"
| "record_all ((status, within, micros) # xs) m = record_all xs (record_request status within micros m)"

lemma class_index_less: "class_index status < 5"
proof -
  have "max 1 (min 5 (status div 100)) \<le> (5 :: u16)" by (intro max.boundedI) auto
  then have "unat (max 1 (min 5 (status div 100))) \<le> unat (5 :: u16)" by (simp add: word_le_nat_alt)
  then show ?thesis by (simp add: class_index_def)
qed

definition bucket_of :: "(nat \<Rightarrow> bool) \<Rightarrow> nat option" where
  "bucket_of within = find within [0..<DURATION_BUCKETS]"

definition metrics_ok :: "sample list \<Rightarrow> ServerMetrics \<Rightarrow> bool" where
  "metrics_ok xs m \<longleftrightarrow>
     length (status_class m) = 5 \<and> length (hist_buckets (duration m)) = DURATION_BUCKETS \<and>
     (\<forall>c < 5. status_class m ! c = of_nat (length (filter (\<lambda>(s, _). class_index s = c) xs))) \<and>
     (\<forall>b < DURATION_BUCKETS. hist_buckets (duration m) ! b = of_nat (length (filter (\<lambda>(_, w, _). bucket_of w = Some b) xs))) \<and>
     hist_count (duration m) = of_nat (length xs) \<and>
     hist_sum_micros (duration m) = (\<Sum>(_, _, u) \<leftarrow> xs. u)"

lemma observe_counts:
  assumes "length (hist_buckets h) = DURATION_BUCKETS"
  shows "length (hist_buckets (observe w u h)) = DURATION_BUCKETS"
    and "b < DURATION_BUCKETS \<Longrightarrow> hist_buckets (observe w u h) ! b = hist_buckets h ! b + of_bool (bucket_of w = Some b)"
    and "hist_count (observe w u h) = hist_count h + 1"
    and "hist_sum_micros (observe w u h) = hist_sum_micros h + u"
  using assms by (auto simp: observe_def bucket_of_def Let_def nth_list_update split: option.splits)

lemma metrics_step:
  assumes "metrics_ok xs m"
  shows "metrics_ok (xs @ [(s, w, u)]) (record_request s w u m)"
proof -
  have len: "length (status_class m) = 5" "length (hist_buckets (duration m)) = DURATION_BUCKETS"
    using assms by (auto simp: metrics_ok_def)
  then show ?thesis
    using assms class_index_less [of s]
    by (auto simp: metrics_ok_def record_request_def Let_def observe_counts nth_list_update)
qed

lemma metrics_run: "metrics_ok xs m \<Longrightarrow> metrics_ok (xs @ ys) (record_all ys m)"
proof (induction ys arbitrary: xs m)
  case (Cons y ys)
  obtain s w u where y: "y = (s, w, u)" by (cases y)
  show ?case using Cons.IH [OF metrics_step [OF Cons.prems, of s w u]] y by simp
qed simp

lemma metrics_new_ok: "metrics_ok [] ServerMetrics_new"
  by (simp add: metrics_ok_def ServerMetrics_new_def Histogram_new_def)

text \<open>The counters of a server that started from zero are exact modulo their width: each status class
  counts the requests of that class, each bucket those whose first bound it is, and the histogram's
  count all of them.\<close>

theorem metrics_exact: "metrics_ok xs (record_all xs ServerMetrics_new)"
  using metrics_run [OF metrics_new_ok, of xs] by simp

end
