(* ===== verification/Forward.thy ===== *)
theory Forward
  imports Headers Upstream Metrics
begin

text \<open>
  Forwarding with bounded retry: the decisions of \<open>server/src/retry.rs\<close> and the loop of
  \<open>server/src/forward.rs\<close> that drives them. Instants and durations are in milliseconds. What one
  attempt meets is an argument: the instants it reads, the reply of the upstream client, the clock
  of the health records, the entropy of the jitter, and what other requests do to the shared state
  while it waits. The validation of the request head by the \<open>http\<close> crate is an argument too.
\<close>

section \<open>Retry decisions\<close>

datatype Failure = FailTimeout | FailConnect

definition is_idempotent :: "string \<Rightarrow> bool" where
  "is_idempotent m \<longleftrightarrow> m \<in> set [''GET'', ''HEAD'', ''PUT'', ''DELETE'', ''OPTIONS'', ''TRACE'']"

definition may_retry :: "Failure \<Rightarrow> string \<Rightarrow> bool \<Rightarrow> u64 \<Rightarrow> bool" where
  "may_retry failure m bodyless tries_left \<longleftrightarrow>
     bodyless \<and> tries_left > 0 \<and> (case failure of FailTimeout \<Rightarrow> is_idempotent m | FailConnect \<Rightarrow> True)"

definition is_retriable_5xx :: "u16 \<Rightarrow> bool" where
  "is_retriable_5xx status \<longleftrightarrow> 502 \<le> status \<and> status \<le> 504"

definition RETRY_BACKOFF_BASE_MS :: u64 where "RETRY_BACKOFF_BASE_MS = 25"

definition RETRY_BACKOFF_CAP_MS :: u64 where "RETRY_BACKOFF_CAP_MS = 250"

text \<open>The entropy is the sub-second part of the wall clock.\<close>

definition jitter :: "u64 \<Rightarrow> u64 \<Rightarrow> u64" where
  "jitter ceiling_ms entropy = (if ceiling_ms = 0 then 0 else entropy mod (ceiling_ms + 1))"

text \<open>The delay slept before a retry; a delay of zero is no sleep.\<close>

definition backoff :: "u32 \<Rightarrow> u64 \<Rightarrow> u64" where
  "backoff attempt entropy =
     (let ceiling = min (sat_mul RETRY_BACKOFF_BASE_MS (push_bit (unat (min attempt 16)) 1)) RETRY_BACKOFF_CAP_MS
      in jitter ceiling entropy)"

datatype PerTryTimeout = Bounded nat | OverallDeadlineElapsed

definition per_try_timeout :: "nat option \<Rightarrow> nat \<Rightarrow> nat \<Rightarrow> PerTryTimeout" where
  "per_try_timeout overall_deadline per_try_bound now =
     (case overall_deadline of
        Some deadline \<Rightarrow>
          if now \<ge> deadline then OverallDeadlineElapsed
          else (let remaining = deadline - now
                in Bounded (if per_try_bound = 0 then remaining else min per_try_bound remaining))
      | None \<Rightarrow> Bounded per_try_bound)"

datatype AttemptOutcome = AttemptResponse bool | AttemptTimedOut | AttemptFailed bool

definition should_attempt_retry :: "AttemptOutcome \<Rightarrow> string \<Rightarrow> bool \<Rightarrow> u64 \<Rightarrow> bool \<Rightarrow> bool" where
  "should_attempt_retry oc m bodyless tries_left overall_elapsed \<longleftrightarrow>
     (if overall_elapsed then False
      else let (retryable, failure) =
             (case oc of
                AttemptResponse retriable_5xx \<Rightarrow> (retriable_5xx, FailTimeout)
              | AttemptTimedOut \<Rightarrow> (True, FailTimeout)
              | AttemptFailed connect \<Rightarrow> (connect, FailConnect))
           in retryable \<and> may_retry failure m bodyless tries_left)"

section \<open>Messages to and from the upstream\<close>

datatype SendErrorKind = Connect | OtherFault

record 'b UpstreamResponse =
  up_status :: u16
  up_headers :: HeaderMap
  up_body :: 'b

text \<open>A request body is empty, the inbound stream, or a buffered one.\<close>

datatype 'q ReqBody = EmptyReq | Streamed 'q | FullReq bytes

record 'q UpstreamRequest =
  ur_method :: string
  ur_uri :: string
  ur_headers :: HeaderMap
  ur_body :: "'q ReqBody"

datatype 'b ForwardOutcome =
    FwdResponse "'b UpstreamResponse"
  | OverallTimeout
  | PerTryTimedOut
  | SendFailed SendErrorKind
  | BuildFailed

record ForwardRequest =
  fw_method :: string
  fw_chain_headers :: "Header list"
  fw_original_headers :: HeaderMap
  fw_upstream_path :: string
  fw_traceparent :: string

section \<open>The environment of an attempt\<close>

record shared =
  sh_group :: UpstreamGroup
  sh_heap :: inst_heap
  sh_rng :: u64
  sh_metrics :: ServerMetrics

text \<open>The reply is \<open>None\<close> when the client does not answer within the attempt's timeout.\<close>

record 'b attempt_env =
  ae_start :: nat
  ae_reply :: "(SendErrorKind + 'b UpstreamResponse) option"
  ae_end :: nat
  ae_clock :: u64
  ae_entropy :: u64
  ae_others :: "shared \<Rightarrow> shared"

text \<open>One attempt as an observer sees it: the instance, the request, the reply, and the delay before the
  retry that follows it.\<close>

record ('q, 'b) attempt =
  at_instance :: nat
  at_request :: "'q UpstreamRequest"
  at_reply :: "(SendErrorKind + 'b UpstreamResponse) option"
  at_delay :: "u64 option"

record forward_args =
  fa_lib :: http_lib
  fa_head_ok :: "string \<Rightarrow> string \<Rightarrow> bool"
  fa_request :: ForwardRequest
  fa_key :: "HashInput option"
  fa_bodyless :: bool
  fa_per_try_bound :: nat
  fa_overall_deadline :: "nat option"

section \<open>The loop\<close>

definition upstream_uri :: "string \<Rightarrow> string \<Rightarrow> string" where
  "upstream_uri address path = ''http://'' @ address @ path"

definition upstream_headers :: "http_lib \<Rightarrow> ForwardRequest \<Rightarrow> HeaderMap" where
  "upstream_headers lib fr =
     (let h = copy_headers_preserving lib [] (fw_chain_headers fr) (fw_original_headers fr)
      in case value_from_str lib (fw_traceparent fr) of Some v \<Rightarrow> hm_insert h ''traceparent'' v | None \<Rightarrow> h)"

definition attempt_body :: "bool \<Rightarrow> 'q ReqBody option \<Rightarrow> 'q ReqBody" where
  "attempt_body bodyless body = (if bodyless then EmptyReq else case body of Some b \<Rightarrow> b | None \<Rightarrow> EmptyReq)"

definition build_request :: "forward_args \<Rightarrow> string \<Rightarrow> 'q ReqBody \<Rightarrow> 'q UpstreamRequest option" where
  "build_request fa address body =
     (let fr = fa_request fa; uri = upstream_uri address (fw_upstream_path fr)
      in if fa_head_ok fa (fw_method fr) uri
         then Some \<lparr>ur_method = fw_method fr, ur_uri = uri, ur_headers = upstream_headers (fa_lib fa) fr, ur_body = body\<rparr>
         else None)"

text \<open>The health records of a reply, and what the retry decision and the caller make of it.\<close>

fun settle :: "'b attempt_env \<Rightarrow> Pick \<Rightarrow> shared \<Rightarrow> shared \<times> AttemptOutcome \<times> 'b ForwardOutcome" where
  "settle env pk sh =
     (case ae_reply env of
        Some (Inr resp) \<Rightarrow>
          (let retriable_5xx = is_retriable_5xx (up_status resp);
               (h, ejected) = record_outcome (sh_group sh) (sh_heap sh) (ae_clock env) (pick_instance pk) retriable_5xx
           in (sh\<lparr>sh_heap := h, sh_metrics := (if ejected then inc_outlier_ejection else id) (sh_metrics sh)\<rparr>, AttemptResponse retriable_5xx, FwdResponse resp))
      | None \<Rightarrow> (sh, AttemptTimedOut, PerTryTimedOut)
      | Some (Inl e) \<Rightarrow>
          (let connect = (e = Connect); i = pick_instance pk; h = sh_heap sh
           in (if connect then sh\<lparr>sh_heap := h[i := record_passive_failure (h ! i)]\<rparr> else sh,
               AttemptFailed connect, SendFailed e)))"

definition release_pick :: "Pick \<Rightarrow> shared \<Rightarrow> shared" where
  "release_pick pk sh = sh\<lparr>sh_heap := drop_pick (sh_heap sh) pk\<rparr>"

definition pick_another :: "'b attempt_env \<Rightarrow> HashInput option \<Rightarrow> Pick \<Rightarrow> shared \<Rightarrow> (shared \<times> Pick option) option" where
  "pick_another env key pk sh =
     map_option (\<lambda>(g, h, s, next). (sh\<lparr>sh_group := g, sh_heap := h, sh_rng := s\<rparr>, next))
       (pick_excluding (sh_group sh) (sh_heap sh) (ae_clock env) (sh_rng sh) (pick_instance pk) key)"

text \<open>One round of the loop: it ends the loop, hands over to another instance, or does not return, which is
  the case of an attempt without a timeout whose reply never comes and of a sampling that does not end.\<close>

datatype ('q, 'b) forward_round =
    Stuck
  | Done "'b ForwardOutcome" "('q, 'b) attempt list" shared
  | Again "('q, 'b) attempt" Pick shared

definition round_of ::
    "'b attempt_env \<Rightarrow> forward_args \<Rightarrow> nat \<Rightarrow> u64 \<Rightarrow> Pick \<Rightarrow> 'q ReqBody option \<Rightarrow> shared \<Rightarrow> ('q, 'b) forward_round" where
  "round_of env fa n tries_left pk body sh =
     (let bodyless = fa_bodyless fa; m = fw_method (fa_request fa) in
      case per_try_timeout (fa_overall_deadline fa) (fa_per_try_bound fa) (ae_start env) of
        OverallDeadlineElapsed \<Rightarrow> Done OverallTimeout [] (release_pick pk sh)
      | Bounded per_try \<Rightarrow>
     (case build_request fa (inst_address (sh_heap sh ! pick_instance pk)) (attempt_body bodyless body) of
        None \<Rightarrow> Done BuildFailed [] (release_pick pk sh)
      | Some req \<Rightarrow>
          if per_try = 0 \<and> ae_reply env = None then Stuck
          else
            let a = \<lparr>at_instance = pick_instance pk, at_request = req, at_reply = ae_reply env, at_delay = None\<rparr>;
                sh = ae_others env sh;
                overall_elapsed = (case fa_overall_deadline fa of Some d \<Rightarrow> ae_end env \<ge> d | None \<Rightarrow> False)
            in if ae_reply env = None \<and> overall_elapsed then Done OverallTimeout [a] (release_pick pk sh)
               else
                 let (sh, oc, result) = settle env pk sh
                 in if should_attempt_retry oc m bodyless tries_left overall_elapsed
                    then (case pick_another env (fa_key fa) pk sh of
                            None \<Rightarrow> Stuck
                          | Some (sh, None) \<Rightarrow> Done result [a] (release_pick pk sh)
                          | Some (sh, Some next_pick) \<Rightarrow>
                              Again (a\<lparr>at_delay := Some (backoff (of_nat n) (ae_entropy env))\<rparr>) next_pick
                                (release_pick pk (sh\<lparr>sh_metrics := inc_retries (sh_metrics sh)\<rparr>)))
                    else Done result [a] (release_pick pk sh)))"

lemma should_attempt_retryD:
  "should_attempt_retry oc m bodyless tries_left overall_elapsed \<Longrightarrow> bodyless \<and> 0 < tries_left \<and> \<not> overall_elapsed"
  by (auto simp: should_attempt_retry_def may_retry_def Let_def split: if_splits)

lemma unat_pred: "0 < (x :: 'a::len word) \<Longrightarrow> unat (x - 1) = unat x - 1"
  by (simp add: unat_minus_one)

lemma round_Again_budget: "round_of env fa n tries_left pk body sh = Again a pk1 sh1 \<Longrightarrow> 0 < tries_left"
  by (auto simp: round_of_def Let_def dest!: should_attempt_retryD simp del: settle.simps
      split: PerTryTimeout.splits option.splits if_splits prod.splits)

function forward_loop ::
    "(nat \<Rightarrow> 'b attempt_env) \<Rightarrow> forward_args \<Rightarrow> nat \<Rightarrow> u64 \<Rightarrow> Pick \<Rightarrow> 'q ReqBody option \<Rightarrow> shared \<Rightarrow>
     ('b ForwardOutcome \<times> ('q, 'b) attempt list \<times> shared) option" where
  "forward_loop envs fa n tries_left pk body sh =
     (case round_of (envs n) fa n tries_left pk body sh of
        Stuck \<Rightarrow> None
      | Done out as sh \<Rightarrow> Some (out, as, sh)
      | Again a next_pick sh \<Rightarrow>
          map_option (\<lambda>(out, as, sh). (out, a # as, sh))
            (forward_loop envs fa (n + 1) (tries_left - 1) next_pick (if fa_bodyless fa then body else None) sh))"
  by pat_completeness auto
termination
  by (relation "measure (\<lambda>(_, _, _, tries_left, _). unat tries_left)")
    (auto dest!: round_Again_budget simp: unat_pred unat_gt_0)

declare forward_loop.simps [simp del]

definition forward_with_retry ::
    "(nat \<Rightarrow> 'b attempt_env) \<Rightarrow> forward_args \<Rightarrow> Pick \<Rightarrow> 'q ReqBody option \<Rightarrow> u64 \<Rightarrow> shared \<Rightarrow>
     ('b ForwardOutcome \<times> ('q, 'b) attempt list \<times> shared) option" where
  "forward_with_retry envs fa pk body max_tries sh = forward_loop envs fa 0 max_tries pk body sh"

section \<open>The steps of the loop\<close>

text \<open>How one round of the loop ends: before a request is sent, with the reply it got, or with a retry.\<close>

definition sent_attempt :: "'b attempt_env \<Rightarrow> Pick \<Rightarrow> 'q UpstreamRequest \<Rightarrow> ('q, 'b) attempt" where
  "sent_attempt env pk req =
     \<lparr>at_instance = pick_instance pk, at_request = req, at_reply = ae_reply env, at_delay = None\<rparr>"

definition final_outcome :: "'b attempt_env \<Rightarrow> 'b ForwardOutcome" where
  "final_outcome env =
     (case ae_reply env of Some (Inr r) \<Rightarrow> FwdResponse r | None \<Rightarrow> PerTryTimedOut | Some (Inl e) \<Rightarrow> SendFailed e)"

definition attempt_outcome :: "'b attempt_env \<Rightarrow> AttemptOutcome" where
  "attempt_outcome env =
     (case ae_reply env of
        Some (Inr r) \<Rightarrow> AttemptResponse (is_retriable_5xx (up_status r))
      | None \<Rightarrow> AttemptTimedOut
      | Some (Inl e) \<Rightarrow> AttemptFailed (e = Connect))"

lemma pick_excluding_frame:
  "pick_excluding g h clock s ex key = Some (g', h', s', p) \<Longrightarrow> \<exists>n. g' = g\<lparr>rr := n\<rparr>"
  by (auto simp: pick_excluding_def pick_quiet_def pick_dispatch_def maglev_pick_def round_robin_pick_def Let_def
      split: LbState.splits option.splits if_splits intro: exI [of _ "rr g"])

text \<open>What the rounds do to the shared state beside what other requests do to it: they move the cursor of
  the group, touch the health and load of its instances, and count retries and ejections.\<close>

definition own_effects :: "shared \<Rightarrow> shared \<Rightarrow> bool" where
  "own_effects a b \<longleftrightarrow> (sh_group a)\<lparr>rr := 0\<rparr> = (sh_group b)\<lparr>rr := 0\<rparr> \<and>
     (sh_metrics a)\<lparr>retries := 0, outlier_ejections := 0\<rparr> = (sh_metrics b)\<lparr>retries := 0, outlier_ejections := 0\<rparr>"

lemma own_effects_trans: "own_effects a b \<Longrightarrow> own_effects b c \<Longrightarrow> own_effects a c"
  by (simp add: own_effects_def)

lemma own_effects_simps [simp]:
  "own_effects sh sh" "own_effects sh (release_pick pk sh1) = own_effects sh sh1"
  "own_effects sh (sh1\<lparr>sh_metrics := inc_retries (sh_metrics sh1)\<rparr>) = own_effects sh sh1"
  by (simp_all add: own_effects_def release_pick_def inc_retries_def)

lemma own_effects_instances: "own_effects a b \<Longrightarrow> instances (sh_group b) = instances (sh_group a)"
  unfolding own_effects_def by (metis UpstreamGroup.select_convs(3) UpstreamGroup.surjective UpstreamGroup.update_convs(7))

lemma settle_eq:
  "\<exists>sh'. settle env pk sh = (sh', attempt_outcome env, final_outcome env) \<and> own_effects sh sh'"
  by (auto simp: attempt_outcome_def final_outcome_def own_effects_def inc_outlier_ejection_def Let_def
      split: option.splits sum.splits prod.splits)

lemma pick_another_sound:
  assumes "pick_another env key pk sh = Some (sh', q)"
  shows "own_effects sh sh'" "q = Some pk1 \<Longrightarrow> pick_instance pk1 \<noteq> pick_instance pk"
proof -
  obtain g h s where p: "pick_excluding (sh_group sh) (sh_heap sh) (ae_clock env) (sh_rng sh) (pick_instance pk) key = Some (g, h, s, q)"
    and sh': "sh' = sh\<lparr>sh_group := g, sh_heap := h, sh_rng := s\<rparr>"
    using assms by (auto simp: pick_another_def)
  show "own_effects sh sh'" using pick_excluding_frame [OF p] sh'
    by (auto simp: own_effects_def)
  show "pick_instance pk1 \<noteq> pick_instance pk" if "q = Some pk1"
    using dispatch_sound [OF p [unfolded that pick_excluding_def pick_quiet_def]] by (auto simp: is_eligible_def)
qed

lemma pick_another_returns:
  assumes "length (instances (sh_group sh)) < 2 ^ 32"
  shows "\<exists>sh' q. pick_another env key pk sh = Some (sh', q)"
proof -
  obtain g h s q where "pick_excluding (sh_group sh) (sh_heap sh) (ae_clock env) (sh_rng sh) (pick_instance pk) key = Some (g, h, s, q)"
    using dispatch_returns [OF assms] unfolding pick_excluding_def pick_quiet_def by (metis prod_cases4)
  then show ?thesis by (simp add: pick_another_def)
qed

lemma settle_pick:
  obtains sh1 where "settle env pk (ae_others env sh) = (sh1, attempt_outcome env, final_outcome env)"
    "own_effects (ae_others env sh) sh1"
    "\<And>sh2 q. pick_another env key pk sh1 = Some (sh2, q) \<Longrightarrow> own_effects (ae_others env sh) sh2"
    "\<And>sh2 pk1. pick_another env key pk sh1 = Some (sh2, Some pk1) \<Longrightarrow> pick_instance pk1 \<noteq> pick_instance pk"
proof -
  obtain sh1 where se: "settle env pk (ae_others env sh) = (sh1, attempt_outcome env, final_outcome env)"
      "own_effects (ae_others env sh) sh1"
    using settle_eq by blast
  show thesis
    by (rule that [OF se]) (use se(2) pick_another_sound own_effects_trans in blast)+
qed

lemma deadline_set:
  "per_try_timeout d b now = OverallDeadlineElapsed \<Longrightarrow> d \<noteq> None"
  "(case d of Some d \<Rightarrow> now \<ge> d | None \<Rightarrow> False) \<Longrightarrow> d \<noteq> None"
  by (auto simp: per_try_timeout_def split: option.splits)

lemma round_Done:
  assumes "round_of env fa n tries_left pk body sh = Done out as sh'"
  shows "as = [] \<and> (out = OverallTimeout \<and> fa_overall_deadline fa \<noteq> None \<or> out = BuildFailed) \<and> own_effects sh sh' \<or>
    (\<exists>req address. build_request fa address (attempt_body (fa_bodyless fa) body) = Some req \<and>
       as = [sent_attempt env pk req] \<and> own_effects (ae_others env sh) sh' \<and>
       (out = OverallTimeout \<and> fa_overall_deadline fa \<noteq> None \<or> out = final_outcome env))"
proof -
  obtain sh1 where se: "settle env pk (ae_others env sh) = (sh1, attempt_outcome env, final_outcome env)"
    and l: "own_effects (ae_others env sh) sh1" "\<And>sh2 q. pick_another env (fa_key fa) pk sh1 = Some (sh2, q) \<Longrightarrow> own_effects (ae_others env sh) sh2"
    using settle_pick by metis
  let ?el = "case fa_overall_deadline fa of Some d \<Rightarrow> ae_end env \<ge> d | None \<Rightarrow> False"
  let ?req = "build_request fa (inst_address (sh_heap sh ! pick_instance pk)) (attempt_body (fa_bodyless fa) body)"
  note step = assms [unfolded round_of_def Let_def se prod.case]
  show ?thesis
  proof (cases "\<exists>d req. per_try_timeout (fa_overall_deadline fa) (fa_per_try_bound fa) (ae_start env) = Bounded d \<and> ?req = Some req")
    case False
    then show ?thesis using step deadline_set(1)
      by (auto split: PerTryTimeout.splits option.splits)
  next
    case True
    then obtain d req where b: "per_try_timeout (fa_overall_deadline fa) (fa_per_try_bound fa) (ae_start env) = Bounded d" "?req = Some req"
      by blast
    have "as = [sent_attempt env pk req] \<and> own_effects (ae_others env sh) sh' \<and>
       (out = OverallTimeout \<and> ?el \<or> out = final_outcome env)"
      using step l unfolding b PerTryTimeout.case option.case sent_attempt_def
      by (auto simp del: settle.simps split: option.splits if_splits)
    then show ?thesis using b(2) deadline_set(2) by blast
  qed
qed

lemma round_Again:
  assumes "round_of env fa n tries_left pk body sh = Again a pk1 sh'"
  shows "pick_instance pk1 \<noteq> pick_instance pk \<and> own_effects (ae_others env sh) sh' \<and>
    (\<exists>el. should_attempt_retry (attempt_outcome env) (fw_method (fa_request fa)) (fa_bodyless fa) tries_left el) \<and>
    (\<exists>req address. build_request fa address (attempt_body (fa_bodyless fa) body) = Some req \<and>
       a = (sent_attempt env pk req)\<lparr>at_delay := Some (backoff (of_nat n) (ae_entropy env))\<rparr>)"
proof -
  obtain sh1 where se: "settle env pk (ae_others env sh) = (sh1, attempt_outcome env, final_outcome env)"
    and l: "\<And>sh2 q. pick_another env (fa_key fa) pk sh1 = Some (sh2, q) \<Longrightarrow> own_effects (ae_others env sh) sh2"
      "\<And>sh2 pk1. pick_another env (fa_key fa) pk sh1 = Some (sh2, Some pk1) \<Longrightarrow> pick_instance pk1 \<noteq> pick_instance pk"
    using settle_pick by metis
  note step = assms [unfolded round_of_def Let_def se prod.case]
  obtain d req where b: "per_try_timeout (fa_overall_deadline fa) (fa_per_try_bound fa) (ae_start env) = Bounded d"
      "build_request fa (inst_address (sh_heap sh ! pick_instance pk)) (attempt_body (fa_bodyless fa) body) = Some req"
    using step by (auto split: PerTryTimeout.splits option.splits)
  have "pick_instance pk1 \<noteq> pick_instance pk \<and> own_effects (ae_others env sh) sh' \<and>
    (\<exists>el. should_attempt_retry (attempt_outcome env) (fw_method (fa_request fa)) (fa_bodyless fa) tries_left el) \<and>
    a = (sent_attempt env pk req)\<lparr>at_delay := Some (backoff (of_nat n) (ae_entropy env))\<rparr>"
    using step l unfolding b PerTryTimeout.case option.case sent_attempt_def
    by (auto simp del: settle.simps split: option.splits if_splits)
  then show ?thesis using b(2) by blast
qed

lemma round_not_Stuck:
  assumes "ae_reply env = None \<longrightarrow> fa_per_try_bound fa \<noteq> 0 \<or> fa_overall_deadline fa \<noteq> None"
    and "length (instances (sh_group (ae_others env sh))) < 2 ^ 32"
  shows "round_of env fa n tries_left pk body sh \<noteq> Stuck"
proof -
  obtain sh1 where se: "settle env pk (ae_others env sh) = (sh1, attempt_outcome env, final_outcome env)" "own_effects (ae_others env sh) sh1"
    using settle_eq by blast
  then have "length (instances (sh_group sh1)) < 2 ^ 32" using assms(2) by (simp add: own_effects_instances)
  note pick_another_returns [OF this, of env "fa_key fa" pk]
  then show ?thesis
    using assms(1) unfolding round_of_def Let_def se(1)
    by (auto simp: per_try_timeout_def Let_def min_def simp del: settle.simps
        split: PerTryTimeout.splits option.splits if_splits)
qed

section \<open>What a run of the loop does\<close>

text \<open>When a request that was sent may be sent again: it has no body, and the upstream never received it,
  or its method is idempotent and it timed out or was answered with a gateway error.\<close>

definition replayable :: "forward_args \<Rightarrow> ('q, 'b) attempt \<Rightarrow> bool" where
  "replayable fa a \<longleftrightarrow> fa_bodyless fa \<and>
     (at_reply a = Some (Inl Connect) \<or>
      is_idempotent (fw_method (fa_request fa)) \<and>
      (at_reply a = None \<or> (\<exists>r. at_reply a = Some (Inr r) \<and> is_retriable_5xx (up_status r))))"

fun retries_ok :: "forward_args \<Rightarrow> ('q, 'b) attempt list \<Rightarrow> bool" where
  "retries_ok fa (a # b # as) \<longleftrightarrow>
     replayable fa a \<and> at_instance b \<noteq> at_instance a \<and> (\<exists>d \<le> 250. at_delay a = Some d) \<and> retries_ok fa (b # as)"
| "retries_ok fa as \<longleftrightarrow> True"

text \<open>The outcome is the reply of the last attempt, the overall deadline, or a head that cannot be built.\<close>

fun outcome_of :: "forward_args \<Rightarrow> ('q, 'b) attempt list \<Rightarrow> 'b ForwardOutcome \<Rightarrow> bool" where
  "outcome_of fa as (FwdResponse r) \<longleftrightarrow> as \<noteq> [] \<and> at_reply (List.last as) = Some (Inr r)"
| "outcome_of fa as (SendFailed e) \<longleftrightarrow> as \<noteq> [] \<and> at_reply (List.last as) = Some (Inl e)"
| "outcome_of fa as PerTryTimedOut \<longleftrightarrow> as \<noteq> [] \<and> at_reply (List.last as) = None"
| "outcome_of fa as OverallTimeout \<longleftrightarrow> fa_overall_deadline fa \<noteq> None"
| "outcome_of fa as BuildFailed \<longleftrightarrow> True"

lemma backoff_bound: "backoff n e \<le> 250"
proof -
  have "jitter c e \<le> c" for c
  proof (cases "c + 1 = 0")
    case True
    then have "c = - 1" by (simp add: eq_neg_iff_add_eq_0)
    then show ?thesis by simp
  next
    case False
    then have "unat (c + 1) = Suc (unat c)" using unatSuc [of c] by (simp add: add.commute)
    moreover have "unat e mod unat (c + 1) < unat (c + 1)" using False by (simp add: unat_gt_0)
    ultimately show ?thesis by (simp add: jitter_def word_le_nat_alt unat_mod_distrib)
  qed
  then show ?thesis
    unfolding backoff_def RETRY_BACKOFF_CAP_MS_def Let_def by (meson min.cobounded2 order_trans)
qed

lemma attempt_replayable:
  assumes "should_attempt_retry (attempt_outcome env) (fw_method (fa_request fa)) (fa_bodyless fa) tries_left el"
    and "at_reply a = ae_reply env"
  shows "replayable fa a"
  using assms
  by (auto simp: should_attempt_retry_def attempt_outcome_def may_retry_def replayable_def Let_def
        split: if_splits option.splits sum.splits SendErrorKind.splits)

lemma outcome_of_final: "at_reply a = ae_reply env \<Longrightarrow> outcome_of fa [a] (final_outcome env)"
  by (auto simp: final_outcome_def split: option.splits sum.splits)

lemma outcome_of_Cons: "as \<noteq> [] \<Longrightarrow> outcome_of fa as out \<Longrightarrow> outcome_of fa (a # as) out"
  by (cases out) auto

lemma sent_attempt_simps [simp]:
  "at_instance (sent_attempt env pk req) = pick_instance pk" "at_request (sent_attempt env pk req) = req"
  "at_reply (sent_attempt env pk req) = ae_reply env" "at_delay (sent_attempt env pk req) = None"
  by (simp_all add: sent_attempt_def)

lemma retries_ok_Cons:
  assumes "replayable fa a" "at_delay a = Some d" "d \<le> 250" "retries_ok fa as"
    and "as \<noteq> [] \<Longrightarrow> at_instance (hd as) \<noteq> at_instance a"
  shows "retries_ok fa (a # as)"
  using assms by (cases as) auto

definition sent_as :: "forward_args \<Rightarrow> 'q ReqBody \<Rightarrow> 'q UpstreamRequest \<Rightarrow> bool" where
  "sent_as fa body req \<longleftrightarrow>
     ur_method req = fw_method (fa_request fa) \<and> ur_headers req = upstream_headers (fa_lib fa) (fa_request fa) \<and>
     ur_body req = body \<and> (\<exists>address. ur_uri req = upstream_uri address (fw_upstream_path (fa_request fa)))"

lemma build_request_sent_as: "build_request fa address body = Some req \<Longrightarrow> sent_as fa body req"
  by (auto simp: build_request_def sent_as_def Let_def split: if_splits)

lemma forward_loop_cases:
  assumes "forward_loop envs fa n tries_left pk body sh = Some (out, as, sh')"
  obtains (finish) "round_of (envs n) fa n tries_left pk body sh = Done out as sh'"
  | (again) a pk1 sh1 as1 where "round_of (envs n) fa n tries_left pk body sh = Again a pk1 sh1" "as = a # as1"
      "forward_loop envs fa (n + 1) (tries_left - 1) pk1 (if fa_bodyless fa then body else None) sh1 = Some (out, as1, sh')"
  using assms by (subst (asm) forward_loop.simps) (auto split: forward_round.splits)

lemma forward_loop_sound:
  assumes "forward_loop envs fa n tries_left pk body sh = Some (out, as, sh')"
  shows "length as \<le> Suc (unat tries_left) \<and> retries_ok fa as \<and>
    (as \<noteq> [] \<longrightarrow> at_instance (hd as) = pick_instance pk) \<and>
    (\<forall>a\<in>set as. sent_as fa (attempt_body (fa_bodyless fa) body) (at_request a)) \<and>
    (as = [] \<longrightarrow> out = OverallTimeout \<or> out = BuildFailed) \<and> outcome_of fa as out"
  using assms
proof (induction "unat tries_left" arbitrary: n tries_left pk body sh as rule: less_induct)
  case less
  from less.prems show ?case
  proof (cases rule: forward_loop_cases)
    case finish
    from round_Done [OF this] show ?thesis
      using build_request_sent_as outcome_of_final [of "sent_attempt (envs n) pk _" "envs n" fa] by auto
  next
    case (again a pk1 sh1 as1)
    note r = round_Again [OF again(1)]
    obtain el where re: "should_attempt_retry (attempt_outcome (envs n)) (fw_method (fa_request fa)) (fa_bodyless fa) tries_left el"
      using r by blast
    obtain req address where req: "build_request fa address (attempt_body (fa_bodyless fa) body) = Some req"
      and a: "a = (sent_attempt (envs n) pk req)\<lparr>at_delay := Some (backoff (of_nat n) (ae_entropy (envs n)))\<rparr>"
      using r by blast
    have pos: "0 < tries_left" "fa_bodyless fa" using should_attempt_retryD [OF re] by simp_all
    then have lt: "unat (tries_left - 1) < unat tries_left" "Suc (unat (tries_left - 1)) = unat tries_left"
      by (simp_all add: unat_pred unat_gt_0)
    note ih = less.hyps [OF lt(1) again(3)]
    have rp: "replayable fa a" unfolding a by (rule attempt_replayable [OF re]) simp
    have "retries_ok fa (a # as1)"
      using ih r a by (intro retries_ok_Cons [OF rp _ backoff_bound]) auto
    moreover have "outcome_of fa (a # as1) out" using ih outcome_of_Cons by (cases "as1 = []") fastforce+
    ultimately show ?thesis
      using ih again(2) lt pos(2) a build_request_sent_as [OF req] by (auto simp: attempt_body_def)
  qed
qed

section \<open>The loop returns, and what it keeps\<close>

lemma forward_loop_returns:
  assumes "\<forall>n. ae_reply (envs n) = None \<longrightarrow> fa_per_try_bound fa \<noteq> 0 \<or> fa_overall_deadline fa \<noteq> None"
    and "\<forall>n sh. instances (sh_group (ae_others (envs n) sh)) = instances (sh_group sh)"
    and "length (instances (sh_group sh)) < 2 ^ 32"
  shows "\<exists>r. forward_loop envs fa n tries_left pk body sh = Some r"
  using assms(3)
proof (induction "unat tries_left" arbitrary: n tries_left pk body sh rule: less_induct)
  case less
  have "round_of (envs n) fa n tries_left pk body sh \<noteq> Stuck"
    using assms(1) [rule_format, of n] assms(2) less.prems by (intro round_not_Stuck) auto
  moreover have "\<exists>r. forward_loop envs fa (n + 1) (tries_left - 1) pk1 (if fa_bodyless fa then body else None) sh1 = Some r"
    if "round_of (envs n) fa n tries_left pk body sh = Again a pk1 sh1" for a pk1 sh1
  proof -
    have "instances (sh_group sh1) = instances (sh_group sh)"
      using round_Again [OF that] own_effects_instances [of "ae_others (envs n) sh" sh1] assms(2) by simp
    then show ?thesis
      using round_Again_budget [OF that] less.prems by (intro less.hyps) (simp_all add: unat_pred unat_gt_0)
  qed
  ultimately show ?case
    by (subst forward_loop.simps) (auto split: forward_round.splits)
qed

text \<open>A view of the group and the counters that the loop's own effects do not change is kept by the loop,
  as far as other requests keep it.\<close>

locale kept_view =
  fixes gview :: "UpstreamGroup \<Rightarrow> 'g" and mview :: "ServerMetrics \<Rightarrow> 'm"
  assumes gview_cursor: "gview (g\<lparr>rr := n\<rparr>) = gview g"
    and mview_counters: "mview (m\<lparr>retries := k, outlier_ejections := j\<rparr>) = mview m"
begin

lemma own_effects_view: "own_effects a b \<Longrightarrow> gview (sh_group b) = gview (sh_group a) \<and> mview (sh_metrics b) = mview (sh_metrics a)"
  unfolding own_effects_def by (metis gview_cursor mview_counters)

lemma forward_loop_view:
  assumes "forward_loop envs fa n tries_left pk body sh = Some (out, as, sh')"
    and "\<forall>n sh. gview (sh_group (ae_others (envs n) sh)) = gview (sh_group sh) \<and>
      mview (sh_metrics (ae_others (envs n) sh)) = mview (sh_metrics sh)"
  shows "gview (sh_group sh') = gview (sh_group sh) \<and> mview (sh_metrics sh') = mview (sh_metrics sh)"
  using assms(1)
proof (induction "unat tries_left" arbitrary: n tries_left pk body sh as rule: less_induct)
  case less
  from less.prems show ?case
  proof (cases rule: forward_loop_cases)
    case finish
    from round_Done [OF this] show ?thesis using assms(2) own_effects_view by fastforce
  next
    case (again a pk1 sh1 as1)
    have "unat (tries_left - 1) < unat tries_left"
      using round_Again_budget [OF again(1)] by (simp add: unat_pred unat_gt_0)
    from less.hyps [OF this again(3)] show ?thesis
      using round_Again [OF again(1)] assms(2) own_effects_view by fastforce
  qed
qed

end

text \<open>What the circuit breaker and the gauge count, and what a group is configured to.\<close>

definition group_shape :: "UpstreamGroup \<Rightarrow> nat list \<times> nat \<times> nat \<times> u64" where
  "group_shape g = (instances g, request_timeout g, overall_timeout g, max_retries g)"

interpretation load_kept: kept_view in_flight requests_in_flight
  by unfold_locales simp_all

interpretation shape_kept: kept_view group_shape "\<lambda>_. ()"
  by unfold_locales (simp_all add: group_shape_def)

text \<open>An answer that is not a gateway error ends the loop.\<close>

lemma forward_answered:
  assumes "per_try_timeout (fa_overall_deadline fa) (fa_per_try_bound fa) (ae_start (envs n)) = Bounded d"
    and "build_request fa (inst_address (sh_heap sh ! pick_instance pk)) (attempt_body (fa_bodyless fa) body) = Some req"
    and "ae_reply (envs n) = Some (Inr resp)" "\<not> is_retriable_5xx (up_status resp)"
  shows "\<exists>sh'. forward_loop envs fa n tries_left pk body sh = Some (FwdResponse resp, [sent_attempt (envs n) pk req], sh')"
proof -
  obtain sh1 where se: "settle (envs n) pk (ae_others (envs n) sh) = (sh1, attempt_outcome (envs n), final_outcome (envs n))"
    using settle_eq by blast
  have "attempt_outcome (envs n) = AttemptResponse False" "final_outcome (envs n) = FwdResponse resp"
    using assms(3,4) by (simp_all add: attempt_outcome_def final_outcome_def)
  then have "round_of (envs n) fa n tries_left pk body sh = Done (FwdResponse resp) [sent_attempt (envs n) pk req] (release_pick pk sh1)"
    using assms se by (simp add: round_of_def Let_def sent_attempt_def should_attempt_retry_def del: settle.simps)
  then show ?thesis by (subst forward_loop.simps) simp
qed

section \<open>Properties\<close>

text \<open>C12: Retrying is bounded and safe. A run sends at most one request more than the retry budget. A request
  is sent again only if it has no body and the upstream never received it, or it is idempotent and timed
  out or got a gateway error; the retry goes to another instance, after a delay of at most 250 ms. Every
  attempt carries the same method, headers and path; a request with a body is sent at most once. The
  outcome is the reply of the last attempt unless the overall deadline passed or the head was invalid.\<close>

theorem forward_retry_safe:
  assumes "forward_with_retry envs fa pk body max_tries sh = Some (out, as, sh')"
  shows "length as \<le> 1 + unat max_tries \<and> retries_ok fa as \<and>
    (\<not> fa_bodyless fa \<longrightarrow> length as \<le> 1) \<and>
    (\<forall>a\<in>set as. sent_as fa (attempt_body (fa_bodyless fa) body) (at_request a)) \<and>
    (as = [] \<longrightarrow> out = OverallTimeout \<or> out = BuildFailed) \<and> outcome_of fa as out"
proof -
  note s = forward_loop_sound [OF assms [unfolded forward_with_retry_def]]
  have "\<not> fa_bodyless fa \<Longrightarrow> length as \<le> 1"
    using s by (cases "(fa, as)" rule: retries_ok.cases) (auto simp: replayable_def)
  then show ?thesis using s by simp
qed

text \<open>Forwarding returns: when a timeout is configured or the upstream answers, the retry loop ends with an
  outcome, whatever other requests do to the shared health and load-balancing state meanwhile.\<close>

theorem forward_returns:
  assumes "\<forall>n. ae_reply (envs n) = None \<longrightarrow> fa_per_try_bound fa \<noteq> 0 \<or> fa_overall_deadline fa \<noteq> None"
    and "\<forall>n sh. instances (sh_group (ae_others (envs n) sh)) = instances (sh_group sh)"
    and "length (instances (sh_group sh)) < 2 ^ 32"
  shows "\<exists>out as sh'. forward_with_retry envs fa pk body max_tries sh = Some (out, as, sh')"
  using forward_loop_returns [OF assms, of 0 max_tries pk body] unfolding forward_with_retry_def by (metis prod_cases3)

definition example_args :: forward_args where
  "example_args =
     \<lparr>fa_lib = example_lib, fa_head_ok = (\<lambda>_ _. True),
      fa_request = \<lparr>fw_method = ''GET'', fw_chain_headers = [], fw_original_headers = [], fw_upstream_path = ''/'',
                    fw_traceparent = ''t''\<rparr>,
      fa_key = None, fa_bodyless = True, fa_per_try_bound = 100, fa_overall_deadline = None\<rparr>"

definition example_envs :: "nat \<Rightarrow> unit attempt_env" where
  "example_envs n =
     \<lparr>ae_start = 10 * n,
      ae_reply = (if n = 0 then Some (Inl Connect) else Some (Inr \<lparr>up_status = 200, up_headers = [], up_body = ()\<rparr>)),
      ae_end = 10 * n + 5, ae_clock = 5, ae_entropy = 7, ae_others = (\<lambda>sh. sh)\<rparr>"

definition example_shared :: shared where
  "example_shared = \<lparr>sh_group = example_group, sh_heap = example_heap, sh_rng = 0, sh_metrics = ServerMetrics_new\<rparr>"

definition example_run :: "(unit ForwardOutcome \<times> (unit, unit) attempt list \<times> shared) option" where
  "example_run = forward_with_retry example_envs example_args (unmetered_pick 1) None 2 example_shared"

lemma example_run_returns: "\<exists>out as sh'. example_run = Some (out, as, sh')"
proof -
  have "\<exists>r. forward_loop example_envs example_args 0 2 (unmetered_pick 1) (None :: unit ReqBody option) example_shared = Some r"
    by (rule forward_loop_returns)
      (auto simp: example_envs_def example_args_def example_shared_def example_group_def)
  then show ?thesis unfolding example_run_def forward_with_retry_def by (metis prod_cases3)
qed

theorem forward_retry_safe_witness:
  "\<exists>out as sh'. example_run = Some (out, as, sh') \<and> length as \<le> 3 \<and> retries_ok example_args as \<and> outcome_of example_args as out"
proof -
  obtain out as sh' where r: "example_run = Some (out, as, sh')" using example_run_returns by blast
  note safe = forward_retry_safe [OF r [unfolded example_run_def]]
  have "length as \<le> 3" using safe by simp
  then show ?thesis using safe r by blast
qed

theorem forward_returns_witness: "\<exists>out as sh'. example_run = Some (out, as, sh')"
  unfolding example_run_def
  by (rule forward_returns)
    (auto simp: example_envs_def example_args_def example_shared_def example_group_def)

end
