(* ===== verification/Respond.thy ===== *)
theory Respond
  imports Headers
begin

text \<open>
  The responses of the fast path: \<open>server/src/respond.rs\<close>, the \<open>Alt-Svc\<close> header of
  \<open>server/src/dispatch.rs\<close>, and the bounded buffering of a request body of
  \<open>server/src/body.rs\<close>. A response body is a buffer or the stream of the upstream; a request body
  arrives as frames, any of which may be a fault.
\<close>

section \<open>Responses\<close>

datatype 'b ResponseBody = FullBody bytes | StreamBody 'b

record 'b Response =
  res_status :: u16
  res_headers :: HeaderMap
  res_body :: "'b ResponseBody"

definition clamp_status :: "http_lib \<Rightarrow> u16 \<Rightarrow> u16" where
  "clamp_status lib status = (if status_valid lib status then status else 502)"

definition http_response :: "http_lib \<Rightarrow> HttpResponse \<Rightarrow> 'b Response" where
  "http_response lib resp =
     \<lparr>res_status = clamp_status lib (resp_status resp), res_headers = copy_headers lib [] (resp_headers resp),
      res_body = FullBody (resp_body resp)\<rparr>"

definition stream_response :: "http_lib \<Rightarrow> u16 \<Rightarrow> Header list \<Rightarrow> HeaderMap \<Rightarrow> 'b \<Rightarrow> 'b Response" where
  "stream_response lib status headers original body =
     \<lparr>res_status = clamp_status lib status, res_headers = copy_headers_preserving lib [] headers original,
      res_body = StreamBody body\<rparr>"

definition synth :: "u16 \<Rightarrow> string \<Rightarrow> string \<Rightarrow> 'b Response" where
  "synth status fault body =
     \<lparr>res_status = status, res_headers = hm_insert [] ''x-plecto-fault'' (str_bytes fault), res_body = FullBody (str_bytes body)\<rparr>"

definition synth_retry_after :: "http_lib \<Rightarrow> u16 \<Rightarrow> string \<Rightarrow> string \<Rightarrow> u64 \<Rightarrow> 'b Response" where
  "synth_retry_after lib status fault body secs =
     (let r = synth status fault body;
          v = (case value_from_str lib (dec_string (unat secs)) of Some v \<Rightarrow> v | None \<Rightarrow> str_bytes ''0'')
      in r\<lparr>res_headers := hm_insert (res_headers r) ''retry-after'' v\<rparr>)"

definition attach_alt_svc :: "bytes option \<Rightarrow> 'b Response \<Rightarrow> 'b Response" where
  "attach_alt_svc alt_svc r =
     (case alt_svc of Some v \<Rightarrow> r\<lparr>res_headers := hm_insert (res_headers r) ''alt-svc'' v\<rparr> | None \<Rightarrow> r)"

section \<open>Request bodies\<close>

definition MAX_REQUEST_BODY_BUFFER :: nat where "MAX_REQUEST_BODY_BUFFER = 16 * 2 ^ 20"

datatype frame = DataFrame bytes | OtherFrame

fun buffer_request_body :: "nat \<Rightarrow> bytes \<Rightarrow> (unit + frame) list \<Rightarrow> bytes option" where
  "buffer_request_body cap buf [] = Some buf"
| "buffer_request_body cap buf (Inl _ # fs) = None"
| "buffer_request_body cap buf (Inr OtherFrame # fs) = buffer_request_body cap buf fs"
| "buffer_request_body cap buf (Inr (DataFrame d) # fs) =
     (if length buf + length d > cap then None else buffer_request_body cap (buf @ d) fs)"

section \<open>Facts\<close>

fun frame_data :: "unit + frame \<Rightarrow> bytes" where
  "frame_data (Inr (DataFrame d)) = d"
| "frame_data _ = []"

text \<open>Buffering returns the data of all frames, exactly when none is a fault and they fit the cap.\<close>

lemma buffer_request_body_eq:
  "length buf \<le> cap \<Longrightarrow> buffer_request_body cap buf fs =
     (let data = concat (map frame_data fs)
      in if (\<forall>f\<in>set fs. \<exists>x. f = Inr x) \<and> length buf + length data \<le> cap then Some (buf @ data) else None)"
  by (induction cap buf fs rule: buffer_request_body.induct) (auto simp: Let_def)

text \<open>The entries a header of a synthesised response contributes.\<close>

definition plain_entries :: "http_lib \<Rightarrow> Header \<Rightarrow> HeaderMap" where
  "plain_entries lib h =
     (if is_hop_by_hop (h_name h) then []
      else case (name_from_bytes lib (h_name h), value_from_str lib (h_value h)) of
             (Some n, Some v) \<Rightarrow> [(n, v)] | _ \<Rightarrow> [])"

lemma copy_headers_eq: "copy_headers lib dst hs = dst @ concat (map (plain_entries lib) hs)"
  by (induction hs arbitrary: dst) (auto simp: plain_entries_def hm_append_def split: option.splits)

lemma copy_headers_no_hop:
  assumes "http_lib_ok lib" "(k, v) \<in> set (copy_headers lib [] hs)"
  shows "\<not> is_hop_by_hop k"
proof -
  obtain h where "(k, v) \<in> set (plain_entries lib h)" using assms(2) by (auto simp: copy_headers_eq)
  then have h: "\<not> is_hop_by_hop (h_name h)" "name_from_bytes lib (h_name h) = Some k"
    by (auto simp: plain_entries_def split: if_splits option.splits)
  then have "k = ascii_lower (h_name h)" using assms(1) by (simp add: http_lib_ok_def)
  then show ?thesis using h by simp
qed

lemma copy_preserving_no_hop:
  "http_lib_ok lib \<Longrightarrow> (k, v) \<in> set (copy_headers_preserving lib [] hs original) \<Longrightarrow> \<not> is_hop_by_hop k"
  by (auto simp: copy_headers_preserving_eq dest: sent_entries_cases(1))

lemma clamp_status_range: "http_lib_ok lib \<Longrightarrow> 100 \<le> clamp_status lib s \<and> clamp_status lib s < 1000"
  by (simp add: clamp_status_def http_lib_ok_def)

lemma hm_insert_set: "set (hm_insert m n v) = {e \<in> set m. fst e \<noteq> n} \<union> {(n, v)}"
  by (auto simp: hm_insert_def)

end
