(* ===== verification/Proxy.thy ===== *)
theory Proxy
  imports Control Breaker Forward Respond
begin

text \<open>
  The transaction core of the fast path, \<open>server/src/proxy.rs\<close>, with its entry point in
  \<open>server/src/dispatch.rs\<close>: route, request chain, traffic split, body hook, circuit breaker, forward
  with retry, response chain. Every transport runs this function. What a transaction meets is an
  argument: its head and body, the clocks, the replies of the upstream and the interference of other
  requests while it waits for them. A configuration swap is not interleaved with a transaction; the
  code pins the configuration with a snapshot for the same reason. The access log is in
  the theory of the admin endpoint.
\<close>

section \<open>A transaction and the server\<close>

datatype ServerError = Bind | RequestBuild | ChainJoin | UpstreamFault SendErrorKind | Http3

text \<open>The join flags tell that a blocking task of the request, body or response chain was lost.\<close>

record ('q, 'b) transaction =
  tx_peer :: IpAddr
  tx_scheme :: string
  tx_parts :: Parts
  tx_body :: 'q
  tx_exact_size :: "u64 option"
  tx_frames :: "(unit + frame) list"
  tx_read_late :: bool
  tx_limit_clock :: u64
  tx_clock :: u64
  tx_now :: nat
  tx_join_request :: bool
  tx_join_body :: bool
  tx_join_response :: bool
  tx_envs :: "nat \<Rightarrow> 'b attempt_env"
  tx_within :: "nat \<Rightarrow> bool"
  tx_micros :: u64

record server_lib =
  sl_http :: http_lib
  sl_head_ok :: "string \<Rightarrow> string \<Rightarrow> bool"
  sl_hex_decode :: "string \<Rightarrow> bytes option"
  sl_hex_encode :: "bytes \<Rightarrow> string"

record ('w, 'tls) ServerState =
  ss_control :: "('w, 'tls) Control"
  ss_alt_svc :: "bytes option"
  ss_metrics :: ServerMetrics
  ss_ids :: id_source
  ss_rng :: u64
  ss_world :: 'w

text \<open>The cells a route shares with every snapshot of its configuration: the limiter and the cursor of the
  traffic split. The group a route forwards to lives in the registry.\<close>

definition put_route :: "RouteInfo \<Rightarrow> ('w, 'tls) ServerState \<Rightarrow> ('w, 'tls) ServerState" where
  "put_route ri st =
     (let c = ss_control st; ac = ct_active c; i = ri_index ri;
          r = (ac_routes ac ! i)\<lparr>cr_backends := ri_backends ri, cr_rate_limit := ri_rate_limit ri\<rparr>
      in st\<lparr>ss_control := c\<lparr>ct_active := ac\<lparr>ac_routes := (ac_routes ac)[i := r]\<rparr>\<rparr>\<rparr>)"

definition registry :: "('w, 'tls) ServerState \<Rightarrow> UpstreamRegistry" where
  "registry st = ct_upstreams (ss_control st)"

definition put_registry :: "UpstreamRegistry \<Rightarrow> ('w, 'tls) ServerState \<Rightarrow> ('w, 'tls) ServerState" where
  "put_registry reg st = st\<lparr>ss_control := (ss_control st)\<lparr>ct_upstreams := reg\<rparr>\<rparr>"

definition group_of :: "nat \<Rightarrow> ('w, 'tls) ServerState \<Rightarrow> UpstreamGroup" where
  "group_of i st = group_heap (registry st) ! i"

definition put_group :: "nat \<Rightarrow> UpstreamGroup \<Rightarrow> ('w, 'tls) ServerState \<Rightarrow> ('w, 'tls) ServerState" where
  "put_group i g st = (let reg = registry st in put_registry (reg\<lparr>group_heap := (group_heap reg)[i := g]\<rparr>) st)"

definition put_insts :: "inst_heap \<Rightarrow> ('w, 'tls) ServerState \<Rightarrow> ('w, 'tls) ServerState" where
  "put_insts h st = put_registry ((registry st)\<lparr>insts := h\<rparr>) st"

section \<open>Admission\<close>

definition inbound_trace :: "server_lib \<Rightarrow> Parts \<Rightarrow> id_source \<Rightarrow> RequestTrace \<times> id_source" where
  "inbound_trace sl parts ids =
     (case Option.bind (get_first (pt_headers parts) ''traceparent'') (value_to_str (sl_http sl)) of
        None \<Rightarrow> trace_root ids
      | Some tp \<Rightarrow> (case from_traceparent (sl_hex_decode sl) tp of Some t \<Rightarrow> (t, ids) | None \<Rightarrow> trace_root ids))"

definition ingress_request :: "server_lib \<Rightarrow> ('q, 'b) transaction \<Rightarrow> string \<Rightarrow> HttpRequest" where
  "ingress_request sl tx path =
     (let r = (to_http_request (sl_http sl) (tx_parts tx) (tx_scheme tx))\<lparr>req_path := path\<rparr>
      in r\<lparr>req_headers := set_forwarded (req_headers r) (tx_peer tx) (tx_scheme tx)\<rparr>)"

definition admit_request ::
    "server_lib \<Rightarrow> ('q, 'b) transaction \<Rightarrow> ('w, 'tls) ServerState \<Rightarrow>
     ('b Response + HttpRequest \<times> ('w, 'tls) ConfigSnapshot \<times> RouteInfo) \<times> ('w, 'tls) ServerState" where
  "admit_request sl tx st =
     (case normalize_path (req_path (to_http_request (sl_http sl) (tx_parts tx) (tx_scheme tx))) of
        None \<Rightarrow> (Inl (synth 400 ''bad-path'' ''bad request path''), st)
      | Some path \<Rightarrow>
          (let http_req = ingress_request sl tx path;
               (trace, ids) = inbound_trace sl (tx_parts tx) (ss_ids st);
               st = st\<lparr>ss_ids := ids\<rparr>;
               snap = snapshot_with_trace (ss_control st) trace
           in case find_route snap http_req of
                None \<Rightarrow> (Inl (synth 404 ''no-route'' ''no route''), st)
              | Some route \<Rightarrow>
                  (case check_rate_limit route (tx_peer tx) (tx_limit_clock tx) of
                     (route, Limit retry_after) \<Rightarrow>
                       (Inl (synth_retry_after (sl_http sl) 429 ''rate-limited'' ''rate limit exceeded'' (div_ceil retry_after 1000)),
                        put_route route st\<lparr>ss_metrics := inc_rate_limited (ss_metrics st)\<rparr>)
                   | (route, Allow) \<Rightarrow> (Inr (http_req, snap, route), put_route route st))))"

section \<open>The body hook\<close>

definition body_stage ::
    "server_lib \<Rightarrow> ('q, 'b) transaction \<Rightarrow> ('w, 'tls) ConfigSnapshot \<Rightarrow> RouteInfo \<Rightarrow> 'w \<Rightarrow>
     ((ServerError + 'b Response) + 'q ReqBody) \<times> 'w" where
  "body_stage sl tx snap route w =
     (if ri_reads_body route \<and> tx_exact_size tx \<noteq> Some 0
      then if tx_read_late tx then (Inl (Inr (synth 408 ''body-timeout'' ''request body read timeout'')), w)
           else
             (case buffer_request_body MAX_REQUEST_BODY_BUFFER [] (tx_frames tx) of
                None \<Rightarrow> (Inl (Inr (synth 413 ''body-too-large'' ''request body too large'')), w)
              | Some buffered \<Rightarrow>
                  (let (oc, w) = snap_dispatch_request_body snap (ri_index route) buffered w
                   in if tx_join_body tx then (Inl (Inl ChainJoin), w)
                      else (case oc of
                              BodyRespond resp \<Rightarrow> (Inl (Inr (http_response (sl_http sl) resp)), w)
                            | BodyForward edited \<Rightarrow> (Inr (FullReq edited), w))))
      else (Inr (Streamed (tx_body tx)), w))"

section \<open>Forwarding\<close>

definition hash_key_of :: "('q, 'b) transaction \<Rightarrow> UpstreamGroup \<Rightarrow> HashInput option" where
  "hash_key_of tx g =
     (case hash_key g of
        None \<Rightarrow> None
      | Some (HeaderSource name) \<Rightarrow> map_option HashBytes (get_first (pt_headers (tx_parts tx)) name)
      | Some SourceIp \<Rightarrow> Some (HashIp (tx_peer tx)))"

definition forward_args_of ::
    "server_lib \<Rightarrow> ('q, 'b) transaction \<Rightarrow> ('w, 'tls) ConfigSnapshot \<Rightarrow> RouteInfo \<Rightarrow> HttpRequest \<Rightarrow> UpstreamGroup \<Rightarrow> forward_args" where
  "forward_args_of sl tx snap route req g =
     \<lparr>fa_lib = sl_http sl, fa_head_ok = sl_head_ok sl,
      fa_request =
        \<lparr>fw_method = req_method req, fw_chain_headers = req_headers req, fw_original_headers = pt_headers (tx_parts tx),
         fw_upstream_path = info_rewrite_path route (req_path req), fw_traceparent = snap_traceparent (sl_hex_encode sl) snap\<rparr>,
      fa_key = hash_key_of tx g,
      fa_bodyless = (tx_exact_size tx = Some 0),
      fa_per_try_bound = request_timeout g,
      fa_overall_deadline = (if overall_timeout g = 0 then None else Some (tx_now tx + overall_timeout g))\<rparr>"

definition response_stage ::
    "server_lib \<Rightarrow> ('q, 'b) transaction \<Rightarrow> ('w, 'tls) ConfigSnapshot \<Rightarrow> RouteInfo \<Rightarrow> 'b UpstreamResponse \<Rightarrow> 'w \<Rightarrow>
     (ServerError + 'b Response) \<times> 'w" where
  "response_stage sl tx snap route up w =
     (let resp = \<lparr>resp_status = up_status up, resp_headers = headers_to_vec (sl_http sl) (up_headers up), resp_body = []\<rparr>;
          (edited, w) = snap_dispatch_response snap (ri_index route) resp w
      in if tx_join_response tx then (Inl ChainJoin, w)
         else if resp_body edited = []
              then (Inr (stream_response (sl_http sl) (resp_status edited) (resp_headers edited) (up_headers up) (up_body up)), w)
              else (Inr (http_response (sl_http sl) edited), w))"

text \<open>The part that holds a permit of the circuit breaker.\<close>

definition held_stage ::
    "server_lib \<Rightarrow> ('q, 'b) transaction \<Rightarrow> ('w, 'tls) ConfigSnapshot \<Rightarrow> RouteInfo \<Rightarrow> HttpRequest \<Rightarrow> 'q ReqBody \<Rightarrow> nat \<Rightarrow>
     ('w, 'tls) ServerState \<Rightarrow> ((ServerError + 'b Response) \<times> ('q, 'b) attempt list \<times> ('w, 'tls) ServerState) option" where
  "held_stage sl tx snap route req body gi st =
     (let g = group_of gi st; fa = forward_args_of sl tx snap route req g in
      case pick g (insts (registry st)) (tx_clock tx) (ss_rng st) (fa_key fa) of
        None \<Rightarrow> None
      | Some (g, h, s, None) \<Rightarrow>
          Some (Inr (synth 503 ''no-healthy-upstream'' ''no healthy upstream''), [],
                put_insts h (put_group gi g st\<lparr>ss_rng := s\<rparr>))
      | Some (g, h, s, Some pk) \<Rightarrow>
          (case forward_with_retry (tx_envs tx) fa pk (Some body) (max_retries g)
                  \<lparr>sh_group = g, sh_heap = h, sh_rng = s, sh_metrics = ss_metrics st\<rparr> of
             None \<Rightarrow> None
           | Some (out, as, sh) \<Rightarrow>
               (let st = put_insts (sh_heap sh)
                           (put_group gi (sh_group sh) st\<lparr>ss_rng := sh_rng sh, ss_metrics := sh_metrics sh\<rparr>)
                in case out of
                     FwdResponse up \<Rightarrow>
                       (let (r, w) = response_stage sl tx snap route up (ss_world st)
                        in Some (r, as, st\<lparr>ss_world := w\<rparr>))
                   | OverallTimeout \<Rightarrow> Some (Inr (synth 504 ''request-timeout'' ''request timeout''), as, st)
                   | PerTryTimedOut \<Rightarrow> Some (Inr (synth 504 ''upstream-timeout'' ''upstream timeout''), as, st)
                   | SendFailed e \<Rightarrow> Some (Inl (UpstreamFault e), as, st)
                   | BuildFailed \<Rightarrow> Some (Inl RequestBuild, as, st))))"

definition breaker_stage ::
    "server_lib \<Rightarrow> ('q, 'b) transaction \<Rightarrow> ('w, 'tls) ConfigSnapshot \<Rightarrow> RouteInfo \<Rightarrow> HttpRequest \<Rightarrow> 'q ReqBody \<Rightarrow> nat \<Rightarrow>
     ('w, 'tls) ServerState \<Rightarrow> ((ServerError + 'b Response) \<times> ('q, 'b) attempt list \<times> ('w, 'tls) ServerState) option" where
  "breaker_stage sl tx snap route req body gi st =
     (case try_acquire (group_of gi st) of
        (g, None) \<Rightarrow>
          Some (Inr (synth 503 ''circuit-open'' ''upstream overloaded''), [],
                put_group gi g st\<lparr>ss_metrics := inc_circuit_open (ss_metrics st)\<rparr>)
      | (g, Some permit) \<Rightarrow>
          map_option (\<lambda>(r, as, st). (r, as, put_group gi (drop_permit (group_of gi st) permit) st))
            (held_stage sl tx snap route req body gi (put_group gi g st)))"

section \<open>The transaction core\<close>

definition proxy_core_inner ::
    "server_lib \<Rightarrow> ('q, 'b) transaction \<Rightarrow> ('w, 'tls) ServerState \<Rightarrow>
     ((ServerError + 'b Response) \<times> ('q, 'b) attempt list \<times> ('w, 'tls) ServerState) option" where
  "proxy_core_inner sl tx st =
     (case admit_request sl tx st of
        (Inl resp, st) \<Rightarrow> Some (Inr resp, [], st)
      | (Inr (http_req, snap, route), st) \<Rightarrow>
          (let (oc, w) = snap_dispatch_request snap (ri_index route) http_req (ss_world st);
               st = st\<lparr>ss_world := w\<rparr>
           in if tx_join_request tx then Some (Inl ChainJoin, [], st)
              else case oc of
                Respond resp \<Rightarrow> Some (Inr (http_response (sl_http sl) resp), [], st)
              | Forward req \<Rightarrow>
                  (case pick_upstream (\<lambda>i. has_eligible (group_of i st) (insts (registry st)) (tx_clock tx)) route of
                     (route, None) \<Rightarrow>
                       Some (Inr (synth 503 ''no-healthy-upstream'' ''no healthy upstream''), [], put_route route st)
                   | (route, Some gi) \<Rightarrow>
                       (let st = put_route route st;
                            (body, w) = body_stage sl tx snap route (ss_world st);
                            st = st\<lparr>ss_world := w\<rparr>
                        in case body of
                             Inl r \<Rightarrow> Some (r, [], st)
                           | Inr body \<Rightarrow> breaker_stage sl tx snap route req body gi st))))"

definition result_status :: "ServerError + 'b Response \<Rightarrow> u16" where
  "result_status r = (case r of Inr resp \<Rightarrow> res_status resp | Inl _ \<Rightarrow> 502)"

definition proxy_core ::
    "server_lib \<Rightarrow> ('q, 'b) transaction \<Rightarrow> ('w, 'tls) ServerState \<Rightarrow>
     ((ServerError + 'b Response) \<times> ('q, 'b) attempt list \<times> ('w, 'tls) ServerState) option" where
  "proxy_core sl tx st =
     map_option
       (\<lambda>(r, as, st).
          (r, as, st\<lparr>ss_metrics :=
             record_request (result_status r) (tx_within tx) (tx_micros tx) (dec_in_flight (ss_metrics st))\<rparr>))
       (proxy_core_inner sl tx (st\<lparr>ss_metrics := inc_in_flight (ss_metrics st)\<rparr>))"

definition handle ::
    "server_lib \<Rightarrow> ('q, 'b) transaction \<Rightarrow> ('w, 'tls) ServerState \<Rightarrow>
     ('b Response \<times> ('q, 'b) attempt list \<times> ('w, 'tls) ServerState) option" where
  "handle sl tx st =
     map_option
       (\<lambda>(r, as, st').
          (attach_alt_svc (ss_alt_svc st)
             (case r of Inr resp \<Rightarrow> resp | Inl _ \<Rightarrow> synth 502 ''upstream'' ''upstream error''), as, st'))
       (proxy_core sl tx st)"

section \<open>How far a transaction gets\<close>

text \<open>An admitted transaction, and one that reaches the circuit breaker.\<close>

lemma admit_InrD:
  assumes "admit_request sl tx st = (Inr (http_req, snap, route), st1)"
  obtains path r0 where
    "normalize_path (req_path (to_http_request (sl_http sl) (tx_parts tx) (tx_scheme tx))) = Some path"
    "http_req = ingress_request sl tx path"
    "snap = snapshot_with_trace (ss_control st) (fst (inbound_trace sl (tx_parts tx) (ss_ids st)))"
    "find_route snap http_req = Some r0" "check_rate_limit r0 (tx_peer tx) (tx_limit_clock tx) = (route, Allow)"
    "st1 = put_route route (st\<lparr>ss_ids := snd (inbound_trace sl (tx_parts tx) (ss_ids st))\<rparr>)"
  using assms
  by (auto simp: admit_request_def Let_def split: option.splits prod.splits RateLimitDecision.splits)

lemma proxy_core_inner_cases:
  assumes "proxy_core_inner sl tx st = Some (r, as, st')"
  obtains
    (refused) "as = []" "\<exists>resp. r = Inr resp \<and> admit_request sl tx st = (Inl resp, st')"
  | (stopped) http_req snap route st1 oc w where
      "admit_request sl tx st = (Inr (http_req, snap, route), st1)"
      "snap_dispatch_request snap (ri_index route) http_req (ss_world st1) = (oc, w)"
      "as = []" "st' = st1\<lparr>ss_world := w\<rparr>"
      "r = Inl ChainJoin \<and> tx_join_request tx \<or> (\<exists>resp. oc = Respond resp \<and> r = Inr (http_response (sl_http sl) resp))"
  | (unhealthy) http_req snap route st1 w route2 where
      "admit_request sl tx st = (Inr (http_req, snap, route), st1)" "as = []"
      "st' = put_route route2 (st1\<lparr>ss_world := w\<rparr>)"
      "r = Inr (synth 503 ''no-healthy-upstream'' ''no healthy upstream'')"
  | (body) http_req snap route st1 w route2 w2 where
      "admit_request sl tx st = (Inr (http_req, snap, route), st1)" "as = []"
      "body_stage sl tx snap route2 w = (Inl r, w2)"
      "st' = (put_route route2 (st1\<lparr>ss_world := w\<rparr>))\<lparr>ss_world := w2\<rparr>"
  | (forwarded) http_req snap route st1 req w route2 gi body w2 where
      "admit_request sl tx st = (Inr (http_req, snap, route), st1)"
      "snap_dispatch_request snap (ri_index route) http_req (ss_world st1) = (Forward req, w)" "\<not> tx_join_request tx"
      "pick_upstream (\<lambda>i. has_eligible (group_of i (st1\<lparr>ss_world := w\<rparr>)) (insts (registry (st1\<lparr>ss_world := w\<rparr>))) (tx_clock tx)) route
         = (route2, Some gi)"
      "body_stage sl tx snap route2 w = (Inr body, w2)"
      "breaker_stage sl tx snap route2 req body gi ((put_route route2 (st1\<lparr>ss_world := w\<rparr>))\<lparr>ss_world := w2\<rparr>) = Some (r, as, st')"
proof (cases "admit_request sl tx st")
  case (Pair a st1)
  show ?thesis
  proof (cases a)
    case (Inl resp)
    then show ?thesis using assms Pair refused by (auto simp: proxy_core_inner_def)
  next
    case (Inr b)
    obtain http_req snap route where b: "b = (http_req, snap, route)" by (cases b)
    obtain oc w where d: "snap_dispatch_request snap (ri_index route) http_req (ss_world st1) = (oc, w)"
      by fastforce
    note ad = Pair [unfolded Inr b]
    note step = assms [unfolded proxy_core_inner_def ad prod.case sum.case d Let_def]
    show ?thesis
    proof (cases "tx_join_request tx")
      case True
      then show ?thesis using step stopped [OF ad d] by simp
    next
      case nj: False
      show ?thesis
      proof (cases oc)
        case (Respond resp)
        then show ?thesis using step nj stopped [OF ad d] by simp
      next
        case (Forward req)
        let ?st = "st1\<lparr>ss_world := w\<rparr>"
        obtain route2 pickd where pu: "pick_upstream (\<lambda>i. has_eligible (group_of i ?st) (insts (registry ?st)) (tx_clock tx)) route = (route2, pickd)"
          by fastforce
        obtain bd w2 where bs: "body_stage sl tx snap route2 w = (bd, w2)" by fastforce
        have wd: "ss_world (put_route route2 ?st) = w" by (simp add: put_route_def Let_def)
        show ?thesis
        proof (cases pickd)
          case None
          then have "as = []" "st' = put_route route2 ?st" "r = Inr (synth 503 ''no-healthy-upstream'' ''no healthy upstream'')"
            using step nj Forward pu by auto
          then show ?thesis by (rule unhealthy [OF ad])
        next
          case (Some gi)
          show ?thesis
          proof (cases bd)
            case (Inl x)
            then have "as = []" "x = r" "st' = (put_route route2 ?st)\<lparr>ss_world := w2\<rparr>"
              using step nj Forward pu Some bs wd by auto
            then show ?thesis using bs Inl body [OF ad] by simp
          next
            case (Inr bb)
            then show ?thesis using step nj Forward pu Some bs wd forwarded [OF ad d [unfolded Forward] nj pu [unfolded Some]] by simp
          qed
        qed
      qed
    qed
  qed
qed

section \<open>Responses are well formed\<close>

definition response_ok :: "'b Response \<Rightarrow> bool" where
  "response_ok r \<longleftrightarrow> 100 \<le> res_status r \<and> res_status r < 1000 \<and> (\<forall>(k, _)\<in>set (res_headers r). \<not> is_hop_by_hop k)"

lemma own_names [simp]:
  "\<not> is_hop_by_hop ''x-plecto-fault''" "\<not> is_hop_by_hop ''retry-after''" "\<not> is_hop_by_hop ''alt-svc''"
  by code_simp+

lemma synth_ok: "100 \<le> c \<Longrightarrow> c < 1000 \<Longrightarrow> response_ok (synth c fault body)"
  by (simp add: response_ok_def synth_def hm_insert_def)

lemma synth_retry_after_ok: "100 \<le> c \<Longrightarrow> c < 1000 \<Longrightarrow> response_ok (synth_retry_after lib c fault body secs)"
  by (auto simp: response_ok_def synth_retry_after_def synth_def hm_insert_def Let_def)

lemma http_response_ok: "http_lib_ok lib \<Longrightarrow> response_ok (http_response lib resp)"
  using copy_headers_no_hop clamp_status_range by (fastforce simp: response_ok_def http_response_def)

lemma stream_response_ok: "http_lib_ok lib \<Longrightarrow> response_ok (stream_response lib status headers original body)"
  using copy_preserving_no_hop clamp_status_range by (fastforce simp: response_ok_def stream_response_def)

lemma attach_alt_svc_ok: "response_ok r \<Longrightarrow> response_ok (attach_alt_svc a r)"
  by (auto simp: response_ok_def attach_alt_svc_def hm_insert_set split: option.splits)

lemmas responses_ok = synth_ok synth_retry_after_ok http_response_ok stream_response_ok

definition result_ok :: "ServerError + 'b Response \<Rightarrow> bool" where
  "result_ok r \<longleftrightarrow> (\<forall>resp. r = Inr resp \<longrightarrow> response_ok resp)"

lemma admit_ok: "admit_request sl tx st = (Inl resp, st') \<Longrightarrow> response_ok resp"
  by (auto simp: admit_request_def Let_def intro!: responses_ok split: option.splits prod.splits RateLimitDecision.splits)

lemma body_stage_ok:
  "http_lib_ok (sl_http sl) \<Longrightarrow> body_stage sl tx snap route w = (Inl r, w') \<Longrightarrow> result_ok r"
  by (auto simp: body_stage_def result_ok_def Let_def intro!: responses_ok
      split: if_splits option.splits prod.splits RequestBodyOutcome.splits)

lemma response_stage_ok:
  "http_lib_ok (sl_http sl) \<Longrightarrow> response_stage sl tx snap route up w = (r, w') \<Longrightarrow> result_ok r"
  by (auto simp: response_stage_def result_ok_def Let_def intro!: responses_ok split: if_splits prod.splits)

section \<open>The stages that hold the breaker's permit\<close>

lemma put_route_frame [simp]:
  "registry (put_route ri st) = registry st" "ss_world (put_route ri st) = ss_world st"
  "ss_metrics (put_route ri st) = ss_metrics st" "ss_rng (put_route ri st) = ss_rng st"
  by (simp_all add: put_route_def registry_def Let_def)

lemma put_registry_frame [simp]:
  "registry (put_registry reg st) = reg" "ss_metrics (put_registry reg st) = ss_metrics st"
  "ss_world (put_registry reg st) = ss_world st" "ss_rng (put_registry reg st) = ss_rng st"
  by (simp_all add: put_registry_def registry_def)

lemma registry_updates [simp]:
  "registry (st\<lparr>ss_world := w\<rparr>) = registry st" "registry (st\<lparr>ss_metrics := m\<rparr>) = registry st"
  "registry (st\<lparr>ss_rng := s\<rparr>) = registry st" "registry (st\<lparr>ss_ids := i\<rparr>) = registry st"
  by (simp_all add: registry_def)

lemma put_group_frame [simp]:
  "registry (put_group i g st) = (registry st)\<lparr>group_heap := (group_heap (registry st))[i := g]\<rparr>"
  "ss_metrics (put_group i g st) = ss_metrics st" "ss_world (put_group i g st) = ss_world st" "ss_rng (put_group i g st) = ss_rng st"
  by (simp_all add: put_group_def Let_def)

lemma put_insts_frame [simp]:
  "registry (put_insts h st) = (registry st)\<lparr>insts := h\<rparr>" "ss_metrics (put_insts h st) = ss_metrics st"
  "ss_world (put_insts h st) = ss_world st" "ss_rng (put_insts h st) = ss_rng st"
  by (simp_all add: put_insts_def)

lemma pick_frame:
  "pick g h clock s key = Some (g', h', s', p) \<Longrightarrow> \<exists>n. g' = g\<lparr>rr := n\<rparr>"
  by (auto simp: pick_def pick_quiet_def pick_dispatch_def maglev_pick_def round_robin_pick_def Let_def
      split: LbState.splits option.splits if_splits intro: exI [of _ "rr g"])

lemma held_stage_cases:
  assumes "held_stage sl tx snap route req body gi st = Some (r, as, st')"
  obtains
    (no_instance) g h s where
      "pick (group_of gi st) (insts (registry st)) (tx_clock tx) (ss_rng st) (hash_key_of tx (group_of gi st)) = Some (g, h, s, None)"
      "r = Inr (synth 503 ''no-healthy-upstream'' ''no healthy upstream'')" "as = []"
      "st' = put_insts h (put_group gi g st\<lparr>ss_rng := s\<rparr>)"
  | (sent) g h s pk out sh where
      "pick (group_of gi st) (insts (registry st)) (tx_clock tx) (ss_rng st) (hash_key_of tx (group_of gi st)) = Some (g, h, s, Some pk)"
      "forward_with_retry (tx_envs tx) (forward_args_of sl tx snap route req (group_of gi st)) pk (Some body) (max_retries g)
         \<lparr>sh_group = g, sh_heap = h, sh_rng = s, sh_metrics = ss_metrics st\<rparr> = Some (out, as, sh)"
      "registry st' = (registry st)\<lparr>group_heap := (group_heap (registry st))[gi := sh_group sh], insts := sh_heap sh\<rparr>"
      "ss_metrics st' = sh_metrics sh"
      "r = Inr (synth 504 ''request-timeout'' ''request timeout'') \<or> r = Inr (synth 504 ''upstream-timeout'' ''upstream timeout'') \<or>
       (\<exists>e. r = Inl e) \<or> (\<exists>up w w'. out = FwdResponse up \<and> response_stage sl tx snap route up w = (r, w'))"
proof -
  let ?key = "hash_key_of tx (group_of gi st)"
  have key: "fa_key (forward_args_of sl tx snap route req (group_of gi st)) = ?key" by (simp add: forward_args_of_def)
  note step = assms [unfolded held_stage_def Let_def key]
  obtain g h s q where p: "pick (group_of gi st) (insts (registry st)) (tx_clock tx) (ss_rng st) ?key = Some (g, h, s, q)"
    using step by (auto split: option.splits)
  show ?thesis
  proof (cases q)
    case None
    then show ?thesis using step p no_instance by simp
  next
    case (Some pk)
    obtain out as1 sh where f: "forward_with_retry (tx_envs tx) (forward_args_of sl tx snap route req (group_of gi st)) pk (Some body) (max_retries g)
         \<lparr>sh_group = g, sh_heap = h, sh_rng = s, sh_metrics = ss_metrics st\<rparr> = Some (out, as1, sh)"
      using step p Some by (auto split: option.splits)
    have "as1 = as"
      "registry st' = (registry st)\<lparr>group_heap := (group_heap (registry st))[gi := sh_group sh], insts := sh_heap sh\<rparr>"
      "ss_metrics st' = sh_metrics sh"
      "r = Inr (synth 504 ''request-timeout'' ''request timeout'') \<or> r = Inr (synth 504 ''upstream-timeout'' ''upstream timeout'') \<or>
       (\<exists>e. r = Inl e) \<or> (\<exists>up w w'. out = FwdResponse up \<and> response_stage sl tx snap route up w = (r, w'))"
      using step p Some f by (auto split: ForwardOutcome.splits prod.splits)
    then show ?thesis using sent [OF p [unfolded Some]] f by simp
  qed
qed

lemma held_stage_ok:
  assumes "http_lib_ok (sl_http sl)" "held_stage sl tx snap route req body gi st = Some (r, as, st')"
  shows "result_ok r"
  using assms(2)
proof (cases rule: held_stage_cases)
  case no_instance
  then show ?thesis by (simp add: result_ok_def synth_ok)
next
  case sent
  from sent(5) show ?thesis
    by (elim disjE exE conjE) (auto simp: result_ok_def synth_ok dest: response_stage_ok [OF assms(1), unfolded result_ok_def])
qed

lemma breaker_stage_cases:
  assumes "breaker_stage sl tx snap route req body gi st = Some (r, as, st')"
  obtains
    (shed) g where "try_acquire (group_of gi st) = (g, None)" "as = []"
      "r = Inr (synth 503 ''circuit-open'' ''upstream overloaded'')"
      "st' = put_group gi g st\<lparr>ss_metrics := inc_circuit_open (ss_metrics st)\<rparr>"
  | (held) g permit st1 where "try_acquire (group_of gi st) = (g, Some permit)"
      "held_stage sl tx snap route req body gi (put_group gi g st) = Some (r, as, st1)"
      "st' = put_group gi (drop_permit (group_of gi st1) permit) st1"
  using assms by (auto simp: breaker_stage_def split: prod.splits option.splits)

lemma proxy_core_inner_ok:
  assumes "http_lib_ok (sl_http sl)" "proxy_core_inner sl tx st = Some (r, as, st')"
  shows "result_ok r"
  using assms(2)
proof (cases rule: proxy_core_inner_cases)
  case refused
  then show ?thesis using admit_ok by (auto simp: result_ok_def)
next
  case stopped
  then show ?thesis using http_response_ok [OF assms(1)] by (auto simp: result_ok_def)
next
  case unhealthy
  then show ?thesis by (simp add: result_ok_def synth_ok)
next
  case body
  show ?thesis by (rule body_stage_ok [OF assms(1) body(3)])
next
  case forwarded
  from forwarded(6) show ?thesis
  proof (cases rule: breaker_stage_cases)
    case shed
    then show ?thesis by (simp add: result_ok_def synth_ok)
  next
    case held
    show ?thesis by (rule held_stage_ok [OF assms(1) held(2)])
  qed
qed

lemma handle_cases:
  assumes "handle sl tx st = Some (resp, as, st')"
  obtains r st1 where "proxy_core_inner sl tx (st\<lparr>ss_metrics := inc_in_flight (ss_metrics st)\<rparr>) = Some (r, as, st1)"
    "resp = attach_alt_svc (ss_alt_svc st) (case r of Inr x \<Rightarrow> x | Inl _ \<Rightarrow> synth 502 ''upstream'' ''upstream error'')"
    "st' = st1\<lparr>ss_metrics := record_request (result_status r) (tx_within tx) (tx_micros tx) (dec_in_flight (ss_metrics st1))\<rparr>"
  using assms by (auto simp: handle_def proxy_core_def)

section \<open>What was decided for a request that was sent\<close>

lemma check_rate_limit_frame:
  "check_rate_limit r peer clock = (r', d) \<Longrightarrow> ri_index r' = ri_index r \<and> ri_strip_prefix r' = ri_strip_prefix r"
  by (auto simp: check_rate_limit_def split: option.splits prod.splits)

lemma pick_upstream_frame:
  "pick_upstream e r = (r', d) \<Longrightarrow> ri_index r' = ri_index r \<and> ri_strip_prefix r' = ri_strip_prefix r"
  by (auto simp: pick_upstream_def split: prod.splits)

lemma find_route_at:
  "find_route s req = Some r \<Longrightarrow> ri_strip_prefix r = cr_strip_prefix (ac_routes (snap_config s) ! ri_index r)"
  by (auto simp: find_route_def Let_def)

lemma dispatch_at:
  assumes "snap_dispatch_request s i r w = (Forward r', w')"
  shows "i < length (ac_routes (snap_config s))"
    "passes (snap_config s) (snap_trace s) (cr_filters (ac_routes (snap_config s) ! i)) r w r' w'"
  using assms by (auto simp: snap_dispatch_request_def route_at_def Let_def dispatch_Forward split: if_splits)

lemma try_acquire_frame: "try_acquire g = (g', p) \<Longrightarrow> \<exists>n. g' = g\<lparr>in_flight := n\<rparr>"
  by (auto simp: try_acquire_def claim_slot_def settle_slot_def Let_def split: if_splits intro: exI [of _ "in_flight g"])

lemma group_of_put: "group_of i (put_group i g st) = (if i < length (group_heap (registry st)) then g else group_of i st)"
  by (cases "i < length (group_heap (registry st))") (simp_all add: group_of_def list_update_beyond)

lemma held_stage_sends:
  assumes "held_stage sl tx snap route req body gi st = Some (r, as, st')" "as \<noteq> []"
  defines "fa \<equiv> forward_args_of sl tx snap route req (group_of gi st)"
  shows "length as \<le> 1 + unat (max_retries (group_of gi st)) \<and> retries_ok fa as \<and>
    (\<forall>a\<in>set as. sent_as fa (attempt_body (fa_bodyless fa) (Some body)) (at_request a))"
  using assms(1)
proof (cases rule: held_stage_cases)
  case no_instance
  then show ?thesis using assms(2) by simp
next
  case (sent g h s pk out sh)
  have "max_retries g = max_retries (group_of gi st)" using pick_frame [OF sent(1)] by auto
  then show ?thesis
    using forward_loop_sound [OF sent(2) [unfolded forward_with_retry_def]] unfolding fa_def by simp
qed

section \<open>What a transaction keeps\<close>

lemma map_update_same: "f x = f (xs ! i) \<Longrightarrow> map f (xs[i := x]) = map f xs"
  by (cases "i < length xs") (auto simp: map_update list_update_same_conv list_update_beyond)

text \<open>A view of the groups and the counters that every step of the core keeps or restores.\<close>

locale balanced_view = kept_view gview mview
  for gview :: "UpstreamGroup \<Rightarrow> 'g" and mview :: "ServerMetrics \<Rightarrow> 'm" +
  assumes shed: "try_acquire g = (g', None) \<Longrightarrow> gview g' = gview g"
    and released: "try_acquire g = (g1, Some permit) \<Longrightarrow> gview g2 = gview g1 \<Longrightarrow> gview (drop_permit g2 permit) = gview g"
    and mview_events: "mview (inc_circuit_open m) = mview m" "mview (inc_rate_limited m) = mview m"
begin

lemma admit_view:
  assumes "admit_request sl tx st = (a, st')"
  shows "registry st' = registry st \<and> mview (ss_metrics st') = mview (ss_metrics st)"
  using assms
  by (auto simp: admit_request_def Let_def mview_events split: option.splits prod.splits RateLimitDecision.splits)

lemma held_stage_view:
  assumes "held_stage sl tx snap route req body gi st = Some (r, as, st')"
    and "\<forall>n sh. gview (sh_group (ae_others (tx_envs tx n) sh)) = gview (sh_group sh) \<and>
      mview (sh_metrics (ae_others (tx_envs tx n) sh)) = mview (sh_metrics sh)"
  shows "\<exists>g. group_heap (registry st') = (group_heap (registry st))[gi := g] \<and> gview g = gview (group_of gi st) \<and>
    mview (ss_metrics st') = mview (ss_metrics st)"
  using assms(1)
proof (cases rule: held_stage_cases)
  case (no_instance g h s)
  then show ?thesis using pick_frame [OF no_instance(1)] gview_cursor by auto
next
  case (sent g h s pk out sh)
  have "gview (sh_group sh) = gview g \<and> mview (sh_metrics sh) = mview (ss_metrics st)"
    using forward_loop_view [OF sent(2) [unfolded forward_with_retry_def] assms(2)] by simp
  then show ?thesis using sent(3,4) pick_frame [OF sent(1)] gview_cursor by auto
qed

lemma breaker_stage_view:
  assumes "breaker_stage sl tx snap route req body gi st = Some (r, as, st')"
    and "\<forall>n sh. gview (sh_group (ae_others (tx_envs tx n) sh)) = gview (sh_group sh) \<and>
      mview (sh_metrics (ae_others (tx_envs tx n) sh)) = mview (sh_metrics sh)"
  shows "map gview (group_heap (registry st')) = map gview (group_heap (registry st)) \<and> mview (ss_metrics st') = mview (ss_metrics st)"
  using assms(1)
proof (cases rule: breaker_stage_cases)
  case (shed g)
  then show ?thesis
    using balanced_view.shed [OF balanced_view_axioms shed(1)] by (simp add: group_of_def map_update_same mview_events)
next
  case (held g permit st1)
  let ?G = "group_heap (registry st)"
  obtain g2 where g2: "group_heap (registry st1) = ?G[gi := g2]" "mview (ss_metrics st1) = mview (ss_metrics st)"
    "gi < length ?G \<Longrightarrow> gview g2 = gview g"
    using held_stage_view [OF held(2) assms(2)] by (auto simp: group_of_put)
  have "map gview (?G[gi := drop_permit (?G[gi := g2] ! gi) permit]) = map gview ?G"
    by (cases "gi < length ?G")
      (use released [OF held(1), of g2] g2(3) in \<open>auto intro: map_update_same simp: group_of_def list_update_beyond\<close>)
  then show ?thesis using g2(1,2) held(3) by (simp add: group_of_def)
qed

lemma proxy_core_inner_view:
  assumes "proxy_core_inner sl tx st = Some (r, as, st')"
    and "\<forall>n sh. gview (sh_group (ae_others (tx_envs tx n) sh)) = gview (sh_group sh) \<and>
      mview (sh_metrics (ae_others (tx_envs tx n) sh)) = mview (sh_metrics sh)"
  shows "map gview (group_heap (registry st')) = map gview (group_heap (registry st)) \<and> mview (ss_metrics st') = mview (ss_metrics st)"
  using assms(1)
proof (cases rule: proxy_core_inner_cases)
  case forwarded
  from breaker_stage_view [OF forwarded(6) assms(2)] show ?thesis
    using admit_view [OF forwarded(1)] by simp
qed (auto dest!: admit_view)

end

interpretation load_view: balanced_view in_flight requests_in_flight
proof
  show "try_acquire g = (g', None) \<Longrightarrow> in_flight g' = in_flight g" for g g'
    by (auto simp: try_acquire_def claim_slot_def settle_slot_def Let_def split: if_splits)
  show "try_acquire g = (g1, Some permit) \<Longrightarrow> in_flight g2 = in_flight g1 \<Longrightarrow> in_flight (drop_permit g2 permit) = in_flight g"
    for g g1 permit g2
    by (auto simp: try_acquire_def claim_slot_def settle_slot_def drop_permit_def Let_def split: if_splits)
qed (simp_all add: inc_circuit_open_def inc_rate_limited_def)

interpretation shape_view: balanced_view group_shape "\<lambda>_. ()"
proof
  show "try_acquire g = (g', None) \<Longrightarrow> group_shape g' = group_shape g" for g g'
    by (auto simp: group_shape_def dest!: try_acquire_frame)
  show "try_acquire g = (g1, Some permit) \<Longrightarrow> group_shape g2 = group_shape g1 \<Longrightarrow> group_shape (drop_permit g2 permit) = group_shape g"
    for g g1 permit g2
    by (auto simp: group_shape_def drop_permit_def dest!: try_acquire_frame)
qed simp_all

section \<open>A server that can serve\<close>

text \<open>A group serves when its instances fit the sampling and an attempt is bounded in time; a route when its
  backends were built from groups that serve.\<close>

definition group_serves :: "nat list \<times> nat \<times> nat \<times> u64 \<Rightarrow> bool" where
  "group_serves v = (case v of (is, per_try, overall, _) \<Rightarrow> length is < 2 ^ 32 \<and> (per_try \<noteq> 0 \<or> overall \<noteq> 0))"

definition backends_ok :: "UpstreamRegistry \<Rightarrow> nat WeightedBackends \<Rightarrow> bool" where
  "backends_ok reg b \<longleftrightarrow>
     (\<exists>targets wb c. WeightedBackends_new targets = Inr wb \<and> b = wb\<lparr>cursor := c\<rparr> \<and>
        (\<forall>(gi, _)\<in>set targets. gi < length (group_heap reg) \<and> group_serves (map group_shape (group_heap reg) ! gi)))"

definition serving_ok :: "('w, 'tls) ServerState \<Rightarrow> bool" where
  "serving_ok st \<longleftrightarrow> (\<forall>r\<in>set (ac_routes (ct_active (ss_control st))). backends_ok (registry st) (cr_backends r))"

lemma backends_ok_registry:
  assumes "map group_shape (group_heap reg') = map group_shape (group_heap reg)" "backends_ok reg b"
  shows "backends_ok reg' b"
proof -
  have "length (group_heap reg') = length (group_heap reg)" using assms(1) by (metis length_map)
  then show ?thesis using assms by (simp add: backends_ok_def)
qed

lemma backends_pick:
  assumes "backends_ok reg b" "wb_pick e b = (b', g)"
  shows "backends_ok reg b'" "g = Some gi \<Longrightarrow> gi < length (group_heap reg) \<and> group_serves (map group_shape (group_heap reg) ! gi)"
proof -
  obtain targets wb c where wb: "WeightedBackends_new targets = Inr wb" "b = wb\<lparr>cursor := c\<rparr>"
    "\<forall>(gi, _)\<in>set targets. gi < length (group_heap reg) \<and> group_serves (map group_shape (group_heap reg) ! gi)"
    using assms(1) unfolding backends_ok_def by blast
  obtain c' where "b' = wb\<lparr>cursor := c'\<rparr>" using assms(2) wb(2) by (auto simp: wb_pick_def Let_def split: if_splits)
  then show "backends_ok reg b'" using wb unfolding backends_ok_def by blast
  have "set (WeightedBackends.groups wb) \<subseteq> fst ` set targets"
    using wb(1) by (auto simp: WeightedBackends_new_def bind_res_def Let_def split: sum.splits if_splits)
  then show "gi < length (group_heap reg) \<and> group_serves (map group_shape (group_heap reg) ! gi)" if "g = Some gi"
    using weighted_pick_sound [OF wb(1), of e c gi] assms(2) wb(2,3) that by force
qed

lemma held_stage_returns:
  assumes "group_serves (group_shape (group_of gi st))"
    and "\<forall>n sh. group_shape (sh_group (ae_others (tx_envs tx n) sh)) = group_shape (sh_group sh)"
  shows "\<exists>r. held_stage sl tx snap route req body gi st = Some r"
proof -
  let ?g = "group_of gi st"
  let ?fa = "forward_args_of sl tx snap route req ?g"
  have g: "length (instances ?g) < 2 ^ 32" "request_timeout ?g \<noteq> 0 \<or> overall_timeout ?g \<noteq> 0"
    using assms(1) by (simp_all add: group_serves_def group_shape_def)
  obtain g h s q where p: "pick ?g (insts (registry st)) (tx_clock tx) (ss_rng st) (fa_key ?fa) = Some (g, h, s, q)"
    using dispatch_returns [OF g(1)] unfolding pick_def pick_quiet_def by (metis prod_cases4)
  have "\<exists>r. forward_with_retry (tx_envs tx) ?fa pk (Some body) (max_retries g)
      \<lparr>sh_group = g, sh_heap = h, sh_rng = s, sh_metrics = ss_metrics st\<rparr> = Some r" for pk
    unfolding forward_with_retry_def
  proof (rule forward_loop_returns)
    show "\<forall>n. ae_reply (tx_envs tx n) = None \<longrightarrow> fa_per_try_bound ?fa \<noteq> 0 \<or> fa_overall_deadline ?fa \<noteq> None"
      using g(2) by (auto simp: forward_args_of_def)
    show "\<forall>n sh. instances (sh_group (ae_others (tx_envs tx n) sh)) = instances (sh_group sh)"
      using assms(2) by (simp add: group_shape_def)
  qed (use g(1) pick_frame [OF p] in auto)
  then show ?thesis
    using p unfolding held_stage_def Let_def
    by (auto split: option.splits ForwardOutcome.splits prod.splits) (metis option.distinct(1))
qed

lemma breaker_stage_active:
  "breaker_stage sl tx snap route req body gi st = Some (r, as, st') \<Longrightarrow> ct_active (ss_control st') = ct_active (ss_control st)"
  by (auto simp: breaker_stage_def held_stage_def put_group_def put_insts_def put_registry_def Let_def
      split: option.splits prod.splits ForwardOutcome.splits)

lemma breaker_stage_returns:
  assumes "gi < length (group_heap (registry st))" "group_serves (map group_shape (group_heap (registry st)) ! gi)"
    and "\<forall>n sh. group_shape (sh_group (ae_others (tx_envs tx n) sh)) = group_shape (sh_group sh)"
  shows "\<exists>r. breaker_stage sl tx snap route req body gi st = Some r"
proof -
  obtain g p where t: "try_acquire (group_of gi st) = (g, p)" by fastforce
  have "group_shape (group_of gi (put_group gi g st)) = group_shape (group_of gi st)"
    using assms(1) try_acquire_frame [OF t] by (auto simp: group_of_put group_shape_def)
  then have "\<exists>r. held_stage sl tx snap route req body gi (put_group gi g st) = Some r"
    using assms by (intro held_stage_returns) (simp_all add: group_of_def)
  then show ?thesis using t by (auto simp: breaker_stage_def split: option.splits)
qed

lemma serving_put_route:
  assumes "serving_ok st" "backends_ok (registry st) (ri_backends ri)"
  shows "serving_ok (put_route ri st)"
proof -
  let ?rs = "ac_routes (ct_active (ss_control st))"
  have "set (?rs[i := x]) \<subseteq> insert x (set ?rs)" for i x by (rule set_update_subset_insert)
  then show ?thesis
    using assms unfolding serving_ok_def put_route_frame by (fastforce simp: put_route_def Let_def)
qed

lemma serving_ok_cong:
  "ct_active (ss_control st') = ct_active (ss_control st) \<Longrightarrow>
   map group_shape (group_heap (registry st')) = map group_shape (group_heap (registry st)) \<Longrightarrow> serving_ok st \<Longrightarrow> serving_ok st'"
  using backends_ok_registry by (auto simp: serving_ok_def)

lemma serving_ok_updates [simp]:
  "serving_ok (st\<lparr>ss_metrics := m\<rparr>) = serving_ok st" "serving_ok (st\<lparr>ss_world := w\<rparr>) = serving_ok st"
  "serving_ok (st\<lparr>ss_ids := i\<rparr>) = serving_ok st"
  by (simp_all add: serving_ok_def)

lemma select_bound: "select routes req = Some i \<Longrightarrow> i < length routes"
  by (auto simp: select_def in_set_enumerate_eq dest!: max_by_key_Some)

lemma breaker_stage_serving:
  assumes "gi < length (group_heap (registry st))" "group_serves (map group_shape (group_heap (registry st)) ! gi)"
    and "\<forall>n sh. group_shape (sh_group (ae_others (tx_envs tx n) sh)) = group_shape (sh_group sh)" "serving_ok st"
  shows "\<exists>r as st'. breaker_stage sl tx snap route req body gi st = Some (r, as, st') \<and> serving_ok st'"
proof -
  obtain r as st' where r: "breaker_stage sl tx snap route req body gi st = Some (r, as, st')"
    using breaker_stage_returns [OF assms(1-3), of sl snap route req body] by (metis prod_cases3)
  have "map group_shape (group_heap (registry st')) = map group_shape (group_heap (registry st))"
    using shape_view.breaker_stage_view [OF r] assms(3) by simp
  then have "serving_ok st'" by (rule serving_ok_cong [OF breaker_stage_active [OF r] _ assms(4)])
  then show ?thesis using r by blast
qed

lemma find_route_backends:
  assumes "find_route (snapshot_with_trace c t) req = Some ri"
  shows "\<exists>r\<in>set (ac_routes (ct_active c)). ri_backends ri = cr_backends r"
proof -
  obtain i where i: "select (ac_routes (ct_active c)) 
      \<lparr>rp_authority = req_authority req, rp_path = req_path req, rp_method = req_method req, rp_headers = req_headers req\<rparr> = Some i"
    "ri_backends ri = cr_backends (ac_routes (ct_active c) ! i)"
    using assms by (auto simp: find_route_def snapshot_with_trace_def Let_def)
  then show ?thesis using select_bound nth_mem by metis
qed

lemma admit_serving:
  assumes "admit_request sl tx st = (a, st')" "serving_ok st"
  shows "serving_ok st' \<and> (\<forall>http_req snap route. a = Inr (http_req, snap, route) \<longrightarrow> backends_ok (registry st') (ri_backends route))"
proof -
  have b: "backends_ok (registry st) (ri_backends ri)" if "find_route (snapshot_with_trace (ss_control st) t) q = Some ri" for t q ri
    using find_route_backends [OF that] assms(2) by (auto simp: serving_ok_def)
  have l: "ri_backends r' = ri_backends r" if "check_rate_limit r peer clock = (r', d)" for r peer clock r' d
    using that by (auto simp: check_rate_limit_def split: option.splits prod.splits)
  show ?thesis
    using assms b l
    by (auto simp: admit_request_def Let_def intro!: serving_put_route split: option.splits prod.splits RateLimitDecision.splits)
qed

lemma proxy_core_inner_serving:
  assumes "serving_ok st"
    and "\<forall>n sh. group_shape (sh_group (ae_others (tx_envs tx n) sh)) = group_shape (sh_group sh)"
  shows "\<exists>r as st'. proxy_core_inner sl tx st = Some (r, as, st') \<and> serving_ok st'"
proof (cases "admit_request sl tx st")
  case (Pair a st1)
  note ad = admit_serving [OF Pair assms(1)]
  show ?thesis
  proof (cases a)
    case (Inl resp)
    then show ?thesis using Pair ad by (simp add: proxy_core_inner_def)
  next
    case (Inr b)
    obtain http_req snap route where b: "b = (http_req, snap, route)" by (cases b)
    obtain oc w where d: "snap_dispatch_request snap (ri_index route) http_req (ss_world st1) = (oc, w)"
      by fastforce
    let ?st = "st1\<lparr>ss_world := w\<rparr>"
    obtain wb q where p: "wb_pick (\<lambda>i. has_eligible (group_of i ?st) (insts (registry ?st)) (tx_clock tx)) (ri_backends route) = (wb, q)"
      by fastforce
    let ?route = "route\<lparr>ri_backends := wb\<rparr>"
    have ok: "backends_ok (registry st1) (ri_backends route)" using ad Inr b by simp
    note bp = backends_pick [OF ok p]
    have s2: "serving_ok (put_route ?route (st1\<lparr>ss_world := w\<rparr>))" using ad bp(1) by (intro serving_put_route) simp_all
    obtain bd w2 where bs: "body_stage sl tx snap ?route w = (bd, w2)" by fastforce
    let ?st3 = "(put_route ?route ?st)\<lparr>ss_world := w2\<rparr>"
    have br: "\<exists>r as st'. breaker_stage sl tx snap ?route req body gi ?st3 = Some (r, as, st') \<and> serving_ok st'"
      if "q = Some gi" for req body gi
      using bp(2) [OF that] s2 assms(2) by (intro breaker_stage_serving) auto
    have pu: "pick_upstream (\<lambda>i. has_eligible (group_of i ?st) (insts (registry ?st)) (tx_clock tx)) route = (?route, q)"
      using p by (simp add: pick_upstream_def)
    have "serving_ok ?st" "serving_ok ?st3" using ad s2 by simp_all
    then show ?thesis
      unfolding proxy_core_inner_def Pair Inr b prod.case sum.case d Let_def
      using br s2 pu bs by (cases oc; cases q; cases bd; cases "tx_join_request tx") simp_all
  qed
qed

lemma handle_serving:
  assumes "serving_ok st"
    and "\<forall>n sh. group_shape (sh_group (ae_others (tx_envs tx n) sh)) = group_shape (sh_group sh)"
  shows "\<exists>resp as st'. handle sl tx st = Some (resp, as, st') \<and> serving_ok st'"
  using proxy_core_inner_serving [of "st\<lparr>ss_metrics := inc_in_flight (ss_metrics st)\<rparr>" tx sl] assms
  by (auto simp: handle_def proxy_core_def)

section \<open>A concrete transaction\<close>

definition example_sl :: server_lib where
  "example_sl = \<lparr>sl_http = example_lib, sl_head_ok = (\<lambda>_ _. True), sl_hex_decode = (\<lambda>_. None), sl_hex_encode = (\<lambda>_. ''0'')\<rparr>"

definition example_tx :: "(unit, unit) transaction" where
  "example_tx =
     \<lparr>tx_peer = V4 0x0A000001, tx_scheme = ''http'',
      tx_parts = \<lparr>pt_method = ''GET'', pt_path_and_query = Some ''/a'', pt_uri_authority = Some ''h'', pt_headers = []\<rparr>,
      tx_body = (), tx_exact_size = Some 0, tx_frames = [], tx_read_late = False, tx_limit_clock = 0, tx_clock = 5, tx_now = 0,
      tx_join_request = False, tx_join_body = False, tx_join_response = False,
      tx_envs = (\<lambda>_. example_envs 1), tx_within = (\<lambda>_. True), tx_micros = 1\<rparr>"

definition example_server :: "(unit, unit) ServerState" where
  "example_server =
     \<lparr>ss_control = example_control\<lparr>
        ct_active := (ct_active example_control)\<lparr>ac_routes := [example_route ''/'']\<rparr>,
        ct_upstreams := UpstreamRegistry_new\<lparr>insts := example_heap, group_heap := [example_group]\<rparr>\<rparr>,
      ss_alt_svc = None, ss_metrics = ServerMetrics_new, ss_ids = \<lparr>id_seed = 0, id_next = 0\<rparr>, ss_rng = 1, ss_world = ()\<rparr>"

lemma example_path: "normalize_path (req_path (to_http_request (sl_http example_sl) (tx_parts example_tx) (tx_scheme example_tx))) = Some ''/a''"
  by code_simp

definition example_info :: RouteInfo where
  "example_info = \<lparr>ri_index = 0, ri_backends = cr_backends (example_route ''/''), ri_strip_prefix = None, ri_has_filters = False,
      ri_reads_body = False, ri_rate_limit = None\<rparr>"

lemma ingress_path [simp]: "req_path (ingress_request sl tx p) = p"
  by (simp add: ingress_request_def Let_def)

lemma example_routes: "ac_routes (ct_active (ss_control example_server)) = [example_route ''/'']"
  by (simp add: example_server_def)

lemma example_selected: "rp_path q = ''/a'' \<Longrightarrow> select [example_route ''/''] q = Some 0"
  by (simp add: select_def req_matches_def route_matches_def example_route_def path_under_prefix_def path_only_def)

lemma example_found:
  "find_route (snapshot_with_trace (ss_control example_server) t) (ingress_request example_sl example_tx ''/a'') = Some example_info"
  by (simp add: find_route_def snapshot_with_trace_def example_routes example_selected example_info_def Let_def)
    (simp add: example_route_def)

lemma example_eligible: "i < 3 \<Longrightarrow> is_eligible example_heap None (eligibility_ctx example_group 5) i"
  by (simp add: is_eligible_def is_healthy_def is_outlier_ejected_def eligibility_ctx_def example_heap_def
      outlier_enabled_def UpstreamInstance_new_def)

lemma example_has_eligible: "has_eligible example_group example_heap 5"
  using example_eligible [of 0] by (auto simp: has_eligible_iff example_group_def)

lemma example_picked:
  "\<exists>g h s' pk. pick example_group example_heap 5 s None = Some (g, h, s', Some pk)"
proof -
  have "filter (is_eligible example_heap None (eligibility_ctx example_group 5)) (instances example_group) = instances example_group"
    using example_eligible by (intro filter_True) (simp add: example_group_def)
  moreover have "lb example_group = LbRoundRobin" "instances example_group \<noteq> []" by (simp_all add: example_group_def)
  ultimately show ?thesis by (simp add: pick_def pick_quiet_def pick_dispatch_def rr_pick_quiet Let_def)
qed

lemma example_held:
  assumes "registry st = ct_upstreams (ss_control example_server)"
  shows "\<exists>r as st'. held_stage example_sl example_tx snap route req body 0 st = Some (r, as, st') \<and> as \<noteq> []"
proof -
  have g: "group_of 0 st = example_group" "insts (registry st) = example_heap"
    using assms by (simp_all add: group_of_def example_server_def)
  let ?fa = "forward_args_of example_sl example_tx snap route req example_group"
  obtain g' h s' pk where p: "pick example_group example_heap (tx_clock example_tx) (ss_rng st) (fa_key ?fa) = Some (g', h, s', Some pk)"
    using example_picked by (fastforce simp: forward_args_of_def hash_key_of_def example_group_def example_tx_def)
  let ?sh = "\<lparr>sh_group = g', sh_heap = h, sh_rng = s', sh_metrics = ss_metrics st\<rparr>"
  obtain rq where "build_request ?fa (inst_address (sh_heap ?sh ! pick_instance pk)) (attempt_body (fa_bodyless ?fa) (Some body)) = Some rq"
    by (simp add: build_request_def forward_args_of_def example_sl_def Let_def)
  moreover have "\<exists>d. per_try_timeout (fa_overall_deadline ?fa) (fa_per_try_bound ?fa) (ae_start (tx_envs example_tx 0)) = Bounded d"
    by (simp add: per_try_timeout_def forward_args_of_def example_group_def)
  moreover have "ae_reply (tx_envs example_tx 0) = Some (Inr \<lparr>up_status = 200, up_headers = [], up_body = ()\<rparr>)"
    by (simp add: example_tx_def example_envs_def)
  moreover have "\<not> is_retriable_5xx 200" by (simp add: is_retriable_5xx_def)
  ultimately obtain resp sh' where "forward_with_retry (tx_envs example_tx) ?fa pk (Some body) (max_retries g') ?sh =
      Some (FwdResponse resp, [sent_attempt (tx_envs example_tx 0) pk rq], sh')"
    unfolding forward_with_retry_def using forward_answered [where n = 0 and sh = ?sh] by fastforce
  then show ?thesis
    using p by (simp add: held_stage_def g Let_def split: prod.splits) 
qed

lemma example_split: "e 0 \<Longrightarrow> \<exists>route. pick_upstream e example_info = (route, Some 0) \<and> \<not> ri_reads_body route"
  by (simp add: pick_upstream_def wb_pick_def example_info_def example_route_def Let_def)

lemma example_handled: "\<exists>resp as st'. handle example_sl example_tx example_server = Some (resp, as, st') \<and> as \<noteq> []"
proof -
  let ?st = "example_server\<lparr>ss_metrics := inc_in_flight (ss_metrics example_server)\<rparr>"
  obtain t ids where tr: "inbound_trace example_sl (tx_parts example_tx) (ss_ids ?st) = (t, ids)" by fastforce
  let ?snap = "snapshot_with_trace (ss_control ?st) t"
  let ?req = "ingress_request example_sl example_tx ''/a''"
  let ?st1 = "put_route example_info (?st\<lparr>ss_ids := ids\<rparr>)"
  have lim: "check_rate_limit example_info (tx_peer example_tx) (tx_limit_clock example_tx) = (example_info, Allow)"
    by (simp add: check_rate_limit_def example_info_def)
  have ad: "admit_request example_sl example_tx ?st = (Inr (?req, ?snap, example_info), ?st1)"
    using tr lim example_found [of t] by (simp add: admit_request_def example_path Let_def)
  have d: "snap_dispatch_request ?snap (ri_index example_info) ?req (ss_world ?st1) = (Forward ?req, ss_world ?st1)"
    by (simp add: snap_dispatch_request_def route_at_def snapshot_with_trace_def example_routes example_info_def example_route_def Let_def)
  have reg: "registry ?st1 = ct_upstreams (ss_control example_server)" by simp (simp add: registry_def)
  let ?st2 = "?st1\<lparr>ss_world := ss_world ?st1\<rparr>"
  have "has_eligible (group_of 0 ?st2) (insts (registry ?st2)) (tx_clock example_tx)"
    unfolding group_of_def registry_updates reg using example_has_eligible by (simp add: example_server_def example_tx_def)
  from example_split [of "\<lambda>i. has_eligible (group_of i ?st2) (insts (registry ?st2)) (tx_clock example_tx)", OF this]
  obtain route where pu: "pick_upstream (\<lambda>i. has_eligible (group_of i (?st1\<lparr>ss_world := ss_world ?st1\<rparr>))
        (insts (registry (?st1\<lparr>ss_world := ss_world ?st1\<rparr>))) (tx_clock example_tx)) example_info = (route, Some 0)"
      "\<not> ri_reads_body route"
    by blast
  let ?st3 = "(put_route route (?st1\<lparr>ss_world := ss_world ?st1\<rparr>))\<lparr>ss_world := ss_world ?st1\<rparr>"
  have body: "body_stage example_sl example_tx ?snap route (ss_world ?st1) = (Inr (Streamed ()), ss_world ?st1)"
    using pu(2) by (simp add: body_stage_def)
  have "registry ?st3 = ct_upstreams (ss_control example_server)" using reg by simp
  moreover have ac: "try_acquire (group_of 0 ?st3) = (group_of 0 ?st3, Some \<lparr>counted = False\<rparr>)"
    using calculation by (simp add: try_acquire_def group_of_def) (simp add: example_server_def example_group_def)
  ultimately obtain r as st' where
    "held_stage example_sl example_tx ?snap route ?req (Streamed ()) 0 (put_group 0 (group_of 0 ?st3) ?st3) = Some (r, as, st')" "as \<noteq> []"
    using example_held [of "put_group 0 (group_of 0 ?st3) ?st3"] by (fastforce simp: group_of_def)
  then have "\<exists>st'. breaker_stage example_sl example_tx ?snap route ?req (Streamed ()) 0 ?st3 = Some (r, as, st')"
    using ac by (simp add: breaker_stage_def)
  then show ?thesis
    using ad d pu body \<open>as \<noteq> []\<close> by (auto simp: handle_def proxy_core_def proxy_core_inner_def example_tx_def)
qed

section \<open>A run of the server\<close>

text \<open>The answers to a sequence of transactions, each on the state the one before left.\<close>

fun serve_all ::
    "server_lib \<Rightarrow> ('q, 'b) transaction list \<Rightarrow> ('w, 'tls) ServerState \<Rightarrow> ('b Response list \<times> ('w, 'tls) ServerState) option" where
  "serve_all sl [] st = Some ([], st)"
| "serve_all sl (tx # txs) st =
     (case handle sl tx st of
        None \<Rightarrow> None
      | Some (resp, _, st) \<Rightarrow> map_option (\<lambda>(resps, st). (resp # resps, st)) (serve_all sl txs st))"

lemma serve_all_returns:
  assumes "serving_ok st"
    and "\<forall>tx\<in>set txs. \<forall>n sh. group_shape (sh_group (ae_others (tx_envs tx n) sh)) = group_shape (sh_group sh)"
  shows "\<exists>resps st'. serve_all sl txs st = Some (resps, st') \<and> length resps = length txs \<and> serving_ok st'"
  using assms
proof (induction txs arbitrary: st)
  case (Cons tx txs)
  obtain resp as st1 where h: "handle sl tx st = Some (resp, as, st1)" "serving_ok st1"
    using handle_serving [OF Cons.prems(1)] Cons.prems(2) by (metis list.set_intros(1))
  moreover obtain resps st' where "serve_all sl txs st1 = Some (resps, st')" "length resps = length txs" "serving_ok st'"
    using Cons.IH [OF h(2)] Cons.prems(2) by auto
  ultimately show ?case by simp
qed simp

section \<open>Properties\<close>

text \<open>C31: Every response to a client is well formed, whatever the filters and the upstream produce: its status
  has three digits, and it carries no hop-by-hop header under any spelling.\<close>

theorem responses_well_formed:
  assumes "http_lib_ok (sl_http sl)" "handle sl tx st = Some (resp, as, st')"
  shows "100 \<le> res_status resp \<and> res_status resp < 1000 \<and> (\<forall>(k, _)\<in>set (res_headers resp). \<not> is_hop_by_hop k)"
proof -
  obtain r st1 where h: "proxy_core_inner sl tx (st\<lparr>ss_metrics := inc_in_flight (ss_metrics st)\<rparr>) = Some (r, as, st1)"
    and resp: "resp = attach_alt_svc (ss_alt_svc st) (case r of Inr x \<Rightarrow> x | Inl _ \<Rightarrow> synth 502 ''upstream'' ''upstream error'')"
    using handle_cases [OF assms(2)] by metis
  have "response_ok (case r of Inr x \<Rightarrow> x | Inl _ \<Rightarrow> synth 502 ''upstream'' ''upstream error'')"
    using proxy_core_inner_ok [OF assms(1) h] by (cases r) (auto simp: result_ok_def synth_ok)
  then have "response_ok resp" unfolding resp by (rule attach_alt_svc_ok)
  then show ?thesis by (simp add: response_ok_def)
qed

theorem responses_well_formed_witness:
  "\<exists>resp as st'. handle example_sl example_tx example_server = Some (resp, as, st') \<and> 100 \<le> res_status resp \<and> res_status resp < 1000"
proof -
  obtain resp as st' where h: "handle example_sl example_tx example_server = Some (resp, as, st')"
    using example_handled by blast
  have "http_lib_ok (sl_http example_sl)" using example_lib_ok by (simp add: example_sl_def)
  from responses_well_formed [OF this h] show ?thesis using h by blast
qed





end
