(* ===== verification/Admin.thy ===== *)
theory Admin
  imports Telemetry Proxy
begin

text \<open>
  What an operator sees: the Prometheus text of the metrics (\<open>server/src/metrics.rs\<close>), the admin
  endpoint that serves it (\<open>server/src/admin.rs\<close>), the settings of
  \<open>control/src/control_observability.rs\<close>, and the access log (\<open>server/src/access_log.rs\<close> and its
  capture in \<open>proxy.rs\<close>). The texts of the two durations in seconds, which the code computes in floating
  point, are arguments; the bounds of the buckets are the texts Rust gives their constants.
\<close>

section \<open>The text of the metrics\<close>

definition quote :: char where "quote = CHR 0x22"

definition newline :: char where "newline = CHR 0x0A"

definition bound_texts :: "string list" where
  "bound_texts =
     [''0.001'', ''0.005'', ''0.01'', ''0.025'', ''0.05'', ''0.1'', ''0.25'', ''0.5'', ''1'', ''2.5'', ''5'', ''10'']"

definition CLASSES :: "string list" where
  "CLASSES = [''1xx'', ''2xx'', ''3xx'', ''4xx'', ''5xx'']"

definition u64_text :: "u64 \<Rightarrow> string" where
  "u64_text n = dec_string (unat n)"

text \<open>\<open>max(0)\<close> of a signed gauge.\<close>

definition gauge_text :: "i64 \<Rightarrow> string" where
  "gauge_text n = dec_string (nat (max 0 (sint n)))"

definition labelled :: "string \<Rightarrow> string \<Rightarrow> string \<Rightarrow> string \<Rightarrow> string" where
  "labelled name label lv n = name @ ''{'' @ label @ ''='' @ [quote] @ lv @ [quote] @ ''} '' @ n"

text \<open>The running sum of the buckets, with the wrapping addition of a release build.\<close>

fun running_sums :: "u64 \<Rightarrow> u64 list \<Rightarrow> u64 list" where
  "running_sums acc [] = []"
| "running_sums acc (n # xs) = (acc + n) # running_sums (acc + n) xs"

definition family :: "string \<Rightarrow> string \<Rightarrow> string \<Rightarrow> string list \<Rightarrow> string list" where
  "family name help kind samples =
     [''# HELP '' @ name @ '' '' @ help, ''# TYPE '' @ name @ '' '' @ kind] @ samples"

definition counter :: "string \<Rightarrow> string \<Rightarrow> string \<Rightarrow> string list" where
  "counter name help v = family name help ''counter'' [name @ '' '' @ v]"

definition histogram_lines :: "(u64 \<Rightarrow> string) \<Rightarrow> Histogram \<Rightarrow> string list" where
  "histogram_lines seconds h =
     map (\<lambda>(bound, n). labelled ''plecto_request_duration_seconds_bucket'' ''le'' bound (u64_text n))
       (zip bound_texts (running_sums 0 (hist_buckets h))) @
     [labelled ''plecto_request_duration_seconds_bucket'' ''le'' ''+Inf'' (u64_text (hist_count h)),
      ''plecto_request_duration_seconds_sum '' @ seconds (hist_sum_micros h),
      ''plecto_request_duration_seconds_count '' @ u64_text (hist_count h)]"

definition render_lines :: "(u64 \<Rightarrow> string) \<Rightarrow> (u64 \<Rightarrow> string) \<Rightarrow> ServerMetrics \<Rightarrow> MetricsSnapshot \<Rightarrow> string list" where
  "render_lines seconds filter_seconds m filt =
     family ''plecto_requests_total'' ''Total client requests handled, by response status class.'' ''counter''
       (map (\<lambda>(class, n). labelled ''plecto_requests_total'' ''status_class'' class (u64_text n)) (zip CLASSES (status_class m))) @
     family ''plecto_requests_in_flight'' ''Requests currently being served.'' ''gauge''
       [''plecto_requests_in_flight '' @ gauge_text (requests_in_flight m)] @
     family ''plecto_request_duration_seconds'' ''Request duration in seconds.'' ''histogram''
       (histogram_lines seconds (duration m)) @
     counter ''plecto_upstream_retries_total'' ''Upstream request retries onto another instance.'' (u64_text (retries m)) @
     counter ''plecto_circuit_open_total'' ''Requests shed by an upstream circuit breaker (ADR 000028).''
       (u64_text (circuit_open m)) @
     counter ''plecto_rate_limited_total'' ''Requests rejected by a native route rate limit (ADR 000033).''
       (u64_text (rate_limited m)) @
     counter ''plecto_outlier_ejections_total''
       ''Instances ejected from rotation by outlier detection (ADR 000032).'' (u64_text (outlier_ejections m)) @
     counter ''plecto_filter_executions_total'' ''Filter hook executions (host-aggregated).'' (u64_text (snap_total filt)) @
     counter ''plecto_filter_errors_total''
       ''Filter executions that faulted (trap/deadline/instantiate/unavailable).'' (u64_text (snap_errors filt)) @
     counter ''plecto_filter_short_circuits_total'' ''Filter executions that short-circuited the chain.''
       (u64_text (snap_short_circuits filt)) @
     counter ''plecto_filter_duration_seconds_total'' ''Total filter execution time in seconds.''
       (filter_seconds (snap_duration_nanos filt))"

definition render :: "(u64 \<Rightarrow> string) \<Rightarrow> (u64 \<Rightarrow> string) \<Rightarrow> ServerMetrics \<Rightarrow> MetricsSnapshot \<Rightarrow> string" where
  "render seconds filter_seconds m filt = join_with newline (render_lines seconds filter_seconds m filt) @ [newline]"

section \<open>The admin endpoint\<close>

text \<open>The settings the fast path reads, and the tally it renders.\<close>

definition control_admin_addr :: "('w, 'tls) Control \<Rightarrow> string option" where
  "control_admin_addr c = admin_addr (ct_observability c)"

definition access_log_enabled :: "('w, 'tls) Control \<Rightarrow> bool" where
  "access_log_enabled c = access_log (ct_observability c)"

definition filter_metrics :: "MetricsSink \<Rightarrow> MetricsSnapshot" where
  "filter_metrics sink = sink_snapshot sink"

definition admin_handle ::
    "http_lib \<Rightarrow> (u64 \<Rightarrow> string) \<Rightarrow> (u64 \<Rightarrow> string) \<Rightarrow> ServerMetrics \<Rightarrow> MetricsSink \<Rightarrow> string \<Rightarrow> unit Response" where
  "admin_handle lib seconds filter_seconds m sink path =
     (let (status, content_type, body) =
        (if path = ''/metrics''
         then (200, ''text/plain; version=0.0.4; charset=utf-8'', render seconds filter_seconds m (filter_metrics sink))
         else if path = ''/healthz'' then (200, ''text/plain; charset=utf-8'', ''ok'' @ [newline])
         else if path = ''/readyz'' then (200, ''text/plain; charset=utf-8'', ''ready'' @ [newline])
         else (404, ''text/plain; charset=utf-8'', ''not found'' @ [newline]))
      in case value_from_str lib content_type of
           Some v \<Rightarrow> \<lparr>res_status = status, res_headers = hm_insert [] ''content-type'' v, res_body = FullBody (str_bytes body)\<rparr>
         | None \<Rightarrow> \<lparr>res_status = 200, res_headers = [], res_body = FullBody (str_bytes (''admin error'' @ [newline]))\<rparr>)"

section \<open>The access log\<close>

record Access =
  ac_method :: string
  ac_authority :: string
  ac_path :: string

text \<open>\<open>Uri::path\<close>: the path without its query.\<close>

definition uri_path :: "Parts \<Rightarrow> string" where
  "uri_path parts =
     (case pt_path_and_query parts of
        None \<Rightarrow> []
      | Some pq \<Rightarrow> (let p = takeWhile (\<lambda>c. c \<noteq> CHR ''?'') pq in if p = [] then ''/'' else p))"

definition capture_access :: "http_lib \<Rightarrow> bool \<Rightarrow> Parts \<Rightarrow> Access option" where
  "capture_access lib enabled parts =
     (if enabled
      then Some \<lparr>ac_method = pt_method parts, ac_authority = request_authority lib parts, ac_path = uri_path parts\<rparr>
      else None)"

text \<open>One event on the target \<open>plecto::access\<close>, as its fields in order.\<close>

definition access_record :: "string \<Rightarrow> IpAddr \<Rightarrow> Access \<Rightarrow> u16 \<Rightarrow> u64 \<Rightarrow> (string \<times> string) list" where
  "access_record scheme peer access status elapsed_ms =
     [(''client'', case peer of V4 a \<Rightarrow> ipv4_string a | V6 a \<Rightarrow> ipv6_string a), (''scheme'', scheme),
      (''method'', ac_method access), (''authority'', ac_authority access), (''path'', ac_path access),
      (''status'', dec_string (unat status)), (''duration_ms'', u64_text elapsed_ms)]"

text \<open>The transaction core with the events it logs.\<close>

definition proxy_core_logged ::
    "server_lib \<Rightarrow> u64 \<Rightarrow> ('q, 'b) transaction \<Rightarrow> ('w, 'tls) ServerState \<Rightarrow>
     ((ServerError + 'b Response) \<times> ('w, 'tls) ServerState \<times> (string \<times> string) list list) option" where
  "proxy_core_logged sl elapsed_ms tx st =
     map_option
       (\<lambda>(r, as, st').
          (r, st',
           case capture_access (sl_http sl) (access_log_enabled (ss_control st)) (tx_parts tx) of
             None \<Rightarrow> []
           | Some access \<Rightarrow> [access_record (tx_scheme tx) (tx_peer tx) access (result_status r) elapsed_ms]))
       (proxy_core sl tx st)"

section \<open>Lines and numbers\<close>

lemma newline_not_digit: "digit_char d \<noteq> newline" if "d < 16"
proof -
  have "list_all (\<lambda>d. digit_char d \<noteq> newline) [0..<16]" by code_simp
  then show ?thesis using that by (simp add: list_all_iff)
qed

lemma newline_dec_string: "newline \<notin> set (dec_string n)"
proof -
  have "newline \<notin> set (radix_string 10 n)"
  proof (induction "10 :: nat" n rule: radix_string.induct)
    case (1 n)
    show ?case
    proof (cases "n < 10")
      case True
      then show ?thesis using newline_not_digit [of n] by (subst radix_string.simps) (auto dest: sym)
    next
      case False
      have "n mod 10 < 16" using mod_less_divisor [of 10 n] by linarith
      then show ?thesis
        using 1 False newline_not_digit [of "n mod 10"] by (subst radix_string.simps) (auto dest: sym)
    qed
  qed
  then show ?thesis by (simp add: dec_string_def)
qed

lemma length_running_sums [simp]: "length (running_sums acc xs) = length xs"
  by (induction xs arbitrary: acc) simp_all

lemma running_sums_nth: "i < length xs \<Longrightarrow> running_sums acc xs ! i = acc + sum_list (take (Suc i) xs)"
proof (induction xs arbitrary: acc i)
  case (Cons x xs)
  then show ?case by (cases i) (simp_all add: add.assoc)
qed simp

lemma bucket_of_le:
  assumes "\<forall>i j. i \<le> j \<longrightarrow> w i \<longrightarrow> w j" "i < DURATION_BUCKETS"
  shows "(\<exists>b\<le>i. bucket_of w = Some b) \<longleftrightarrow> w i"
proof
  assume "\<exists>b\<le>i. bucket_of w = Some b"
  then obtain b where "b \<le> i" "w b" by (auto simp: bucket_of_def find_Some_iff)
  then show "w i" using assms(1) by blast
next
  assume "w i"
  then obtain b where b: "bucket_of w = Some b"
    using assms(2) by (cases "bucket_of w") (auto simp: bucket_of_def find_None_iff)
  then have "\<forall>j<b. \<not> w j" by (auto simp: bucket_of_def find_Some_iff)
  then have "b \<le> i" using \<open>w i\<close> not_less by blast
  then show "\<exists>b\<le>i. bucket_of w = Some b" using b by blast
qed

lemma sum_bucket_counts:
  "(\<Sum>b\<leftarrow>[0..<k]. length (filter (\<lambda>x. f x = Some b) xs)) = length (filter (\<lambda>x. \<exists>b<k. f x = Some b) xs)"
proof (induction xs)
  case (Cons x xs)
  have "(\<Sum>b\<leftarrow>[0..<k]. length (filter (\<lambda>x. f x = Some b) (x # xs))) =
      (\<Sum>b\<leftarrow>[0..<k]. length (filter (\<lambda>x. f x = Some b) xs)) + (\<Sum>b\<leftarrow>[0..<k]. of_bool (f x = Some b))"
    by (subst sum_list_addf [symmetric]) (rule arg_cong [of _ _ sum_list], rule map_cong, auto)
  moreover have "(\<Sum>b\<leftarrow>[0..<k]. of_bool (f x = Some b)) = (of_bool (\<exists>b<k. f x = Some b) :: nat)"
    by (induction k) (auto simp: less_Suc_eq)
  ultimately show ?case using Cons by simp
qed simp

lemma of_nat_sum_list: "of_nat (sum_list xs) = (sum_list (map of_nat xs) :: 'a::semiring_1)"
  by (induction xs) simp_all

lemma rendered_sums:
  assumes ok: "metrics_ok xs m" and mono: "\<forall>(_, w, _)\<in>set xs. \<forall>i j. i \<le> j \<longrightarrow> w i \<longrightarrow> w j" and i: "i < DURATION_BUCKETS"
  shows "running_sums 0 (hist_buckets (duration m)) ! i = of_nat (length (filter (\<lambda>(_, w, _). w i) xs))"
proof -
  let ?h = "hist_buckets (duration m)" and ?f = "\<lambda>(_, w, _). bucket_of w"
  have len: "length ?h = DURATION_BUCKETS" using ok by (simp add: metrics_ok_def)
  have counts: "?h ! b = of_nat (length (filter (\<lambda>x. ?f x = Some b) xs))" if "b < DURATION_BUCKETS" for b
  proof -
    have "filter (\<lambda>(_, w, _). bucket_of w = Some b) xs = filter (\<lambda>x. ?f x = Some b) xs"
      by (rule filter_cong) auto
    moreover have "\<forall>b < DURATION_BUCKETS. ?h ! b = of_nat (length (filter (\<lambda>(_, w, _). bucket_of w = Some b) xs))"
      using ok unfolding metrics_ok_def by (elim conjE)
    ultimately show ?thesis using that by presburger
  qed
  have "take (Suc i) ?h = map (\<lambda>b. ?h ! b) [0..<Suc i]"
    using len i by (intro nth_equalityI) (simp_all del: upt_Suc)
  also have "\<dots> = map (\<lambda>b. of_nat (length (filter (\<lambda>x. ?f x = Some b) xs))) [0..<Suc i]"
    using i by (intro map_cong refl counts) auto
  finally have "sum_list (take (Suc i) ?h) = of_nat (\<Sum>b\<leftarrow>[0..<Suc i]. length (filter (\<lambda>x. ?f x = Some b) xs))"
    by (simp only: of_nat_sum_list map_map comp_def)
  also have "\<dots> = of_nat (length (filter (\<lambda>x. \<exists>b<Suc i. ?f x = Some b) xs))"
    by (simp only: sum_bucket_counts)
  also have "filter (\<lambda>x. \<exists>b<Suc i. ?f x = Some b) xs = filter (\<lambda>(_, w, _). w i) xs"
  proof (rule filter_cong [OF refl])
    fix x assume "x \<in> set xs"
    moreover obtain s w u where x: "x = (s, w, u)" by (cases x)
    ultimately have "\<forall>i j. i \<le> j \<longrightarrow> w i \<longrightarrow> w j" using mono by auto
    from bucket_of_le [OF this i] show "(\<exists>b<Suc i. ?f x = Some b) \<longleftrightarrow> (case x of (_, w, _) \<Rightarrow> w i)"
      by (simp add: x less_Suc_eq_le)
  qed
  finally show ?thesis using running_sums_nth [of i ?h 0] len i by simp
qed

lemma in_render_lines:
  "s \<in> set (histogram_lines secs (duration m)) \<Longrightarrow> s \<in> set (render_lines secs fsecs m filt)"
  "c < length (status_class m) \<Longrightarrow> c < 5 \<Longrightarrow>
     labelled ''plecto_requests_total'' ''status_class'' (CLASSES ! c) (u64_text (status_class m ! c)) \<in> set (render_lines secs fsecs m filt)"
proof -
  show "s \<in> set (histogram_lines secs (duration m)) \<Longrightarrow> s \<in> set (render_lines secs fsecs m filt)"
    by (simp add: render_lines_def family_def)
  assume c: "c < length (status_class m)" "c < 5"
  then have "(CLASSES ! c, status_class m ! c) \<in> set (zip CLASSES (status_class m))"
    by (force simp: set_zip CLASSES_def)
  then show "labelled ''plecto_requests_total'' ''status_class'' (CLASSES ! c) (u64_text (status_class m ! c)) \<in> set (render_lines secs fsecs m filt)"
    by (force simp: render_lines_def family_def)
qed

lemma in_histogram_lines:
  assumes "b < DURATION_BUCKETS" "length (hist_buckets h) = DURATION_BUCKETS"
  shows "labelled ''plecto_request_duration_seconds_bucket'' ''le'' (bound_texts ! b) (u64_text (running_sums 0 (hist_buckets h) ! b))
    \<in> set (histogram_lines secs h)"
proof -
  have "length bound_texts = DURATION_BUCKETS" by (simp add: bound_texts_def DURATION_BUCKETS_def)
  then have "(bound_texts ! b, running_sums 0 (hist_buckets h) ! b) \<in> set (zip bound_texts (running_sums 0 (hist_buckets h)))"
    using assms by (force simp: set_zip)
  then show ?thesis by (force simp: histogram_lines_def)
qed

lemma newline_free_lines:
  assumes "\<And>n. newline \<notin> set (secs n)" "\<And>n. newline \<notin> set (fsecs n)" "l \<in> set (render_lines secs fsecs m filt)"
  shows "newline \<notin> set l"
proof -
  have all: "list_all (\<lambda>lv. newline \<notin> set lv) (CLASSES @ bound_texts)" by code_simp
  have "newline \<notin> set lv" if "(lv, n) \<in> set (zip CLASSES xs)" for lv and n :: u64 and xs
    using all set_zip_leftD [OF that] by (auto simp: list_all_iff)
  moreover have "newline \<notin> set lv" if "(lv, n) \<in> set (zip bound_texts xs)" for lv and n :: u64 and xs
    using all set_zip_leftD [OF that] by (auto simp: list_all_iff)
  ultimately show ?thesis
    using assms newline_dec_string
    by (fastforce simp: render_lines_def family_def counter_def histogram_lines_def labelled_def u64_text_def gauge_text_def
        newline_def quote_def)
qed

lemma render_splits:
  assumes "\<And>n. newline \<notin> set (secs n)" "\<And>n. newline \<notin> set (fsecs n)"
  shows "split_at newline (render secs fsecs m filt) = render_lines secs fsecs m filt @ [[]]"
proof -
  have "render_lines secs fsecs m filt \<noteq> []" by (simp add: render_lines_def family_def)
  then have "split_at newline (join_with newline (render_lines secs fsecs m filt)) = render_lines secs fsecs m filt"
    using newline_free_lines [OF assms] by (intro split_join) auto
  then show ?thesis by (simp add: render_def split_at_append_sep)
qed

section \<open>Properties\<close>

text \<open>C38: A scrape tells the truth. Splitting the text of the metrics at its line ends, an operator finds, of the
  requests recorded since the start, the exact number in each status class and, under each finite bound, the
  exact number of requests that took no longer than the bound; the last bucket is the number of all. The
  bounds ascend, so an observation within one is within all later ones. Counts are exact until they reach
  the width of the counters.\<close>

theorem scrape_exact:
  assumes "length xs < 2 ^ 64" "\<forall>(_, w, _)\<in>set xs. \<forall>i j. i \<le> j \<longrightarrow> w i \<longrightarrow> w j"
    and "\<And>n. newline \<notin> set (secs n)" "\<And>n. newline \<notin> set (fsecs n)"
  shows "let ls = split_at newline (render secs fsecs (record_all xs ServerMetrics_new) filt) in
    (\<forall>c<5. labelled ''plecto_requests_total'' ''status_class'' (CLASSES ! c)
       (dec_string (length (filter (\<lambda>(s, _). class_index s = c) xs))) \<in> set ls) \<and>
    (\<forall>b<12. labelled ''plecto_request_duration_seconds_bucket'' ''le'' (bound_texts ! b)
       (dec_string (length (filter (\<lambda>(_, w, _). w b) xs))) \<in> set ls) \<and>
    labelled ''plecto_request_duration_seconds_bucket'' ''le'' ''+Inf'' (dec_string (length xs)) \<in> set ls"
proof -
  let ?m = "record_all xs ServerMetrics_new"
  have ok: "metrics_ok xs ?m" using metrics_run [OF metrics_new_ok, of xs] by simp
  have exact: "u64_text (of_nat (length (filter P xs))) = dec_string (length (filter P xs))" for P
  proof -
    have "length (filter P xs) < 2 ^ 64" using assms(1) length_filter_le [of P xs] by linarith
    then show ?thesis by (simp add: u64_text_def unat_of_nat)
  qed
  have len: "length (status_class ?m) = 5" "length (hist_buckets (duration ?m)) = DURATION_BUCKETS"
    using ok by (simp_all add: metrics_ok_def)
  have cls: "status_class ?m ! c = of_nat (length (filter (\<lambda>(s, _). class_index s = c) xs))" if "c < 5" for c
    using ok that by (simp add: metrics_ok_def)
  have all: "hist_count (duration ?m) = of_nat (length xs)" using ok by (simp add: metrics_ok_def)
  have "labelled ''plecto_requests_total'' ''status_class'' (CLASSES ! c)
      (dec_string (length (filter (\<lambda>(s, _). class_index s = c) xs))) \<in> set (render_lines secs fsecs ?m filt)" if "c < 5" for c
    using in_render_lines(2) [of c ?m secs fsecs filt] len(1) that cls [OF that] exact by simp
  moreover have "labelled ''plecto_request_duration_seconds_bucket'' ''le'' (bound_texts ! b)
      (dec_string (length (filter (\<lambda>(_, w, _). w b) xs))) \<in> set (render_lines secs fsecs ?m filt)" if "b < 12" for b
  proof -
    have b: "b < DURATION_BUCKETS" using that by (simp add: DURATION_BUCKETS_def)
    show ?thesis
      using in_render_lines(1) [OF in_histogram_lines [OF b len(2)]] rendered_sums [OF ok assms(2) b] exact by simp
  qed
  moreover have "labelled ''plecto_request_duration_seconds_bucket'' ''le'' ''+Inf'' (dec_string (length xs))
      \<in> set (render_lines secs fsecs ?m filt)"
    using in_render_lines(1) [of _ secs ?m] all exact [of "\<lambda>_. True"] by (simp add: histogram_lines_def)
  ultimately show ?thesis using render_splits [OF assms(3,4)] by (simp add: Let_def)
qed

theorem scrape_exact_witness:
  "let ls = split_at newline (render (\<lambda>_. ''0.003'') (\<lambda>_. ''0'')
       (record_all [(200, \<lambda>i. 1 \<le> i, 3000), (503, \<lambda>i. 4 \<le> i, 50000)] ServerMetrics_new) (sink_snapshot MetricsSink_new)) in
   ''plecto_requests_total{status_class='' @ [quote] @ ''5xx'' @ [quote] @ ''} 1'' \<in> set ls \<and>
   ''plecto_request_duration_seconds_bucket{le='' @ [quote] @ ''0.05'' @ [quote] @ ''} 2'' \<in> set ls \<and>
   ''plecto_request_duration_seconds_bucket{le='' @ [quote] @ ''0.025'' @ [quote] @ ''} 1'' \<in> set ls"
proof -
  let ?xs = "[(200, \<lambda>i. 1 \<le> i, 3000), (503, \<lambda>i. 4 \<le> i, 50000)] :: sample list"
  have free: "newline \<notin> set ''0.003''" "newline \<notin> set ''0''" by (simp_all add: newline_def)
  have cls: "class_index 200 = 1" "class_index 503 = 4" by code_simp+
  have num: "dec_string (Suc 0) = ''1''" "dec_string (Suc (Suc 0)) = ''2''" by code_simp+
  have "length ?xs < 2 ^ 64" "\<forall>(_, w, _)\<in>set ?xs. \<forall>i j. i \<le> j \<longrightarrow> w i \<longrightarrow> w j" by auto
  note s = scrape_exact [OF this, of "\<lambda>_. ''0.003''" "\<lambda>_. ''0''" "sink_snapshot MetricsSink_new", OF free, unfolded Let_def]
  from s have "\<forall>c<5. labelled ''plecto_requests_total'' ''status_class'' (CLASSES ! c)
       (dec_string (length (filter (\<lambda>(s, _). class_index s = c) ?xs)))
       \<in> set (split_at newline (render (\<lambda>_. ''0.003'') (\<lambda>_. ''0'') (record_all ?xs ServerMetrics_new) (sink_snapshot MetricsSink_new)))"
    and "\<forall>b<12. labelled ''plecto_request_duration_seconds_bucket'' ''le'' (bound_texts ! b)
       (dec_string (length (filter (\<lambda>(_, w, _). w b) ?xs)))
       \<in> set (split_at newline (render (\<lambda>_. ''0.003'') (\<lambda>_. ''0'') (record_all ?xs ServerMetrics_new) (sink_snapshot MetricsSink_new)))"
    by blast+
  from this(1) [rule_format, of 4] this(2) [rule_format, of 4] this(2) [rule_format, of 3]
  show ?thesis
    by (simp add: labelled_def CLASSES_def bound_texts_def cls num Let_def del: record_all.simps)
qed

text \<open>The admin endpoint answers with 200 exactly for its three paths, whatever the state of the server; the
  metrics page is the rendered text.\<close>

theorem admin_total:
  assumes "\<And>s. value_from_str lib s = Some (str_bytes s)"
  shows "(res_status (admin_handle lib secs fsecs m sink path) = 200 \<longleftrightarrow> path \<in> {''/metrics'', ''/healthz'', ''/readyz''}) \<and>
    res_body (admin_handle lib secs fsecs m sink ''/metrics'') = FullBody (str_bytes (render secs fsecs m (sink_snapshot sink)))"
  using assms by (auto simp: admin_handle_def filter_metrics_def Let_def)

text \<open>The same request with another query and with any headers in the place of its own, \<open>Host\<close> aside.\<close>

definition reheaded :: "Parts \<Rightarrow> HeaderMap \<Rightarrow> string \<Rightarrow> Parts" where
  "reheaded parts headers query =
     parts\<lparr>pt_headers := filter (\<lambda>(n, _). n = ''host'') (pt_headers parts) @ filter (\<lambda>(n, _). n \<noteq> ''host'') headers,
           pt_path_and_query := map_option (\<lambda>pq. takeWhile (\<lambda>c. c \<noteq> CHR ''?'') pq @ CHR ''?'' # query) (pt_path_and_query parts)\<rparr>"

lemma get_first_reheaded: "get_first (pt_headers (reheaded parts hs q)) ''host'' = get_first (pt_headers parts) ''host''"
proof -
  have "get_all (filter (\<lambda>(n, _). n \<noteq> ''host'') hs) ''host'' = []" by (auto simp: get_all_def filter_empty_conv)
  moreover have "get_all (filter (\<lambda>(n, _). n = ''host'') hs) ''host'' = get_all hs ''host''" for hs
    by (induction hs) (auto simp: get_all_def)
  ultimately show ?thesis by (simp add: get_first_def reheaded_def get_all_append)
qed

lemma capture_reheaded: "capture_access lib on (reheaded parts hs q) = capture_access lib on parts"
proof -
  have "takeWhile (\<lambda>c. c \<noteq> CHR ''?'') (takeWhile (\<lambda>c. c \<noteq> CHR ''?'') pq @ CHR ''?'' # q) = takeWhile (\<lambda>c. c \<noteq> CHR ''?'') pq"
    for pq :: string by (subst takeWhile_append2) (auto dest: set_takeWhileD)
  then have "uri_path (reheaded parts hs q) = uri_path parts"
    by (cases "pt_path_and_query parts") (simp_all add: uri_path_def reheaded_def Let_def)
  moreover have "request_authority lib (reheaded parts hs q) = request_authority lib parts"
  proof -
    have "pt_uri_authority (reheaded parts hs q) = pt_uri_authority parts" by (simp add: reheaded_def)
    then show ?thesis
      by (cases "pt_uri_authority parts") (simp_all add: request_authority_def get_first_reheaded)
  qed
  ultimately show ?thesis by (simp add: capture_access_def) (simp add: reheaded_def)
qed

text \<open>C39: The access log carries no secret of the request. When it is on, a transaction that ends logs exactly one
  event, whatever its outcome, with the status of the result; a request that differs only in its query and
  in its headers, \<open>Host\<close> aside, and ends with the same status leaves the same event. When it is off,
  nothing is logged.\<close>

theorem access_log_discreet:
  assumes "proxy_core_logged sl ms tx st = Some (r, st', evs)"
  shows "length evs = of_bool (access_log (ct_observability (ss_control st))) \<and>
    (\<forall>ev\<in>set evs. map_of ev ''status'' = Some (dec_string (unat (result_status r)))) \<and>
    (\<forall>hs q r2 st2 evs2. proxy_core_logged sl ms (tx\<lparr>tx_parts := reheaded (tx_parts tx) hs q\<rparr>) st = Some (r2, st2, evs2) \<longrightarrow>
       result_status r2 = result_status r \<longrightarrow> evs2 = evs)"
proof -
  have evs: "evs = (case capture_access (sl_http sl) (access_log_enabled (ss_control st)) (tx_parts tx) of
       None \<Rightarrow> [] | Some access \<Rightarrow> [access_record (tx_scheme tx) (tx_peer tx) access (result_status r) ms])"
    using assms by (auto simp: proxy_core_logged_def)
  moreover have "evs2 = evs" if "proxy_core_logged sl ms (tx\<lparr>tx_parts := reheaded (tx_parts tx) hs q\<rparr>) st = Some (r2, st2, evs2)"
    "result_status r2 = result_status r" for hs q r2 st2 evs2
    using that by (auto simp: proxy_core_logged_def capture_reheaded evs split: option.splits)
  ultimately show ?thesis
    by (auto simp: capture_access_def access_log_enabled_def access_record_def split: if_splits)
qed

definition example_logged :: "(unit, unit) ServerState" where
  "example_logged = example_server\<lparr>ss_control := (ss_control example_server)\<lparr>ct_observability := \<lparr>admin_addr = None, access_log = True\<rparr>\<rparr>\<rparr>"

theorem access_log_discreet_witness:
  "\<exists>r st' ev. proxy_core_logged example_sl 3 (example_tx\<lparr>tx_parts := (tx_parts example_tx)\<lparr>pt_path_and_query := Some ''/../a''\<rparr>\<rparr>) example_logged =
       Some (r, st', [ev]) \<and> map_of ev ''status'' = Some ''400''"
proof -
  let ?tx = "example_tx\<lparr>tx_parts := (tx_parts example_tx)\<lparr>pt_path_and_query := Some ''/../a''\<rparr>\<rparr>"
  have "normalize_path (req_path (to_http_request (sl_http example_sl) (tx_parts ?tx) (tx_scheme ?tx))) = None" by code_simp
  then obtain r st' evs where l: "proxy_core_logged example_sl 3 ?tx example_logged = Some (r, st', evs)" "result_status r = 400"
    by (simp add: proxy_core_logged_def proxy_core_def proxy_core_inner_def admit_request_def result_status_def synth_def)
  have "dec_string (unat (400 :: u16)) = ''400''" by code_simp
  moreover have "access_log (ct_observability (ss_control example_logged))" by (simp add: example_logged_def)
  ultimately show ?thesis
    using access_log_discreet [OF l(1)] l by (auto simp: length_Suc_conv)
qed

end
