(* ===== verification/Listener.thy ===== *)
theory Listener
  imports Admin
begin

text \<open>
  The listeners, \<open>server/src/listener.rs\<close> and \<open>server/src/h3\<close>: start-up, the two accept loops
  that share one limit of connections, the life of a connection, and graceful shutdown. Each arm of
  a \<open>select!\<close> is one event; a function gives the state after an event, or nothing when the arm
  is not ready, and the runtime may pick any arm that is. The sockets, TLS, QUIC and the framing of
  HTTP are the events' arguments. The request limit of a connection is the one the code hands to
  \<open>hyper\<close> and \<open>quinn\<close>.
\<close>

section \<open>Counting semaphores\<close>

text \<open>A semaphore whose permits are only taken and given back: every step keeps what is available plus
  what is held.\<close>

locale semaphore =
  fixes init :: "'s \<Rightarrow> bool"
    and step :: "'s \<Rightarrow> 's \<Rightarrow> bool"
    and available :: "'s \<Rightarrow> nat"
    and holders :: "'s \<Rightarrow> nat"
    and cap :: nat
  assumes full: "init s \<Longrightarrow> available s + holders s = cap"
    and conserves: "step s s' \<Longrightarrow> available s' + holders s' = available s + holders s"
begin

lemma accounted:
  assumes "init s" "step\<^sup>*\<^sup>* s s'"
  shows "available s' + holders s' = cap"
  using assms(2) by induction (simp_all add: full assms(1) conserves)

lemma capped: "init s \<Longrightarrow> step\<^sup>*\<^sup>* s s' \<Longrightarrow> holders s' \<le> cap"
  using accounted [of s s'] by simp

lemma free_iff: "init s \<Longrightarrow> step\<^sup>*\<^sup>* s s' \<Longrightarrow> available s' = cap \<longleftrightarrow> holders s' = 0"
  using accounted [of s s'] by auto

end

section \<open>Start-up\<close>

definition MAX_CONNECTIONS :: nat where "MAX_CONNECTIONS = 10000"
definition MAX_CONCURRENT_STREAMS :: nat where "MAX_CONCURRENT_STREAMS = 100"
definition MAX_INFLIGHT_BODY_BUFFERS :: nat where "MAX_INFLIGHT_BODY_BUFFERS = 64"

definition alt_svc_of :: "http_lib \<Rightarrow> u16 \<Rightarrow> 'tls option \<Rightarrow> bytes option" where
  "alt_svc_of lib port quic_cfg =
     Option.bind quic_cfg
       (\<lambda>_. value_from_str lib (''h3='' @ [quote] @ '':'' @ dec_string (unat port) @ [quote] @ ''; ma=86400''))"

definition admin_listener :: "(string \<Rightarrow> SocketAddr option) \<Rightarrow> string option \<Rightarrow> SocketAddr option" where
  "admin_listener parse configured = Option.bind configured parse"

datatype loop_pc = LoopIdle | LoopHolding | LoopStopped

datatype protocol = H1 | H2 | H3

datatype stage = Handshake | Serving string protocol | Closing string protocol

record 'tls Connection =
  cn_quic :: bool
  cn_peer :: SocketAddr
  cn_tls :: "'tls option"
  cn_stage :: stage
  cn_streams :: nat

datatype serve_phase = Accepting | Draining | Returned bool

text \<open>\<open>ls_finished\<close> counts the tasks of finished connections that the join set has not reaped.\<close>

record 'tls Listener =
  ls_permits :: nat
  ls_tcp :: loop_pc
  ls_h3 :: loop_pc
  ls_conns :: "'tls Connection list"
  ls_finished :: nat
  ls_drain :: bool
  ls_phase :: serve_phase
  ls_tls :: "'tls option"
  ls_quic :: "'tls option"

definition listener_new :: "bool \<Rightarrow> 'tls option \<Rightarrow> 'tls option \<Rightarrow> 'tls Listener" where
  "listener_new bound tls quic_cfg =
     \<lparr>ls_permits = MAX_CONNECTIONS, ls_tcp = LoopIdle, ls_h3 = (if bound then LoopIdle else LoopStopped), ls_conns = [],
      ls_finished = 0, ls_drain = False, ls_phase = Accepting, ls_tls = tls, ls_quic = quic_cfg\<rparr>"

text \<open>\<open>local_port\<close> is the port of the bound socket; \<open>endpoint\<close> tells whether a QUIC endpoint could be
  built from a configuration. A failure there leaves the server on TCP only.\<close>

definition serve_start ::
    "http_lib \<Rightarrow> u16 option \<Rightarrow> ('tls \<Rightarrow> u16 \<Rightarrow> bool) \<Rightarrow> (string \<Rightarrow> SocketAddr option) \<Rightarrow> ('w, 'tls) Control \<Rightarrow>
     ServerError + 'tls Listener \<times> bytes option \<times> SocketAddr option" where
  "serve_start lib local_port endpoint parse c =
     (case local_port of
        None \<Rightarrow> Inl Bind
      | Some port \<Rightarrow>
          (let quic_cfg = ac_quic_tls (ct_active c);
               bound = (case quic_cfg of None \<Rightarrow> False | Some cfg \<Rightarrow> endpoint cfg port)
           in Inr (listener_new bound (ac_tls (ct_active c)) quic_cfg, alt_svc_of lib port quic_cfg,
                   admin_listener parse (control_admin_addr c))))"

section \<open>The accept loop of TCP\<close>

datatype accept_event =
  Acquired
| Reaped
| Accepted SocketAddr
| AcceptFailed

text \<open>A permit that is not moved into a connection task is dropped when the loop continues.\<close>

definition drop_held :: "loop_pc \<Rightarrow> 'tls Listener \<Rightarrow> 'tls Listener" where
  "drop_held pc s = (if pc = LoopHolding then s\<lparr>ls_permits := ls_permits s + 1\<rparr> else s)"

definition accept_loop :: "accept_event \<Rightarrow> 'tls Listener \<Rightarrow> 'tls Listener option" where
  "accept_loop e s =
     (if ls_phase s \<noteq> Accepting then None
      else case e of
        Acquired \<Rightarrow>
          (if ls_tcp s = LoopIdle \<and> 0 < ls_permits s
           then Some (s\<lparr>ls_permits := ls_permits s - 1, ls_tcp := LoopHolding\<rparr>) else None)
      | Reaped \<Rightarrow>
          (if 0 < ls_finished s
           then Some ((drop_held (ls_tcp s) s)\<lparr>ls_finished := ls_finished s - 1, ls_tcp := LoopIdle\<rparr>) else None)
      | Accepted peer \<Rightarrow>
          (if ls_tcp s = LoopHolding
           then Some (s\<lparr>ls_tcp := LoopIdle,
             ls_conns := ls_conns s @
               [\<lparr>cn_quic = False, cn_peer = peer, cn_tls = ls_tls s,
                 cn_stage = (case ls_tls s of Some _ \<Rightarrow> Handshake | None \<Rightarrow> Serving ''http'' H1), cn_streams = 0\<rparr>]\<rparr>)
           else None)
      | AcceptFailed \<Rightarrow> if ls_tcp s = LoopHolding then Some ((drop_held LoopHolding s)\<lparr>ls_tcp := LoopIdle\<rparr>) else None)"

text \<open>The shutdown future resolves: the loop is left, the listener dropped, the drain flag set.\<close>

definition begin_drain :: "'tls Listener \<Rightarrow> 'tls Listener option" where
  "begin_drain s =
     (if ls_phase s = Accepting
      then Some ((drop_held (ls_tcp s) s)\<lparr>ls_tcp := LoopStopped, ls_drain := True, ls_phase := Draining\<rparr>) else None)"

section \<open>The accept loop of HTTP/3\<close>

datatype h3_event = H3Drained | H3Acquired | H3EndpointClosed | H3Incoming SocketAddr

definition serve_h3 :: "h3_event \<Rightarrow> 'tls Listener \<Rightarrow> 'tls Listener option" where
  "serve_h3 e s =
     (case e of
        H3Drained \<Rightarrow>
          (if ls_drain s \<and> ls_h3 s \<noteq> LoopStopped then Some ((drop_held (ls_h3 s) s)\<lparr>ls_h3 := LoopStopped\<rparr>) else None)
      | H3Acquired \<Rightarrow>
          (if ls_h3 s = LoopIdle \<and> 0 < ls_permits s
           then Some (s\<lparr>ls_permits := ls_permits s - 1, ls_h3 := LoopHolding\<rparr>) else None)
      | H3EndpointClosed \<Rightarrow> if ls_h3 s = LoopHolding then Some ((drop_held LoopHolding s)\<lparr>ls_h3 := LoopStopped\<rparr>) else None
      | H3Incoming peer \<Rightarrow>
          (if ls_h3 s = LoopHolding
           then Some (s\<lparr>ls_h3 := LoopIdle,
             ls_conns := ls_conns s @
               [\<lparr>cn_quic = True, cn_peer = peer, cn_tls = ls_quic s, cn_stage = Handshake, cn_streams = 0\<rparr>]\<rparr>)
           else None))"

section \<open>One connection\<close>

datatype conn_event =
  HandshakeOk "bytes option"
| HandshakeFailed
| RequestBegins
| RequestEnds
| DrainSeen
| ConnectionEnds

text \<open>The task ends, its permit is dropped; the join set holds only the tasks of TCP connections.\<close>

definition end_conn :: "nat \<Rightarrow> 'tls Listener \<Rightarrow> 'tls Listener" where
  "end_conn i s =
     s\<lparr>ls_conns := take i (ls_conns s) @ drop (Suc i) (ls_conns s), ls_permits := ls_permits s + 1,
       ls_finished := (if cn_quic (ls_conns s ! i) then ls_finished s else ls_finished s + 1)\<rparr>"

definition put_conn :: "nat \<Rightarrow> 'tls Connection \<Rightarrow> 'tls Listener \<Rightarrow> 'tls Listener" where
  "put_conn i c s = s\<lparr>ls_conns := (ls_conns s)[i := c]\<rparr>"

definition stream_cap :: "protocol \<Rightarrow> nat" where
  "stream_cap p = (if p = H1 then 1 else MAX_CONCURRENT_STREAMS)"

definition negotiated :: "'tls Connection \<Rightarrow> bytes option \<Rightarrow> stage" where
  "negotiated c alpn =
     (if cn_quic c then Serving ''https'' H3
      else Serving ''https'' (if alpn = Some (str_bytes ''h2'') then H2 else H1))"

definition serve_conn :: "conn_event \<Rightarrow> nat \<Rightarrow> 'tls Listener \<Rightarrow> 'tls Listener option" where
  "serve_conn e i s =
     (if length (ls_conns s) \<le> i then None
      else let c = ls_conns s ! i in
        case cn_stage c of
          Handshake \<Rightarrow>
            (case e of
               HandshakeOk alpn \<Rightarrow> Some (put_conn i (c\<lparr>cn_stage := negotiated c alpn\<rparr>) s)
             | HandshakeFailed \<Rightarrow> Some (end_conn i s)
             | _ \<Rightarrow> None)
        | Serving scheme p \<Rightarrow>
            (case e of
               RequestBegins \<Rightarrow> if cn_streams c < stream_cap p then Some (put_conn i (c\<lparr>cn_streams := cn_streams c + 1\<rparr>) s) else None
             | RequestEnds \<Rightarrow> if 0 < cn_streams c then Some (put_conn i (c\<lparr>cn_streams := cn_streams c - 1\<rparr>) s) else None
             | DrainSeen \<Rightarrow>
                 (if \<not> ls_drain s then None
                  else if cn_quic c then Some (end_conn i s)
                  else Some (put_conn i (c\<lparr>cn_stage := Closing scheme p\<rparr>) s))
             | ConnectionEnds \<Rightarrow> Some (end_conn i s)
             | _ \<Rightarrow> None)
        | Closing scheme p \<Rightarrow>
            (case e of
               RequestEnds \<Rightarrow> if 0 < cn_streams c then Some (put_conn i (c\<lparr>cn_streams := cn_streams c - 1\<rparr>) s) else None
             | ConnectionEnds \<Rightarrow> Some (end_conn i s)
             | _ \<Rightarrow> None))"

section \<open>The end of serving\<close>

datatype drain_event = AllDrained | DeadlineExpired

text \<open>\<open>abort_all\<close> cuts the tasks of the join set, and their permits are dropped.\<close>

definition finish_drain :: "drain_event \<Rightarrow> 'tls Listener \<Rightarrow> 'tls Listener option" where
  "finish_drain e s =
     (if ls_phase s \<noteq> Draining then None
      else case e of
        AllDrained \<Rightarrow> if ls_permits s = MAX_CONNECTIONS then Some (s\<lparr>ls_phase := Returned True\<rparr>) else None
      | DeadlineExpired \<Rightarrow>
          Some (s\<lparr>ls_phase := Returned False, ls_conns := filter cn_quic (ls_conns s),
                  ls_permits := ls_permits s + length (filter (\<lambda>c. \<not> cn_quic c) (ls_conns s))\<rparr>))"

section \<open>Interleaving\<close>

text \<open>A configuration swap changes what the next TCP connection is accepted with.\<close>

datatype 'tls event =
  AcceptLoop accept_event
| ShutdownResolved
| H3Loop h3_event
| Conn conn_event nat
| Finish drain_event
| Swapped "'tls option"

fun listener_event :: "'tls event \<Rightarrow> 'tls Listener \<Rightarrow> 'tls Listener option" where
  "listener_event (AcceptLoop e) s = accept_loop e s"
| "listener_event ShutdownResolved s = begin_drain s"
| "listener_event (H3Loop e) s = serve_h3 e s"
| "listener_event (Conn e i) s = serve_conn e i s"
| "listener_event (Finish e) s = finish_drain e s"
| "listener_event (Swapped tls) s = Some (s\<lparr>ls_tls := tls\<rparr>)"

inductive listener_step :: "'tls Listener \<Rightarrow> 'tls Listener \<Rightarrow> bool" where
  event: "listener_event e s = Some s' \<Longrightarrow> listener_step s s'"

inductive_cases listener_stepE: "listener_step s s'"

definition started :: "'tls Listener \<Rightarrow> bool" where
  "started s \<longleftrightarrow> (\<exists>bound tls quic_cfg. (bound \<longrightarrow> quic_cfg \<noteq> None) \<and> s = listener_new bound tls quic_cfg)"

lemma serve_start_started:
  assumes "serve_start lib p endpoint parse c = Inr (s, alt, admin)"
  shows "started s"
proof -
  obtain port where "p = Some port" using assms by (cases p) (simp_all add: serve_start_def)
  then have "s = listener_new (case ac_quic_tls (ct_active c) of None \<Rightarrow> False | Some cfg \<Rightarrow> endpoint cfg port)
      (ac_tls (ct_active c)) (ac_quic_tls (ct_active c))"
    using assms by (simp add: serve_start_def Let_def)
  then show ?thesis unfolding started_def by (intro exI conjI) (auto split: option.splits)
qed

fun run_events :: "'tls event list \<Rightarrow> 'tls Listener \<Rightarrow> 'tls Listener option" where
  "run_events [] s = Some s"
| "run_events (e # es) s = (case listener_event e s of None \<Rightarrow> None | Some s' \<Rightarrow> run_events es s')"

section \<open>Permits\<close>

text \<open>What a connection is at each stage: no request before the handshake, the scheme of its transport, and
  anything but HTTP/1.1 only over TLS.\<close>

definition conn_ok :: "'tls Connection \<Rightarrow> bool" where
  "conn_ok c \<longleftrightarrow>
     (case cn_stage c of
        Handshake \<Rightarrow> cn_streams c = 0 \<and> (cn_tls c \<noteq> None)
      | Serving scheme p \<Rightarrow>
          cn_streams c \<le> stream_cap p \<and> (cn_quic c \<longleftrightarrow> p = H3) \<and> scheme = (if cn_tls c = None then ''http'' else ''https'') \<and>
          (p \<noteq> H1 \<longrightarrow> cn_tls c \<noteq> None)
      | Closing scheme p \<Rightarrow>
          cn_streams c \<le> stream_cap p \<and> \<not> cn_quic c \<and> p \<noteq> H3 \<and> scheme = (if cn_tls c = None then ''http'' else ''https'') \<and>
          (p \<noteq> H1 \<longrightarrow> cn_tls c \<noteq> None))"

definition held_by :: "loop_pc \<Rightarrow> nat" where
  "held_by pc = of_bool (pc = LoopHolding)"

definition permits_held :: "'tls Listener \<Rightarrow> nat" where
  "permits_held s = length (ls_conns s) + held_by (ls_tcp s) + held_by (ls_h3 s)"

lemmas permit_defs = permits_held_def held_by_def drop_held_def put_conn_def

lemma end_conn_permits:
  "i < length (ls_conns s) \<Longrightarrow> ls_permits (end_conn i s) + permits_held (end_conn i s) = ls_permits s + permits_held s"
  by (simp add: end_conn_def permit_defs)

lemma accept_loop_permits:
  "accept_loop e s = Some s' \<Longrightarrow> ls_permits s' + permits_held s' = ls_permits s + permits_held s"
  by (cases "ls_tcp s") (auto simp: accept_loop_def permit_defs split: accept_event.splits if_splits)

lemma serve_h3_permits: "serve_h3 e s = Some s' \<Longrightarrow> ls_permits s' + permits_held s' = ls_permits s + permits_held s"
  by (cases "ls_h3 s") (auto simp: serve_h3_def permit_defs split: h3_event.splits if_splits)

lemma begin_drain_permits: "begin_drain s = Some s' \<Longrightarrow> ls_permits s' + permits_held s' = ls_permits s + permits_held s"
  by (cases "ls_tcp s") (auto simp: begin_drain_def permit_defs split: if_splits)

lemma serve_conn_cases:
  assumes "serve_conn e i s = Some s'"
  obtains (ended) "i < length (ls_conns s)" "s' = end_conn i s"
  | (kept) c where "i < length (ls_conns s)" "s' = put_conn i c s"
      "cn_quic c = cn_quic (ls_conns s ! i)" "cn_tls c = cn_tls (ls_conns s ! i)"
      "conn_ok (ls_conns s ! i) \<Longrightarrow> conn_ok c"
proof -
  have i: "i < length (ls_conns s)" using assms by (auto simp: serve_conn_def split: if_splits)
  show ?thesis
  proof (cases "s' = end_conn i s")
    case True
    then show ?thesis using ended i by blast
  next
    case False
    then show ?thesis
      using assms i
      by (auto simp: serve_conn_def Let_def conn_ok_def negotiated_def stream_cap_def MAX_CONCURRENT_STREAMS_def
          split: stage.splits conn_event.splits if_splits intro!: kept)
  qed
qed

lemma serve_conn_permits: "serve_conn e i s = Some s' \<Longrightarrow> ls_permits s' + permits_held s' = ls_permits s + permits_held s"
  by (erule serve_conn_cases) (simp_all add: end_conn_permits, simp add: permit_defs)

lemma finish_drain_permits: "finish_drain e s = Some s' \<Longrightarrow> ls_permits s' + permits_held s' = ls_permits s + permits_held s"
  using sum_length_filter_compl [of cn_quic "ls_conns s"]
  by (auto simp: finish_drain_def permit_defs split: drain_event.splits if_splits)

lemma listener_event_permits:
  "listener_event e s = Some s' \<Longrightarrow> ls_permits s' + permits_held s' = ls_permits s + permits_held s"
  by (cases e)
    (auto dest: accept_loop_permits begin_drain_permits serve_h3_permits serve_conn_permits finish_drain_permits
      simp: permit_defs)

interpretation conns: semaphore started listener_step ls_permits permits_held MAX_CONNECTIONS
proof
  show "ls_permits s + permits_held s = MAX_CONNECTIONS" if "started s" for s :: "'tls Listener"
    using that by (auto simp: started_def listener_new_def permit_defs split: if_splits)
  show "ls_permits s' + permits_held s' = ls_permits s + permits_held s" if "listener_step s s'" for s s' :: "'tls Listener"
    using that by (auto elim!: listener_stepE dest: listener_event_permits)
qed

section \<open>What every state of the listener satisfies\<close>

definition conns_ok :: "'tls option \<Rightarrow> serve_phase \<Rightarrow> 'tls Connection set \<Rightarrow> bool" where
  "conns_ok quic_cfg phase C \<longleftrightarrow>
     (\<forall>c\<in>C. conn_ok c \<and> (cn_quic c \<longrightarrow> cn_tls c = quic_cfg) \<and> (\<forall>r. phase = Returned r \<longrightarrow> cn_quic c))"

definition flags_ok :: "loop_pc \<Rightarrow> loop_pc \<Rightarrow> 'tls option \<Rightarrow> bool \<Rightarrow> serve_phase \<Rightarrow> bool" where
  "flags_ok tcp h3 quic_cfg drain phase \<longleftrightarrow>
     (h3 \<noteq> LoopStopped \<longrightarrow> quic_cfg \<noteq> None) \<and>
     (if phase = Accepting then \<not> drain \<and> tcp \<noteq> LoopStopped else drain \<and> tcp = LoopStopped)"

definition listener_ok :: "'tls Listener \<Rightarrow> bool" where
  "listener_ok s \<longleftrightarrow>
     conns_ok (ls_quic s) (ls_phase s) (set (ls_conns s)) \<and>
     flags_ok (ls_tcp s) (ls_h3 s) (ls_quic s) (ls_drain s) (ls_phase s)"

lemma conns_ok_subset: "conns_ok q ph C \<Longrightarrow> D \<subseteq> C \<Longrightarrow> conns_ok q ph D"
  by (auto simp: conns_ok_def)

lemma conns_ok_insert:
  "conns_ok q ph (insert c C) \<longleftrightarrow>
     conn_ok c \<and> (cn_quic c \<longrightarrow> cn_tls c = q) \<and> (\<forall>r. ph = Returned r \<longrightarrow> cn_quic c) \<and> conns_ok q ph C"
  by (auto simp: conns_ok_def)

lemma listener_new_ok: "started s \<Longrightarrow> listener_ok s"
  by (auto simp: started_def listener_new_def listener_ok_def conns_ok_def flags_ok_def)

lemma end_conn_ok [inv_intros]:
  assumes "listener_ok s"
  shows "listener_ok (end_conn i s)"
proof -
  have "set (ls_conns (end_conn i s)) \<subseteq> set (ls_conns s)"
    by (auto simp: end_conn_def dest: in_set_takeD in_set_dropD)
  then have "conns_ok (ls_quic s) (ls_phase s) (set (ls_conns (end_conn i s)))"
    using assms conns_ok_subset by (auto simp: listener_ok_def)
  then show ?thesis using assms by (simp add: listener_ok_def end_conn_def)
qed

lemma put_conn_ok [inv_intros]:
  assumes "listener_ok s" "i < length (ls_conns s)" "conn_ok c"
    and "cn_quic c = cn_quic (ls_conns s ! i)" "cn_tls c = cn_tls (ls_conns s ! i)"
  shows "listener_ok (put_conn i c s)"
proof -
  have at: "ls_conns s ! i \<in> set (ls_conns s)" using assms(2) by simp
  have C: "conns_ok (ls_quic s) (ls_phase s) (set (ls_conns s))" using assms(1) by (simp add: listener_ok_def)
  then have "conns_ok (ls_quic s) (ls_phase s) (insert c (set (ls_conns s)))"
    using at assms(3-5) by (auto simp: conns_ok_def)
  then have "conns_ok (ls_quic s) (ls_phase s) (set ((ls_conns s)[i := c]))"
    by (rule conns_ok_subset) (rule set_update_subset_insert)
  then show ?thesis using assms(1) by (simp add: listener_ok_def put_conn_def)
qed

lemma conn_at_ok: "listener_ok s \<Longrightarrow> i < length (ls_conns s) \<Longrightarrow> conn_ok (ls_conns s ! i)"
  by (simp add: listener_ok_def conns_ok_def)

lemma serve_conn_ok [inv_intros]: "serve_conn e i s = Some s' \<Longrightarrow> listener_ok s \<Longrightarrow> listener_ok s'"
  by (erule serve_conn_cases) (auto intro: inv_intros conn_at_ok)

lemma drop_held_fields [simp]:
  "ls_conns (drop_held pc s) = ls_conns s" "ls_tcp (drop_held pc s) = ls_tcp s" "ls_h3 (drop_held pc s) = ls_h3 s"
  "ls_drain (drop_held pc s) = ls_drain s" "ls_phase (drop_held pc s) = ls_phase s" "ls_quic (drop_held pc s) = ls_quic s"
  "ls_tls (drop_held pc s) = ls_tls s"
  by (simp_all add: drop_held_def)

lemma accept_loop_ok [inv_intros]: "accept_loop e s = Some s' \<Longrightarrow> listener_ok s \<Longrightarrow> listener_ok s'"
  by (cases e)
    (auto simp: accept_loop_def listener_ok_def flags_ok_def conns_ok_insert conn_ok_def stream_cap_def
      split: if_splits option.splits)

lemma serve_h3_ok [inv_intros]: "serve_h3 e s = Some s' \<Longrightarrow> listener_ok s \<Longrightarrow> listener_ok s'"
  by (cases e)
    (auto simp: serve_h3_def listener_ok_def flags_ok_def conns_ok_insert conn_ok_def split: if_splits)

lemma begin_drain_ok [inv_intros]: "begin_drain s = Some s' \<Longrightarrow> listener_ok s \<Longrightarrow> listener_ok s'"
  by (auto simp: begin_drain_def listener_ok_def flags_ok_def conns_ok_def split: if_splits)

lemma all_free_iff:
  assumes "ls_permits s + permits_held s = MAX_CONNECTIONS"
  shows "ls_permits s = MAX_CONNECTIONS \<longleftrightarrow> ls_conns s = [] \<and> ls_tcp s \<noteq> LoopHolding \<and> ls_h3 s \<noteq> LoopHolding"
  using assms by (auto simp: permit_defs)

lemma finish_drain_ok:
  assumes "finish_drain e s = Some s'" "listener_ok s" "ls_permits s + permits_held s = MAX_CONNECTIONS"
  shows "listener_ok s'"
  using assms(1,2) all_free_iff [OF assms(3)]
  by (cases e) (auto simp: finish_drain_def listener_ok_def flags_ok_def conns_ok_def split: if_splits)

lemma listener_event_ok:
  assumes "listener_event e s = Some s'" "listener_ok s" "ls_permits s + permits_held s = MAX_CONNECTIONS"
  shows "listener_ok s'"
proof (cases e)
  case (Finish f)
  then show ?thesis using assms finish_drain_ok by simp
next
  case (Swapped tls)
  then show ?thesis using assms by (auto simp: listener_ok_def)
qed (use assms in \<open>auto intro: inv_intros\<close>)

lemma listener_reachable_ok:
  assumes "started s0" "listener_step\<^sup>*\<^sup>* s0 s"
  shows "listener_ok s"
  using assms(2)
proof induction
  case base
  show ?case using assms(1) by (rule listener_new_ok)
next
  case (step s1 s2)
  then show ?case
    using conns.accounted [OF assms(1) step.hyps(1)] by (auto elim!: listener_stepE intro: listener_event_ok)
qed

lemma run_events_reachable: "run_events es s = Some s' \<Longrightarrow> listener_step\<^sup>*\<^sup>* s s'"
  by (induction es arbitrary: s)
    (auto split: option.splits intro: converse_rtranclp_into_rtranclp listener_step.event)

lemma run_events_append:
  "run_events es s = Some s1 \<Longrightarrow> run_events (es @ fs) s = run_events fs s1"
  by (induction es arbitrary: s) (auto split: option.splits)

section \<open>Winding down\<close>

definition winding :: "'tls event set" where
  "winding = {Conn HandshakeFailed 0, Conn ConnectionEnds 0, H3Loop H3Drained, Finish AllDrained}"

lemma first_ends:
  assumes "ls_conns s = c # cs"
  obtains e where "e \<in> {HandshakeFailed, ConnectionEnds}" "serve_conn e 0 s = Some (end_conn 0 s)"
  using assms that [of HandshakeFailed] that [of ConnectionEnds]
  by (cases "cn_stage c") (auto simp: serve_conn_def)

lemma wind_conns:
  "\<exists>es s'. set es \<subseteq> winding \<and> run_events es s = Some s' \<and> ls_conns s' = [] \<and>
     ls_phase s' = ls_phase s \<and> ls_drain s' = ls_drain s \<and> ls_tcp s' = ls_tcp s \<and> ls_h3 s' = ls_h3 s"
proof (induction "ls_conns s" arbitrary: s)
  case Nil
  then show ?case by (intro exI [of _ "[]"]) simp
next
  case (Cons c cs)
  obtain e where e: "e \<in> {HandshakeFailed, ConnectionEnds}" "serve_conn e 0 s = Some (end_conn 0 s)"
    using Cons.hyps(2) by (metis first_ends)
  have "cs = ls_conns (end_conn 0 s)" using Cons.hyps(2) [symmetric] by (simp add: end_conn_def)
  from Cons.hyps(1) [OF this] obtain es s' where "set es \<subseteq> winding" "run_events es (end_conn 0 s) = Some s'"
    "ls_conns s' = []" "ls_phase s' = ls_phase s" "ls_drain s' = ls_drain s" "ls_tcp s' = ls_tcp s" "ls_h3 s' = ls_h3 s"
    by (auto simp: end_conn_def)
  then show ?case using e by (intro exI [of _ "Conn e 0 # es"]) (auto simp: winding_def)
qed

lemma wind_h3:
  assumes "ls_drain s" "ls_conns s = []"
  shows "\<exists>es s'. set es \<subseteq> winding \<and> run_events es s = Some s' \<and> ls_conns s' = [] \<and> ls_h3 s' = LoopStopped \<and>
    ls_phase s' = ls_phase s \<and> ls_tcp s' = ls_tcp s"
proof (cases "ls_h3 s = LoopStopped")
  case True
  then show ?thesis using assms by (intro exI [of _ "[]"]) simp
next
  case False
  then show ?thesis
    using assms by (intro exI [of _ "[H3Loop H3Drained]"]) (simp add: winding_def serve_h3_def)
qed

lemma drain_completes:
  assumes "started s0" "listener_step\<^sup>*\<^sup>* s0 s" "ls_phase s = Draining"
  shows "\<exists>es s'. set es \<subseteq> winding \<and> run_events es s = Some s' \<and> ls_phase s' = Returned True"
proof -
  have fl: "ls_drain s" "ls_tcp s = LoopStopped"
    using listener_reachable_ok [OF assms(1,2)] assms(3) by (auto simp: listener_ok_def flags_ok_def)
  obtain es1 s1 where 1: "set es1 \<subseteq> winding" "run_events es1 s = Some s1" "ls_conns s1 = []" "ls_phase s1 = Draining"
    "ls_drain s1" "ls_tcp s1 = LoopStopped"
    using wind_conns [of s] assms(3) fl by metis
  obtain es2 s2 where 2: "set es2 \<subseteq> winding" "run_events es2 s1 = Some s2" "ls_conns s2 = []" "ls_h3 s2 = LoopStopped"
    "ls_phase s2 = Draining" "ls_tcp s2 = LoopStopped"
    using wind_h3 [OF 1(5,3)] 1(4,6) by metis
  have run: "run_events (es1 @ es2) s = Some s2" using run_events_append [OF 1(2), of es2] 2(2) by simp
  have "listener_step\<^sup>*\<^sup>* s0 s2" using assms(2) run_events_reachable [OF run] by (rule rtranclp_trans)
  then have "ls_permits s2 = MAX_CONNECTIONS"
    using conns.accounted [OF assms(1)] all_free_iff [of s2] 2 by auto
  then have "run_events ((es1 @ es2) @ [Finish AllDrained]) s = Some (s2\<lparr>ls_phase := Returned True\<rparr>)"
    using run_events_append [OF run, of "[Finish AllDrained]"] 2(5) by (simp add: finish_drain_def)
  then show ?thesis
    using 1(1) 2(1) by (intro exI [of _ "(es1 @ es2) @ [Finish AllDrained]"]) (simp add: winding_def)
qed

section \<open>Properties of the listener\<close>

lemma sum_list_bound: "\<forall>x\<in>set xs. f x \<le> b \<Longrightarrow> sum_list (map f xs) \<le> length xs * (b :: nat)"
  by (induction xs) auto

text \<open>C15: At every moment, whatever the order in which sockets, timers and the shutdown signal become ready,
  the connections open over TCP and QUIC and the permits the loops hold add up with the free permits to
  the limit: no more connections are served than the limit allows, and no permit is ever lost. No
  connection serves a request before its handshake, none but a TLS connection speaks HTTP/2 or HTTP/3, and
  the requests in flight are bounded.\<close>

theorem connections_capped:
  assumes "started s0" "listener_step\<^sup>*\<^sup>* s0 s"
  shows "ls_permits s + length (ls_conns s) + of_bool (ls_tcp s = LoopHolding) + of_bool (ls_h3 s = LoopHolding) = MAX_CONNECTIONS \<and>
    (\<forall>c\<in>set (ls_conns s). conn_ok c) \<and>
    sum_list (map cn_streams (ls_conns s)) \<le> MAX_CONNECTIONS * MAX_CONCURRENT_STREAMS"
proof -
  have acc: "ls_permits s + permits_held s = MAX_CONNECTIONS" by (rule conns.accounted [OF assms])
  have ok: "\<forall>c\<in>set (ls_conns s). conn_ok c"
    using listener_reachable_ok [OF assms] by (simp add: listener_ok_def conns_ok_def)
  then have "\<forall>c\<in>set (ls_conns s). cn_streams c \<le> MAX_CONCURRENT_STREAMS"
    by (fastforce simp: conn_ok_def stream_cap_def MAX_CONCURRENT_STREAMS_def split: stage.splits if_splits)
  then have "sum_list (map cn_streams (ls_conns s)) \<le> length (ls_conns s) * MAX_CONCURRENT_STREAMS"
    by (rule sum_list_bound)
  also have "\<dots> \<le> MAX_CONNECTIONS * MAX_CONCURRENT_STREAMS"
    using acc by (intro mult_right_mono) (simp_all add: permits_held_def)
  finally show ?thesis using acc ok by (simp add: permits_held_def held_by_def)
qed

definition example_peer :: SocketAddr where "example_peer = (V4 0x7F000001, 40000)"

definition example_listener :: "unit Listener" where
  "example_listener = listener_new True (Some ()) (Some ())"

text \<open>A TLS connection with a request in flight while the server drains, and a QUIC connection that the drain
  closes.\<close>

definition example_busy :: "unit event list" where
  "example_busy =
     [AcceptLoop Acquired, AcceptLoop (Accepted example_peer), Conn (HandshakeOk (Some (str_bytes ''h2''))) 0,
      H3Loop H3Acquired, H3Loop (H3Incoming example_peer), Conn (HandshakeOk None) 1, Conn RequestBegins 0,
      AcceptLoop Acquired, ShutdownResolved, Conn DrainSeen 1, Conn DrainSeen 0]"

definition example_draining :: "unit Listener" where
  "example_draining = the (run_events example_busy example_listener)"

lemma example_started: "started example_listener"
  unfolding started_def example_listener_def by (metis option.distinct(1))

lemmas listener_exec = example_listener_def listener_new_def accept_loop_def begin_drain_def serve_h3_def serve_conn_def
  drop_held_def end_conn_def put_conn_def negotiated_def stream_cap_def Let_def

lemma example_busy_runs:
  "run_events example_busy example_listener = Some example_draining"
  "ls_conns example_draining =
     [\<lparr>cn_quic = False, cn_peer = example_peer, cn_tls = Some (), cn_stage = Closing ''https'' H2, cn_streams = 1\<rparr>]"
  "ls_phase example_draining = Draining" "ls_permits example_draining = 9999"
  by (simp_all add: example_draining_def example_busy_def listener_exec MAX_CONNECTIONS_def MAX_CONCURRENT_STREAMS_def)

theorem connections_capped_witness:
  "list_all conn_ok (ls_conns example_draining) \<and> length (ls_conns example_draining) = 1 \<and>
   ls_permits example_draining + 1 = MAX_CONNECTIONS"
  using connections_capped [OF example_started run_events_reachable [OF example_busy_runs(1)]]
  by (simp add: example_busy_runs MAX_CONNECTIONS_def list_all_iff)



text \<open>The server advertises HTTP/3 whenever a QUIC configuration exists, also when no QUIC listener could be
  bound.\<close>

theorem alt_svc_without_listener:
  assumes "ac_quic_tls (ct_active c) = Some cfg" "\<not> endpoint cfg port"
  shows "\<exists>s admin. serve_start lib (Some port) endpoint parse c = Inr (s, alt_svc_of lib port (Some cfg), admin) \<and> ls_h3 s = LoopStopped"
  using assms by (simp add: serve_start_def listener_new_def Let_def)

section \<open>Body buffers\<close>

text \<open>The second semaphore: a transaction whose route reads the body takes a permit, reads the body and runs
  the body chain under it, and drops it at the end of that block. The chain's body is then forwarded.\<close>

datatype body_pc = NotBuffering | Buffering | ForwardingBody nat | BodyGone

record Buffers =
  bb_permits :: nat
  bb_pcs :: "body_pc list"

definition buffers_new :: "nat \<Rightarrow> Buffers" where
  "buffers_new n = \<lparr>bb_permits = MAX_INFLIGHT_BODY_BUFFERS, bb_pcs = replicate n NotBuffering\<rparr>"

datatype buffer_event = BufferAcquired | BufferRefused | BufferForwarded nat | ForwardEnded

definition buffer_event :: "buffer_event \<Rightarrow> nat \<Rightarrow> Buffers \<Rightarrow> Buffers option" where
  "buffer_event e t b =
     (if length (bb_pcs b) \<le> t then None
      else case (bb_pcs b ! t, e) of
        (NotBuffering, BufferAcquired) \<Rightarrow>
          (if 0 < bb_permits b then Some (b\<lparr>bb_permits := bb_permits b - 1, bb_pcs := (bb_pcs b)[t := Buffering]\<rparr>) else None)
      | (Buffering, BufferRefused) \<Rightarrow> Some (b\<lparr>bb_permits := bb_permits b + 1, bb_pcs := (bb_pcs b)[t := BodyGone]\<rparr>)
      | (Buffering, BufferForwarded n) \<Rightarrow> Some (b\<lparr>bb_permits := bb_permits b + 1, bb_pcs := (bb_pcs b)[t := ForwardingBody n]\<rparr>)
      | (ForwardingBody _, ForwardEnded) \<Rightarrow> Some (b\<lparr>bb_pcs := (bb_pcs b)[t := BodyGone]\<rparr>)
      | _ \<Rightarrow> None)"

inductive buffer_step :: "Buffers \<Rightarrow> Buffers \<Rightarrow> bool" where
  buffer: "buffer_event e t b = Some b' \<Longrightarrow> buffer_step b b'"

definition buffering :: "Buffers \<Rightarrow> nat" where
  "buffering b = length (filter (\<lambda>pc. pc = Buffering) (bb_pcs b))"

lemma buffer_event_permits:
  assumes "buffer_event e t b = Some b'"
  shows "bb_permits b' + buffering b' = bb_permits b + buffering b"
  using assms filter_update [of t "bb_pcs b" "\<lambda>pc. pc = Buffering"]
  by (fastforce simp: buffer_event_def buffering_def split: if_splits body_pc.splits buffer_event.splits)

interpretation buffers: semaphore "\<lambda>b. \<exists>n. b = buffers_new n" buffer_step bb_permits buffering MAX_INFLIGHT_BODY_BUFFERS
proof
  show "bb_permits b + buffering b = MAX_INFLIGHT_BODY_BUFFERS" if "\<exists>n. b = buffers_new n" for b
    using that by (auto simp: buffers_new_def buffering_def)
  show "bb_permits b' + buffering b' = bb_permits b + buffering b" if "buffer_step b b'" for b b'
    using that by (auto elim!: buffer_step.cases dest: buffer_event_permits)
qed

lemma forward_one:
  assumes "t < length (bb_pcs b)" "bb_pcs b ! t = NotBuffering" "0 < bb_permits b"
  shows "buffer_step\<^sup>*\<^sup>* b (b\<lparr>bb_pcs := (bb_pcs b)[t := ForwardingBody n]\<rparr>)"
proof -
  let ?mid = "b\<lparr>bb_permits := bb_permits b - 1, bb_pcs := (bb_pcs b)[t := Buffering]\<rparr>"
  have "buffer_step b ?mid"
    using assms by (intro buffer_step.buffer [of BufferAcquired t]) (simp add: buffer_event_def)
  moreover have "buffer_step ?mid (b\<lparr>bb_pcs := (bb_pcs b)[t := ForwardingBody n]\<rparr>)"
    using assms by (intro buffer_step.buffer [of "BufferForwarded n" t]) (simp add: buffer_event_def)
  ultimately show ?thesis by (meson rtranclp.rtrancl_refl rtranclp.rtrancl_into_rtrancl)
qed

lemma forward_many:
  "k \<le> n \<Longrightarrow> buffer_step\<^sup>*\<^sup>* (buffers_new n)
     ((buffers_new n)\<lparr>bb_pcs := replicate k (ForwardingBody m) @ replicate (n - k) NotBuffering\<rparr>)"
proof (induction k)
  case 0
  then show ?case by (simp add: buffers_new_def)
next
  case (Suc k)
  let ?b = "(buffers_new n)\<lparr>bb_pcs := replicate k (ForwardingBody m) @ replicate (n - k) NotBuffering\<rparr>"
  have "n - k = Suc (n - Suc k)" using Suc.prems by simp
  then have upd: "(bb_pcs ?b)[k := ForwardingBody m] = replicate (Suc k) (ForwardingBody m) @ replicate (n - Suc k) NotBuffering"
    by (simp add: list_update_append replicate_append_same)
  have "buffer_step\<^sup>*\<^sup>* ?b (?b\<lparr>bb_pcs := (bb_pcs ?b)[k := ForwardingBody m]\<rparr>)"
    using Suc.prems by (intro forward_one) (simp_all add: nth_append buffers_new_def MAX_INFLIGHT_BODY_BUFFERS_def)
  with Suc.IH Suc.prems show ?case unfolding upd by (auto intro: rtranclp_trans)
qed

text \<open>At most as many bodies are read and shown to the body chain at once as there are permits, and the permits
  are free again exactly when none is. The bodies held in memory while they are forwarded are not among
  them: for any number \<open>n\<close>, \<open>n\<close> of them may be held at a time, each of any size a filter returns.\<close>

theorem body_buffers:
  "(buffer_step\<^sup>*\<^sup>* (buffers_new n) b \<longrightarrow> buffering b \<le> MAX_INFLIGHT_BODY_BUFFERS \<and>
      (bb_permits b = MAX_INFLIGHT_BODY_BUFFERS \<longleftrightarrow> buffering b = 0)) \<and>
   (\<exists>b'. buffer_step\<^sup>*\<^sup>* (buffers_new n) b' \<and> bb_pcs b' = replicate n (ForwardingBody m))"
  using buffers.capped [of "buffers_new n" b] buffers.free_iff [of "buffers_new n" b] forward_many [of n n m]
  by fastforce

end
