(* ===== verification/Process.thy ===== *)
theory Process
  imports Listener
begin

text \<open>
  The process, \<open>server/src/main.rs\<close>: its start from the command line, and its life as the requests it
  serves interleaved with the reloads a \<open>SIGHUP\<close> triggers. The lemmas say what survives both: a transaction
  never changes which groups and instances exist, so a reload always finds a sound registry, and a reload
  leaves a configuration the server can serve.
\<close>

section \<open>Start\<close>

datatype start_error = Usage | Startup ControlError | BindFailed | ServeFailed ServerError

definition server_new ::
    "('w, 'tls) Control \<Rightarrow> bytes option \<Rightarrow> id_source \<Rightarrow> u64 \<Rightarrow> 'w \<Rightarrow> ('w, 'tls) ServerState" where
  "server_new c alt_svc ids rng w =
     \<lparr>ss_control = c, ss_alt_svc = alt_svc, ss_metrics = ServerMetrics_new, ss_ids = ids, ss_rng = rng, ss_world = w\<rparr>"

text \<open>\<open>bind\<close> gives the local port of the bound socket, if the system tells it.\<close>

definition run ::
    "('k, 'w, 'tls) plane \<Rightarrow> (string \<Rightarrow> ControlError + bytes) \<Rightarrow> string option \<Rightarrow> (string \<Rightarrow> ControlError + Manifest) \<Rightarrow>
     (string \<Rightarrow> u16 option option) \<Rightarrow> http_lib \<Rightarrow> ('tls \<Rightarrow> u16 \<Rightarrow> bool) \<Rightarrow> (string \<Rightarrow> SocketAddr option) \<Rightarrow> string list \<Rightarrow> 'w \<Rightarrow>
     ((start_error + ('w, 'tls) Control \<times> 'tls Listener \<times> bytes option \<times> SocketAddr option) \<times> 'w) option" where
  "run pl read_file engine_error disk bind lib endpoint parse args w =
     (case args of
        [] \<Rightarrow> Some (Inl Usage, w)
      | manifest # rest \<Rightarrow>
          (let listen = (case rest of [] \<Rightarrow> ''127.0.0.1:8080'' | l # _ \<Rightarrow> l) in
           case from_manifest_path pl read_file engine_error manifest (disk manifest) w of
             None \<Rightarrow> None
           | Some (Inl e, w) \<Rightarrow> Some (Inl (Startup e), w)
           | Some (Inr control, w) \<Rightarrow>
               (case bind listen of
                  None \<Rightarrow> Some (Inl BindFailed, w)
                | Some local_port \<Rightarrow>
                    (case serve_start lib local_port endpoint parse control of
                       Inl e \<Rightarrow> Some (Inl (ServeFailed e), w)
                     | Inr (listener, alt_svc, admin) \<Rightarrow> Some (Inr (control, listener, alt_svc, admin), w)))))"

text \<open>What the process plugs into the control plane and the retry loop: the version of a manifest, from a serializer
  and the hash, and the production client, which tells a connection that could not be made from any other
  fault.\<close>

definition content_hash :: "'k crypto \<Rightarrow> (Manifest \<Rightarrow> string + bytes) \<Rightarrow> Manifest \<Rightarrow> ControlError + string" where
  "content_hash cr to_vec m =
     (case to_vec m of
        Inl e \<Rightarrow> Inl (ManifestSerialize e)
      | Inr bytes \<Rightarrow> Inr (''sha256:'' @ hex_of cr (sha256 cr bytes)))"

definition client_request ::
    "('q UpstreamRequest \<Rightarrow> 'e + 'b UpstreamResponse) \<Rightarrow> ('e \<Rightarrow> bool) \<Rightarrow> 'q UpstreamRequest \<Rightarrow> SendErrorKind + 'b UpstreamResponse" where
  "client_request hyper is_connect req =
     (case hyper req of
        Inr resp \<Rightarrow> Inr resp
      | Inl e \<Rightarrow> Inl (if is_connect e then Connect else OtherFault))"

text \<open>Two manifests with one version serialize alike, unless the hash collides.\<close>

lemma content_hash_determines:
  assumes "content_hash cr to_vec m = Inr v" "content_hash cr to_vec m' = Inr v" "inj (\<lambda>b. hex_of cr (sha256 cr b))"
  shows "to_vec m = to_vec m'"
  using assms(1,2) injD [OF assms(3)] by (auto simp: content_hash_def split: sum.splits)

section \<open>Life\<close>

datatype ('q, 'b) proc_event =
  Request "('q, 'b) transaction"
| Sighup "string \<Rightarrow> ControlError + Manifest"

fun run_process ::
    "('k, 'w, 'tls) plane \<Rightarrow> server_lib \<Rightarrow> ('q, 'b) proc_event list \<Rightarrow> ('w, 'tls) ServerState \<Rightarrow>
     ('b Response list \<times> ('w, 'tls) ServerState) option" where
  "run_process pl sl [] st = Some ([], st)"
| "run_process pl sl (Request tx # evs) st =
     (case handle sl tx st of
        None \<Rightarrow> None
      | Some (resp, _, st) \<Rightarrow> map_option (\<lambda>(resps, st). (resp # resps, st)) (run_process pl sl evs st))"
| "run_process pl sl (Sighup disk # evs) st =
     (case serve_reloads pl (ss_control st) [disk] (ss_world st) of
        None \<Rightarrow> None
      | Some (c, w) \<Rightarrow> run_process pl sl evs (st\<lparr>ss_control := c, ss_world := w\<rparr>))"

section \<open>A transaction keeps the structure of the registry\<close>

lemma length_record_outcome [simp]: "length (fst (record_outcome g h now i f)) = length h"
  by (simp add: record_outcome_def set_counters_def Let_def)

lemma length_drop_pick [simp]: "length (drop_pick h p) = length h"
  by (simp add: drop_pick_def split: option.splits)

lemma length_pick_quiet: "pick_quiet g h clock s ex key = Some (g', h', s', p) \<Longrightarrow> length h' = length h"
  by (auto simp: pick_quiet_def pick_dispatch_def least_request_pick_def metered_pick_def Let_def
      split: LbState.splits option.splits if_splits prod.splits)

lemma length_settle: "settle env pk sh = (sh', oc, out) \<Longrightarrow> length (sh_heap sh') = length (sh_heap sh)"
proof -
  have "length h = length (sh_heap sh)" if "record_outcome (sh_group sh) (sh_heap sh) now i f = (h, b)" for now i f h b
    using that length_record_outcome [of "sh_group sh" "sh_heap sh" now i f] by simp
  then show "settle env pk sh = (sh', oc, out) \<Longrightarrow> length (sh_heap sh') = length (sh_heap sh)"
    by (auto simp: Let_def split: option.splits sum.splits prod.splits if_splits)
qed

lemma length_release [simp]: "length (sh_heap (release_pick pk sh)) = length (sh_heap sh)"
  by (simp add: release_pick_def)

lemma length_pick_another: "pick_another env key pk sh = Some (sh', q) \<Longrightarrow> length (sh_heap sh') = length (sh_heap sh)"
  by (auto simp: pick_another_def pick_excluding_def dest: length_pick_quiet)

lemma length_round:
  assumes "length (sh_heap (ae_others env sh)) = length (sh_heap sh)"
  shows "round_of env fa n k pk body sh = Done out as sh' \<Longrightarrow> length (sh_heap sh') = length (sh_heap sh)"
    and "round_of env fa n k pk body sh = Again a pk' sh' \<Longrightarrow> length (sh_heap sh') = length (sh_heap sh)"
  using assms
  by (auto simp: round_of_def Let_def simp del: settle.simps dest!: length_settle length_pick_another
      split: PerTryTimeout.splits option.splits if_splits prod.splits)

lemma length_forward_loop:
  assumes "forward_loop envs fa n tries_left pk body sh = Some (out, as, sh')"
    and "\<forall>n sh. length (sh_heap (ae_others (envs n) sh)) = length (sh_heap sh)"
  shows "length (sh_heap sh') = length (sh_heap sh)"
  using assms(1)
proof (induction "unat tries_left" arbitrary: n tries_left pk body sh as rule: less_induct)
  case less
  from less.prems show ?case
  proof (cases rule: forward_loop_cases)
    case finish
    then show ?thesis using length_round(1) assms(2) by blast
  next
    case (again a pk1 sh1 as1)
    have "unat (tries_left - 1) < unat tries_left"
      using round_Again_budget [OF again(1)] by (simp add: unat_pred unat_gt_0)
    from less.hyps [OF this again(3)] show ?thesis using length_round(2) [OF _ again(1)] assms(2) by simp
  qed
qed

definition same_structure :: "UpstreamRegistry \<Rightarrow> UpstreamRegistry \<Rightarrow> bool" where
  "same_structure reg reg' \<longleftrightarrow> groups reg' = groups reg \<and> length (insts reg') = length (insts reg)"

lemma held_stage_structure:
  assumes "held_stage sl tx snap route req body gi st = Some (r, as, st')"
    and "\<forall>n sh. length (sh_heap (ae_others (tx_envs tx n) sh)) = length (sh_heap sh)"
  shows "same_structure (registry st) (registry st')"
  using assms(1)
proof (cases rule: held_stage_cases)
  case (no_instance g h s)
  then show ?thesis
    using length_pick_quiet [OF no_instance(1) [unfolded pick_def]]
    by (simp add: same_structure_def registry_def put_insts_def put_group_def put_registry_def Let_def)
next
  case (sent g h s pk out sh)
  then show ?thesis
    using length_pick_quiet [OF sent(1) [unfolded pick_def]] length_forward_loop [OF sent(2) [unfolded forward_with_retry_def] assms(2)]
    by (simp add: same_structure_def)
qed

lemma breaker_stage_structure:
  assumes "breaker_stage sl tx snap route req body gi st = Some (r, as, st')"
    and "\<forall>n sh. length (sh_heap (ae_others (tx_envs tx n) sh)) = length (sh_heap sh)"
  shows "same_structure (registry st) (registry st')"
  using assms(1)
proof (cases rule: breaker_stage_cases)
  case (shed g)
  then show ?thesis by (simp add: same_structure_def registry_def put_group_def put_registry_def Let_def)
next
  case (held g permit st1)
  then show ?thesis using held_stage_structure [OF held(2) assms(2)] by (simp add: same_structure_def)
qed

lemma proxy_core_inner_structure:
  assumes "proxy_core_inner sl tx st = Some (r, as, st')"
    and "\<forall>n sh. length (sh_heap (ae_others (tx_envs tx n) sh)) = length (sh_heap sh)"
  shows "same_structure (registry st) (registry st')"
  using assms(1)
proof (cases rule: proxy_core_inner_cases)
  case forwarded
  from breaker_stage_structure [OF forwarded(6) assms(2)] show ?thesis
    using shape_view.admit_view [OF forwarded(1)] by (simp add: same_structure_def)
qed (auto dest!: shape_view.admit_view simp: same_structure_def)

lemma registry_ok_kept:
  assumes "registry_ok reg" "same_structure reg reg'" "map group_shape (group_heap reg') = map group_shape (group_heap reg)"
  shows "registry_ok reg'"
proof -
  have "instances ` set (group_heap reg') = fst ` set (map group_shape (group_heap reg'))"
    by (force simp: group_shape_def)
  also have "\<dots> = instances ` set (group_heap reg)" unfolding assms(3) by (force simp: group_shape_def)
  finally have "\<forall>g\<in>set (group_heap reg'). \<exists>g0\<in>set (group_heap reg). instances g = instances g0" by (metis image_iff)
  moreover have "length (group_heap reg') = length (group_heap reg)" using assms(3) by (metis length_map)
  ultimately show ?thesis using assms(1,2) unfolding registry_ok_def same_structure_def by metis
qed

text \<open>What other requests do meanwhile to the group and the instances a transaction uses.\<close>

definition others_keep :: "('q, 'b) transaction \<Rightarrow> bool" where
  "others_keep tx \<longleftrightarrow>
     (\<forall>n sh. group_shape (sh_group (ae_others (tx_envs tx n) sh)) = group_shape (sh_group sh) \<and>
             length (sh_heap (ae_others (tx_envs tx n) sh)) = length (sh_heap sh))"

lemma handle_registry_ok:
  assumes "handle sl tx st = Some (resp, as, st')" "others_keep tx" "registry_ok (registry st)"
  shows "registry_ok (registry st')"
  using assms(1)
proof (cases rule: handle_cases)
  case (1 r st1)
  let ?st = "st\<lparr>ss_metrics := inc_in_flight (ss_metrics st)\<rparr>"
  have "same_structure (registry ?st) (registry st1)"
    using proxy_core_inner_structure [OF 1(1)] assms(2) by (simp add: others_keep_def)
  moreover have "map group_shape (group_heap (registry st1)) = map group_shape (group_heap (registry ?st))"
    using shape_view.proxy_core_inner_view [OF 1(1)] assms(2) by (simp add: others_keep_def)
  ultimately show ?thesis using registry_ok_kept assms(3) 1(3) by (auto simp: registry_def)
qed

section \<open>A built configuration can be served\<close>

text \<open>What the manifest has to say of its upstreams: an attempt is bounded in time, as it is by default.\<close>

definition manifest_timed :: "Manifest \<Rightarrow> bool" where
  "manifest_timed m \<longleftrightarrow>
     (\<forall>up\<in>set (m_upstreams m). length (addresses up) < 2 ^ 32 \<and> (request_timeout_ms up \<noteq> 0 \<or> overall_timeout_ms up \<noteq> 0))"

definition control_serving :: "('w, 'tls) Control \<Rightarrow> bool" where
  "control_serving c \<longleftrightarrow>
     registry_ok (ct_upstreams c) \<and> (\<forall>r\<in>set (ac_routes (ct_active c)). backends_ok (ct_upstreams c) (cr_backends r))"

lemma control_serving_iff: "control_serving (ss_control st) \<longleftrightarrow> registry_ok (registry st) \<and> serving_ok st"
  by (simp add: control_serving_def serving_ok_def registry_def)

lemma built_serving:
  assumes "registry_ok reg" "reconcile reg (m_upstreams manifest) = Some (reg', Inr ())" "config_ok pl manifest reg' ac" "manifest_timed manifest"
  shows "\<forall>r\<in>set (ac_routes ac). backends_ok reg' (cr_backends r)"
proof
  have served: "k < length (group_heap reg') \<and> group_serves (map group_shape (group_heap reg') ! k)"
    if up: "up \<in> set (m_upstreams manifest)" "group reg' (up_name up) = Some k" for up k
  proof -
    obtain h where h: "k < length (group_heap reg')" "group_built reg h up (group_heap reg' ! k)"
      using reconcile_built_group [OF assms(1,2) up] by blast
    then have "length (instances (group_heap reg' ! k)) = length (addresses up)"
      "request_timeout (group_heap reg' ! k) = unat (request_timeout_ms up)"
      "overall_timeout (group_heap reg' ! k) = unat (overall_timeout_ms up)"
      by (auto simp: group_built_def dest: list_all2_lengthD)
    moreover have "length (addresses up) < 2 ^ 32" "unat (request_timeout_ms up) \<noteq> 0 \<or> unat (overall_timeout_ms up) \<noteq> 0"
      using assms(4) up(1) by (auto simp: manifest_timed_def unat_eq_0)
    ultimately show ?thesis using h(1) by (simp add: group_serves_def group_shape_def)
  qed
  fix r assume ra: "r \<in> set (ac_routes ac)"
  obtain targets where t: "WeightedBackends_new targets = Inr (cr_backends r)"
    "\<forall>(g, _)\<in>set targets. \<exists>up\<in>set (m_upstreams manifest). group reg' (up_name up) = Some g"
    using assms(3) ra unfolding config_ok_def by blast
  moreover have "cr_backends r = (cr_backends r)\<lparr>cursor := cursor (cr_backends r)\<rparr>" by simp
  ultimately show "backends_ok reg' (cr_backends r)" unfolding backends_ok_def using served by blast
qed

lemma swap_in_serving:
  assumes "control_serving c" "manifest_timed manifest"
  shows "\<exists>r c' w'. swap_in pl c manifest w = Some (r, c', w') \<and> control_serving c'"
proof -
  have reg: "registry_ok (ct_upstreams c)" using assms(1) by (simp add: control_serving_def)
  then show ?thesis
  proof (cases rule: build_active_cases [of _ pl manifest w])
    case (ok ac reg' w')
    then show ?thesis using built_serving [OF reg ok(2,4) assms(2)] by (simp add: swap_in_def control_serving_def)
  next
    case (error e w')
    then show ?thesis using assms(1) by (simp add: swap_in_def)
  qed
qed

lemma reload_from_disk_serving:
  assumes "control_serving c" "\<forall>path m. disk path = Inr m \<longrightarrow> manifest_timed m"
  shows "\<exists>r c' w'. reload_from_disk pl c disk w = Some (r, c', w') \<and> control_serving c'"
proof (cases "ct_manifest_path c")
  case None
  then show ?thesis using assms(1) by (simp add: reload_from_disk_def)
next
  case path: (Some path)
  show ?thesis
  proof (cases "disk path")
    case (Inl e)
    then show ?thesis using assms(1) path by (simp add: reload_from_disk_def)
  next
    case (Inr m)
    then obtain r c' w' where "swap_in pl c m w = Some (r, c', w')" "control_serving c'"
      using swap_in_serving [OF assms(1)] assms(2) by blast
    then show ?thesis
      using assms(1) path Inr
      by (cases "ensure_trust_unchanged c m"; cases "pl_content_hash pl m") (simp_all add: reload_from_disk_def)
  qed
qed

lemma control_new_serving:
  assumes "control_new pl manifest path w = Some (Inr c, w')" "manifest_timed manifest"
  shows "control_serving c"
  using registry_new_ok
proof (cases rule: build_active_cases [of _ pl manifest w])
  case (ok ac reg' w1)
  then show ?thesis
    using assms(1) built_serving [OF registry_new_ok ok(2,4) assms(2)] by (auto simp: control_new_def control_serving_def)
qed (use assms(1) in \<open>auto simp: control_new_def\<close>)

lemma run_serving:
  assumes "run pl read_file engine_error disk bind lib endpoint parse args w = Some (Inr (c, s, alt_svc, admin), w')"
    and "\<forall>path m. disk path = Inr m \<longrightarrow> manifest_timed m"
  shows "control_serving c \<and> started s"
  using assms
  by (auto simp: run_def from_manifest_path_def Let_def split: list.splits option.splits prod.splits sum.splits
      dest: control_new_serving serve_start_started)

section \<open>The whole life\<close>

fun event_ok :: "('q, 'b) proc_event \<Rightarrow> bool" where
  "event_ok (Request tx) = others_keep tx"
| "event_ok (Sighup disk) \<longleftrightarrow> (\<forall>path m. disk path = Inr m \<longrightarrow> manifest_timed m)"

fun is_request :: "('q, 'b) proc_event \<Rightarrow> bool" where
  "is_request (Request tx) = True"
| "is_request (Sighup disk) = False"

lemma run_process_returns:
  assumes "control_serving (ss_control st)" "\<forall>e\<in>set evs. event_ok e"
  shows "\<exists>resps st'. run_process pl sl evs st = Some (resps, st') \<and> length resps = length (filter is_request evs) \<and>
    control_serving (ss_control st')"
  using assms
proof (induction pl sl evs st rule: run_process.induct)
  case (2 pl sl tx evs st)
  have others: "others_keep tx" and st: "registry_ok (registry st)" "serving_ok st" using "2.prems" by (simp_all add: control_serving_iff)
  obtain resp as st1 where h: "handle sl tx st = Some (resp, as, st1)" "serving_ok st1"
    using handle_serving [OF st(2)] others unfolding others_keep_def by blast
  then have "control_serving (ss_control st1)"
    using handle_registry_ok [OF h(1) others st(1)] by (simp add: control_serving_iff)
  then show ?case using "2.IH" [of "(resp, as, st1)" resp "(as, st1)" as st1] "2.prems"(2) h(1) by auto
next
  case (3 pl sl disk evs st)
  obtain r c w where "reload_from_disk pl (ss_control st) disk (ss_world st) = Some (r, c, w)" "control_serving c"
    using reload_from_disk_serving [OF "3.prems"(1), of disk pl "ss_world st"] "3.prems"(2) by auto
  then show ?case using "3.IH" [of "(c, w)" c w] "3.prems"(2) by simp
qed simp

end
