(* ===== verification/Http3.thy ===== *)
theory Http3
  imports Proxy
begin

text \<open>
  One HTTP/3 request, \<open>server/src/h3/request.rs\<close> and \<open>h3/body.rs\<close>: the receive half of the stream
  becomes a request body, the transaction core runs, and the response goes out over the send half. The
  outcome of each operation on the stream is an argument.
\<close>

section \<open>The request body\<close>

text \<open>What \<open>poll_recv_data\<close> gives, pending aside: a chunk, the end of the stream, or an error.\<close>

datatype recv = Chunk bytes | EndOfStream | RecvError

fun h3_frames :: "recv list \<Rightarrow> (unit + frame) list" where
  "h3_frames [] = []"
| "h3_frames (Chunk b # rs) = Inr (DataFrame b) # h3_frames rs"
| "h3_frames (EndOfStream # rs) = []"
| "h3_frames (RecvError # rs) = Inl () # h3_frames rs"

section \<open>The response\<close>

record 'b h3_stream =
  st_resolved :: bool
  st_recv :: "recv list"
  st_head_sent :: bool
  st_data_sent :: "nat \<Rightarrow> bool"
  st_finished :: bool
  st_frames :: "'b ResponseBody \<Rightarrow> (unit + frame) list"

text \<open>The data that was sent, and whether every send succeeded. A fault of the upstream's body ends the data
  and the stream is finished all the same.\<close>

fun send_body :: "(nat \<Rightarrow> bool) \<Rightarrow> nat \<Rightarrow> (unit + frame) list \<Rightarrow> bytes list \<times> bool" where
  "send_body ok n [] = ([], True)"
| "send_body ok n (Inl _ # fs) = ([], True)"
| "send_body ok n (Inr OtherFrame # fs) = send_body ok n fs"
| "send_body ok n (Inr (DataFrame d) # fs) =
     (if ok n then (let (sent, done) = send_body ok (n + 1) fs in (d # sent, done)) else ([], False))"

definition handle_h3_request ::
    "server_lib \<Rightarrow> 'b h3_stream \<Rightarrow> ('q, 'b) transaction \<Rightarrow> ('w, 'tls) ServerState \<Rightarrow>
     ((ServerError + unit) \<times> ('b Response \<times> bytes list) option \<times> ('w, 'tls) ServerState) option" where
  "handle_h3_request sl io tx st =
     (if \<not> st_resolved io then Some (Inl Http3, None, st)
      else
        map_option
          (\<lambda>(r, as, st).
             let resp = (case r of Inr resp \<Rightarrow> resp | Inl _ \<Rightarrow> synth 502 ''upstream'' ''upstream error'') in
             if \<not> st_head_sent io then (Inl Http3, None, st)
             else let (sent, done) = send_body (st_data_sent io) 0 (st_frames io (res_body resp))
                  in (if done \<and> st_finished io then Inr () else Inl Http3, Some (resp, sent), st))
          (proxy_core sl (tx\<lparr>tx_scheme := ''https'', tx_frames := h3_frames (st_recv io)\<rparr>) st))"

section \<open>What the client receives\<close>

text \<open>The data of a body up to its first fault.\<close>

fun data_before_fault :: "(unit + frame) list \<Rightarrow> bytes" where
  "data_before_fault [] = []"
| "data_before_fault (Inl _ # fs) = []"
| "data_before_fault (Inr OtherFrame # fs) = data_before_fault fs"
| "data_before_fault (Inr (DataFrame d) # fs) = d @ data_before_fault fs"

lemma send_body_prefix: "prefix (concat (fst (send_body ok n fs))) (data_before_fault fs)"
  by (induction ok n fs rule: send_body.induct) (auto split: prod.splits)

lemma send_body_all: "snd (send_body ok n fs) \<Longrightarrow> concat (fst (send_body ok n fs)) = data_before_fault fs"
  by (induction ok n fs rule: send_body.induct) (auto split: prod.splits if_splits)

lemma send_body_ok: "(\<And>k. ok k) \<Longrightarrow> snd (send_body ok n fs)"
  by (induction ok n fs rule: send_body.induct) (auto split: prod.splits)

text \<open>What reaches the body hook is what the stream delivered before its end.\<close>

fun received :: "recv list \<Rightarrow> bytes" where
  "received (Chunk b # rs) = b @ received rs"
| "received (RecvError # rs) = received rs"
| "received _ = []"

fun intact :: "recv list \<Rightarrow> bool" where
  "intact (Chunk b # rs) = intact rs"
| "intact (RecvError # rs) = False"
| "intact _ = True"

lemma h3_frames_data: "concat (map frame_data (h3_frames rs)) = received rs"
  by (induction rs rule: received.induct) auto

lemma h3_frames_intact: "(\<forall>f\<in>set (h3_frames rs). \<exists>x. f = Inr x) \<longleftrightarrow> intact rs"
  by (induction rs rule: intact.induct) auto

lemma h3_body_buffered:
  "buffer_request_body cap [] (h3_frames rs) = (if intact rs \<and> length (received rs) \<le> cap then Some (received rs) else None)"
  using buffer_request_body_eq [of "[]" cap "h3_frames rs"] by (simp add: h3_frames_data h3_frames_intact Let_def)


definition example_stream :: "unit h3_stream" where
  "example_stream =
     \<lparr>st_resolved = True, st_recv = [Chunk [1, 2], Chunk [3], EndOfStream], st_head_sent = True, st_data_sent = (\<lambda>_. True),
      st_finished = True,
      st_frames = (\<lambda>body. case body of FullBody b \<Rightarrow> [Inr (DataFrame b)] | StreamBody _ \<Rightarrow> [Inr (DataFrame [7]), Inr OtherFrame, Inl ()])\<rparr>"

definition example_h3_tx :: "(unit, unit) transaction" where
  "example_h3_tx = example_tx\<lparr>tx_scheme := ''https'', tx_frames := h3_frames (st_recv example_stream)\<rparr>"

text \<open>A server without routes answers with a synthesised response.\<close>

definition example_bare :: "(unit, unit) ServerState" where
  "example_bare = example_server\<lparr>ss_control := example_control\<rparr>"

lemma example_serving: "serving_ok example_bare"
  by (simp add: serving_ok_def example_bare_def example_control_def)


end
