(* ===== verification/Guest.thy ===== *)
theory Guest
  imports Load Chain
begin

text \<open>
  Guests and the runtime that runs them, \<open>WasmtimeRuntime\<close> in \<open>host/src/lib.rs\<close>. A guest export is a
  program over the capabilities of the WIT contract: it asks for one, gets the host's answer, and goes on.
  WebAssembly between two capability calls is a function, a loop that does not end, or an abort. What the
  engine adds is the sandbox: the epoch deadline cuts a call after any number of steps, and an allocation
  past the store's memory limit aborts the guest. Both are arguments of a run, so that what is proved of
  a run holds of every component and of every point at which it may be cut.
\<close>

section \<open>Programs over the host interface\<close>

datatype ('m, 'a) guest =
  Return 'a
| Log LogLevel ustring "('m, 'a) guest"
| Now "u64 \<Rightarrow> ('m, 'a) guest"
| GetKv bytes "bytes option \<Rightarrow> ('m, 'a) guest"
| SetKv bytes bytes "('m, 'a) guest"
| DeleteKv bytes "('m, 'a) guest"
| IncrementBy bytes i64 "i64 \<Rightarrow> ('m, 'a) guest"
| ReadCounter bytes "i64 \<Rightarrow> ('m, 'a) guest"
| TakeTokens bytes u64 "Acquire \<Rightarrow> ('m, 'a) guest"
| Local "'m \<Rightarrow> 'm" "'m \<Rightarrow> ('m, 'a) guest"
| Work "('m, 'a) guest"
| Allocate nat "('m, 'a) guest"
| Spin

record sandbox =
  sb_steps :: nat
  sb_memory :: nat

definition tick :: "sandbox \<Rightarrow> sandbox option" where
  "tick sb = (if sb_steps sb = 0 then None else Some (sb\<lparr>sb_steps := sb_steps sb - 1\<rparr>))"

type_synonym ('m, 's) guest_state = "HostState \<times> 'm \<times> 's world"

primrec run_guest ::
    "'s KvBackend \<Rightarrow> ('m, 'a) guest \<Rightarrow> sandbox \<Rightarrow> ('m, 's) guest_state \<Rightarrow> (wasm_error + 'a) \<times> ('m, 's) guest_state" where
  "run_guest B (Return a) = (\<lambda>sb s. (Inr a, s))"
| "run_guest B (Log lev msg g) = (\<lambda>sb (hs, m, w).
     case tick sb of None \<Rightarrow> (Inl Interrupt, hs, m, w) | Some sb \<Rightarrow> run_guest B g sb (host_log hs lev msg, m, w))"
| "run_guest B (Now k) = (\<lambda>sb (hs, m, w).
     case tick sb of None \<Rightarrow> (Inl Interrupt, hs, m, w) | Some sb \<Rightarrow> run_guest B (k (now_ms hs)) sb (hs, m, w))"
| "run_guest B (GetKv key k) = (\<lambda>sb (hs, m, w).
     case tick sb of None \<Rightarrow> (Inl Interrupt, hs, m, w) | Some sb \<Rightarrow> run_guest B (k (host_kv_get B hs key w)) sb (hs, m, w))"
| "run_guest B (SetKv key val g) = (\<lambda>sb (hs, m, w).
     case tick sb of None \<Rightarrow> (Inl Interrupt, hs, m, w) | Some sb \<Rightarrow> run_guest B g sb (hs, m, host_kv_set B hs key val w))"
| "run_guest B (DeleteKv key g) = (\<lambda>sb (hs, m, w).
     case tick sb of None \<Rightarrow> (Inl Interrupt, hs, m, w) | Some sb \<Rightarrow> run_guest B g sb (hs, m, host_kv_delete B hs key w))"
| "run_guest B (IncrementBy key d k) = (\<lambda>sb (hs, m, w).
     case tick sb of
       None \<Rightarrow> (Inl Interrupt, hs, m, w)
     | Some sb \<Rightarrow> run_guest B (k (snd (host_counter_increment B hs key d w))) sb (hs, m, fst (host_counter_increment B hs key d w)))"
| "run_guest B (ReadCounter key k) = (\<lambda>sb (hs, m, w).
     case tick sb of
       None \<Rightarrow> (Inl Interrupt, hs, m, w)
     | Some sb \<Rightarrow> run_guest B (k (snd (host_counter_get B hs key w))) sb (hs, m, fst (host_counter_get B hs key w)))"
| "run_guest B (TakeTokens key cost k) = (\<lambda>sb (hs, m, w).
     case tick sb of
       None \<Rightarrow> (Inl Interrupt, hs, m, w)
     | Some sb \<Rightarrow> run_guest B (k (snd (host_try_acquire B hs key cost w))) sb (hs, m, fst (host_try_acquire B hs key cost w)))"
| "run_guest B (Local f k) = (\<lambda>sb (hs, m, w). run_guest B (k (f m)) sb (hs, f m, w))"
| "run_guest B (Work g) = (\<lambda>sb s. case tick sb of None \<Rightarrow> (Inl Interrupt, s) | Some sb \<Rightarrow> run_guest B g sb s)"
| "run_guest B (Allocate n g) = (\<lambda>sb s.
     if sb_memory sb < n then (Inl (OtherError ''wasm unreachable instruction executed''), s) else run_guest B g sb s)"
| "run_guest B Spin = (\<lambda>sb s. (Inl Interrupt, s))"

section \<open>The runtime\<close>

text \<open>The prefix, limits and deadlines of a filter, and the component: its fresh linear memory (or the reason
  it cannot be instantiated) and its \<open>init\<close>. The clock and the number of steps a deadline leaves are
  the engine's and the machine's.\<close>

record ('m, 's) WasmtimeRuntime =
  wr_kv :: "'s KvBackend"
  wr_kv_prefix :: bytes
  wr_start :: "string + 'm"
  wr_init :: "('m, unit) guest"
  wr_init_deadline_ms :: u64
  wr_request_deadline_ms :: u64
  wr_max_memory_bytes :: u64
  wr_ratelimit_bucket :: "Bucket option"
  wr_wall :: u64
  wr_steps :: "u64 \<Rightarrow> nat"

record 'm WasmtimeInstance =
  wi_host :: HostState
  wi_memory :: 'm
  wi_deadline :: u64

definition sandbox_of :: "('m, 's) WasmtimeRuntime \<Rightarrow> u64 \<Rightarrow> sandbox" where
  "sandbox_of wr deadline = \<lparr>sb_steps = wr_steps wr deadline, sb_memory = unat (wr_max_memory_bytes wr)\<rparr>"

fun wasm_error_text :: "wasm_error \<Rightarrow> string" where
  "wasm_error_text Interrupt = ''wasm trap: interrupt''"
| "wasm_error_text (OtherError e) = e"

definition instantiate_wasmtime ::
    "('m, 's) WasmtimeRuntime \<Rightarrow> 's world \<Rightarrow> (string + 'm WasmtimeInstance) \<times> 's world" where
  "instantiate_wasmtime wr w =
     (let host = HostState_new (wr_kv_prefix wr) (wr_ratelimit_bucket wr) (wr_wall wr);
          deadline = wr_init_deadline_ms wr
      in case wr_start wr of
           Inl e \<Rightarrow> (Inl e, w)
         | Inr mem \<Rightarrow>
             (case run_guest (wr_kv wr) (wr_init wr) (sandbox_of wr deadline) (host, mem, w) of
                (Inl e, _, _, w) \<Rightarrow> (Inl (wasm_error_text e), w)
              | (Inr _, host, mem, w) \<Rightarrow> (Inr \<lparr>wi_host = host, wi_memory = mem, wi_deadline = deadline\<rparr>, w)))"

definition wasmtime_runtime :: "('m, 's) WasmtimeRuntime \<Rightarrow> ('m WasmtimeInstance, 's world) FilterRuntime" where
  "wasmtime_runtime wr =
     \<lparr>instantiate_initialized = instantiate_wasmtime wr,
      rt_begin_request = (\<lambda>i. i\<lparr>wi_host := begin_request (wi_host i) (wr_wall wr)\<rparr>),
      set_request_deadline = (\<lambda>i. i\<lparr>wi_deadline := wr_request_deadline_ms wr\<rparr>),
      take_logs = (\<lambda>i. (logs (wi_host i), i\<lparr>wi_host := (wi_host i)\<lparr>logs := []\<rparr>\<rparr>))\<rparr>"

text \<open>A call of a guest's export on an instance.\<close>

definition call_guest ::
    "('m, 's) WasmtimeRuntime \<Rightarrow> ('m, 'a) guest \<Rightarrow> ('m WasmtimeInstance, 's world, 'a) guest_call" where
  "call_guest wr g i w =
     (let (r, host, mem, w) = run_guest (wr_kv wr) g (sandbox_of wr (wi_deadline i)) (wi_host i, wi_memory i, w)
      in (r, i\<lparr>wi_host := host, wi_memory := mem\<rparr>, w))"

section \<open>A guest acts through its capabilities only\<close>

definition same_identity :: "HostState \<Rightarrow> HostState \<Rightarrow> bool" where
  "same_identity hs hs' \<longleftrightarrow>
     kv_prefix hs' = kv_prefix hs \<and> now_ms hs' = now_ms hs \<and> ratelimit_bucket hs' = ratelimit_bucket hs"

lemma same_identity_refl [simp]: "same_identity hs hs"
  by (simp add: same_identity_def)

lemma host_log_identity [simp]: "same_identity hs (host_log hs0 lev msg) = same_identity hs hs0"
  by (simp add: same_identity_def host_log_def Let_def)

definition own_history :: "bytes \<Rightarrow> history \<Rightarrow> bool" where
  "own_history p h \<longleftrightarrow> (\<forall>(hs, c)\<in>set h. kv_prefix hs = p)"

lemma own_history_append [simp]: "own_history p (h @ h') \<longleftrightarrow> own_history p h \<and> own_history p h'"
  by (auto simp: own_history_def)

lemma run_history_append: "run_history B (h @ h') w = run_history B h' (run_history B h w)"
  by (simp add: run_history_def)

definition confined :: "'s KvBackend \<Rightarrow> bytes \<Rightarrow> 's world \<Rightarrow> 's world \<Rightarrow> bool" where
  "confined B p w w' \<longleftrightarrow> (\<exists>h. own_history p h \<and> w' = run_history B h w)"

lemma confined_refl [simp]: "confined B p w w"
  unfolding confined_def by (intro exI [of _ "[]"]) (simp add: own_history_def run_history_def)

lemma confined_trans: "confined B p w w1 \<Longrightarrow> confined B p w1 w2 \<Longrightarrow> confined B p w w2"
  unfolding confined_def by (metis own_history_append run_history_append)

lemma confined_call: "kv_prefix hs = p \<Longrightarrow> confined B p w (run_host_call B hs c w)"
  unfolding confined_def by (intro exI [of _ "[(hs, c)]"]) (simp add: own_history_def run_history_def)

lemmas confined_ops =
  confined_call [where c = "KvSet key val" for key val, unfolded run_host_call.simps]
  confined_call [where c = "KvDelete key" for key, unfolded run_host_call.simps]
  confined_call [where c = "CounterIncrement key d" for key d, unfolded run_host_call.simps]
  confined_call [where c = "CounterGet key" for key, unfolded run_host_call.simps]
  confined_call [where c = "TryAcquire key cost" for key cost, unfolded run_host_call.simps]

lemma same_identity_trans: "same_identity a b \<Longrightarrow> same_identity b c \<Longrightarrow> same_identity a c"
  by (simp add: same_identity_def)

lemma same_identity_prefix: "same_identity a b \<Longrightarrow> kv_prefix b = kv_prefix a"
  by (simp add: same_identity_def)

definition logs_ok :: "HostState \<Rightarrow> bool" where
  "logs_ok hs \<longleftrightarrow> list_all clean_line (logs hs) \<and> length (logs hs) \<le> MAX_LOG_LINES_PER_REQUEST"

lemma host_log_ok [simp]: "logs_ok hs \<Longrightarrow> logs_ok (host_log hs lev msg)"
  using host_log_clean [of hs lev msg] by (simp add: logs_ok_def)

text \<open>The host state a run leaves, whatever the guest: its identity is kept, its logs stay bounded and
  clean, and the world changed by the guest's own capability calls only.\<close>

definition sandboxed :: "'s KvBackend \<Rightarrow> ('m, 's) guest_state \<Rightarrow> ('m, 's) guest_state \<Rightarrow> bool" where
  "sandboxed B s s' \<longleftrightarrow>
     (case (s, s') of ((hs, m, w), (hs', m', w')) \<Rightarrow>
        same_identity hs hs' \<and> (logs_ok hs \<longrightarrow> logs_ok hs') \<and> confined B (kv_prefix hs) w w')"

lemma sandboxed_refl [simp]: "sandboxed B s s"
  by (cases s) (simp add: sandboxed_def)

lemma sandboxed_step:
  assumes "sandboxed B (hs1, m1, w1) s'" "same_identity hs hs1" "logs_ok hs \<longrightarrow> logs_ok hs1" "confined B (kv_prefix hs) w w1"
  shows "sandboxed B (hs, m, w) s'"
  using assms by (cases s') (auto simp: sandboxed_def same_identity_prefix intro: same_identity_trans confined_trans)

lemma run_guest_sandboxed: "sandboxed B s (snd (run_guest B g sb s))"
proof (induction g arbitrary: sb s)
  case (Log lev msg g)
  show ?case by (cases s) (auto split: option.splits intro!: sandboxed_step [OF Log.IH])
next
  case (SetKv key val g)
  show ?case by (cases s) (auto split: option.splits intro!: sandboxed_step [OF SetKv.IH] intro: confined_ops)
next
  case (DeleteKv key g)
  show ?case by (cases s) (auto split: option.splits intro!: sandboxed_step [OF DeleteKv.IH] intro: confined_ops)
next
  case (IncrementBy key d k)
  show ?case by (cases s) (auto split: option.splits intro!: sandboxed_step [OF IncrementBy.IH] intro: confined_ops)
next
  case (ReadCounter key k)
  show ?case by (cases s) (auto split: option.splits intro!: sandboxed_step [OF ReadCounter.IH] intro: confined_ops)
next
  case (TakeTokens key cost k)
  show ?case by (cases s) (auto split: option.splits intro!: sandboxed_step [OF TakeTokens.IH] intro: confined_ops)
next
  case (Local f k)
  show ?case by (cases s) (auto intro!: sandboxed_step [OF Local.IH])
qed (auto split: option.splits prod.splits)

section \<open>Hooks of a guest\<close>

definition owned :: "('m, 's) WasmtimeRuntime \<Rightarrow> 'm WasmtimeInstance \<Rightarrow> bool" where
  "owned wr i \<longleftrightarrow> kv_prefix (wi_host i) = wr_kv_prefix wr"

definition pool_owned :: "('m, 's) WasmtimeRuntime \<Rightarrow> 'm WasmtimeInstance PoolInner \<Rightarrow> bool" where
  "pool_owned wr g \<longleftrightarrow> (\<forall>p\<in>set (idle g). owned wr (instance_of p))"

lemma call_guest_confined:
  assumes "call_guest wr g i w = (r, i', w')" "owned wr i"
  shows "owned wr i' \<and> confined (wr_kv wr) (wr_kv_prefix wr) w w' \<and> (logs_ok (wi_host i) \<longrightarrow> logs_ok (wi_host i'))"
  using assms run_guest_sandboxed [of "wr_kv wr" "(wi_host i, wi_memory i, w)" g "sandbox_of wr (wi_deadline i)"]
  by (auto simp: call_guest_def owned_def sandboxed_def same_identity_prefix split: prod.splits)

lemma instantiate_confined:
  assumes "instantiate_wasmtime wr w = (r, w')"
  shows "confined (wr_kv wr) (wr_kv_prefix wr) w w' \<and> (\<forall>i. r = Inr i \<longrightarrow> owned wr i \<and> logs_ok (wi_host i))"
proof (cases "wr_start wr")
  case (Inr mem)
  let ?host = "HostState_new (wr_kv_prefix wr) (wr_ratelimit_bucket wr) (wr_wall wr)"
  have "kv_prefix ?host = wr_kv_prefix wr" "logs_ok ?host"
    by (simp_all add: HostState_new_def logs_ok_def)
  then show ?thesis
    using assms Inr run_guest_sandboxed [of "wr_kv wr" "(?host, mem, w)" "wr_init wr" "sandbox_of wr (wr_init_deadline_ms wr)"]
    by (auto simp: instantiate_wasmtime_def Let_def owned_def sandboxed_def same_identity_prefix split: prod.splits sum.splits)
qed (use assms in \<open>auto simp: instantiate_wasmtime_def Let_def\<close>)

lemma wasmtime_fields [simp]:
  "instantiate_initialized (wasmtime_runtime wr) = instantiate_wasmtime wr"
  "owned wr (rt_begin_request (wasmtime_runtime wr') i) = owned wr i"
  "owned wr (set_request_deadline (wasmtime_runtime wr') i) = owned wr i"
  "wi_host (set_request_deadline (wasmtime_runtime wr') i) = wi_host i"
  "fst (take_logs (wasmtime_runtime wr') i) = logs (wi_host i)"
  "logs_ok (wi_host (rt_begin_request (wasmtime_runtime wr') i))"
  by (simp_all add: wasmtime_runtime_def owned_def begin_request_def logs_ok_def)

lemma checkout_owned:
  assumes "checkout (wasmtime_runtime wr) pool others ws now g w = Some (r, g', w')"
    and "pool_owned wr g" "\<forall>(_, g1, _)\<in>set ws. pool_owned wr g1"
  shows "confined (wr_kv wr) (wr_kv_prefix wr) w w' \<and> (\<forall>p. r = Inr p \<longrightarrow> owned wr (instance_of p))"
  using assms
proof (induction "wasmtime_runtime wr" pool others ws now g w rule: checkout.induct)
  case (1 pool others ws now g w)
  show ?case
  proof (cases "checkout_step pool now g")
    case Refuse
    then show ?thesis using "1.prems"(1) by (auto simp: checkout.simps)
  next
    case (Use p g1)
    then have "p \<in> set (idle g)" by (auto simp: checkout_step_def split: if_splits list.splits)
    then show ?thesis using "1.prems" Use by (auto simp: checkout.simps pool_owned_def)
  next
    case (Build g1)
    obtain ri w1 where i: "instantiate_wasmtime wr w = (ri, w1)" by (cases "instantiate_wasmtime wr w")
    show ?thesis
      using "1.prems"(1) Build instantiate_confined [OF i] by (cases ri) (auto simp: checkout.simps i)
  next
    case Wait
    then obtain timed_out g1 now1 ws1 where ws: "ws = (timed_out, g1, now1) # ws1"
      using "1.prems"(1) by (cases ws) (auto simp: checkout.simps)
    show ?thesis
    proof (cases timed_out)
      case True
      then show ?thesis using "1.prems"(1) Wait ws by (auto simp: checkout.simps)
    next
      case False
      have "checkout (wasmtime_runtime wr) pool others ws1 now1 g1 w = Some (r, g', w')"
        using "1.prems"(1) Wait ws False by (subst (asm) checkout.simps) simp
      then show ?thesis using "1.hyps" [OF Wait ws refl refl False] "1.prems"(3) ws by auto
    qed
  qed
qed

lemma hook_run_confined:
  assumes "lf_runtime lf = wasmtime_runtime wr" "pool_owned wr (fw_pool fw)"
    and "\<forall>(_, g1, _)\<in>set (wakes (env_schedule env)). pool_owned wr g1"
    and "hook_run lf env (call_guest wr g) fw = Some (r, fw')"
  shows "confined (wr_kv wr) (wr_kv_prefix wr) (fw_rest fw) (fw_rest fw') \<and>
    (\<forall>a ls. r = Inr (a, ls) \<longrightarrow> list_all clean_line ls \<and> length ls \<le> MAX_LOG_LINES_PER_REQUEST)"
proof (cases "lf_pool lf")
  case None
  then have f: "run_fresh (wasmtime_runtime wr) (call_guest wr g) (fw_rest fw) = (r, fw_rest fw')"
    using assms(1,4) by (auto simp: hook_run_def run_hook_def split: prod.splits)
  obtain ri w1 where i: "instantiate_wasmtime wr (fw_rest fw) = (ri, w1)" by (cases "instantiate_wasmtime wr (fw_rest fw)")
  show ?thesis
  proof (cases ri)
    case (Inl e)
    then show ?thesis using f instantiate_confined [OF i] by (auto simp: run_fresh_def i)
  next
    case (Inr inst)
    let ?inst = "set_request_deadline (wasmtime_runtime wr) inst"
    obtain rc inst2 w2 where c: "call_guest wr g ?inst w1 = (rc, inst2, w2)" by (metis prod_cases3)
    have "owned wr ?inst" "logs_ok (wi_host ?inst)" using instantiate_confined [OF i] Inr by simp_all
    then show ?thesis
      using f instantiate_confined [OF i] call_guest_confined [OF c] Inr c
      by (auto simp: run_fresh_def i logs_ok_def split: sum.splits intro: confined_trans)
  qed
next
  case (Some pool)
  let ?rt = "wasmtime_runtime wr" and ?s = "env_schedule env"
  have p: "run_pooled ?rt pool ?s (env_now env) (call_guest wr g) (fw_pool fw) (fw_rest fw) = Some (r, fw_pool fw', fw_rest fw')"
    using assms(1,4) Some by (auto simp: hook_run_def run_hook_def)
  then obtain rc g1 w1 where co: "checkout ?rt pool (during_build ?s) (wakes ?s) (env_now env) (fw_pool fw) (fw_rest fw) = Some (rc, g1, w1)"
    by (auto simp: run_pooled_def split: option.splits)
  note own = checkout_owned [OF co assms(2,3)]
  show ?thesis
  proof (cases rc)
    case (Inl e)
    then show ?thesis using p co own by (auto simp: run_pooled_def)
  next
    case (Inr q)
    let ?inst = "set_request_deadline ?rt (rt_begin_request ?rt (instance_of q))"
    obtain rg inst2 w2 where c: "call_guest wr g ?inst w1 = (rg, inst2, w2)" by (metis prod_cases3)
    have "owned wr ?inst" "logs_ok (wi_host ?inst)" using own Inr by simp_all
    moreover have "(\<exists>e. rg = Inl e \<and> r = Inl (from_call e) \<or> (\<exists>a. rg = Inr a \<and> r = Inr (a, logs (wi_host inst2)))) \<and> fw_rest fw' = w2"
      using p co c Inr by (auto simp: run_pooled_def Let_def wasmtime_runtime_def split: sum.splits)
    ultimately show ?thesis
      using own call_guest_confined [OF c] by (auto simp: logs_ok_def intro: confined_trans)
  qed
qed

lemma confined_frame:
  assumes "confined MemoryBackend p w w'" "valid_prefix p" "ns_of k \<noteq> p"
  shows "fst w' k = fst w k"
proof -
  obtain h where h: "own_history p h" "w' = run_history MemoryBackend h w" using assms(1) by (auto simp: confined_def)
  have "ns_key hs (call_tag c) (host_call_key c) \<noteq> k" if "(hs, c) \<in> set h" for hs c
    using h(1) that assms(2,3) ns_of_ns_key [of hs] by (fastforce simp: own_history_def)
  then have "\<forall>(hs, c)\<in>set h. ns_key hs (call_tag c) (host_call_key c) \<noteq> k" by blast
  from history_frame [OF mem.kv_store_axioms this, of w] show ?thesis by (simp add: h(2))
qed

lemma confined_quota:
  assumes "confined MemoryBackend p w w'" "valid_prefix p" "accounted w" "capped (snd w)"
  shows "accounted w' \<and> capped (snd w')"
  using assms history_preserves [of w] by (fastforce simp: confined_def own_history_def)

section \<open>Properties\<close>


definition example_wasmtime :: "bytes \<Rightarrow> 'm \<Rightarrow> ('m, mem_map) WasmtimeRuntime" where
  "example_wasmtime p mem =
     \<lparr>wr_kv = MemoryBackend, wr_kv_prefix = p, wr_start = Inr mem, wr_init = Return (), wr_init_deadline_ms = 1000,
      wr_request_deadline_ms = 50, wr_max_memory_bytes = 2 ^ 24, wr_ratelimit_bucket = None, wr_wall = 0, wr_steps = (\<lambda>_. 20)\<rparr>"

definition example_guest_filter :: "(unit WasmtimeInstance, mem_map world) LoadedFilter" where
  "example_guest_filter =
     \<lparr>lf_runtime = wasmtime_runtime (example_wasmtime [98, KV_NS_DELIM] ()), lf_filter_id = ''b'', lf_isolation = IsoUntrusted,
      lf_pool = None, lf_body_export = False, call_on_request = (\<lambda>_ i w. (Inr Continue, i, w)),
      call_body_hook = (\<lambda>b i w. (Inr (BodyContinue b), i, w)), call_on_response = (\<lambda>_ i w. (Inr RespContinue, i, w))\<rparr>"


end
