(* ===== verification/Filters.thy ===== *)
theory Filters
  imports Guest Headers
begin

text \<open>
  The filters that ship with the repository, \<open>examples/filters\<close> and \<open>bench/filters\<close>, as guests over the host
  interface: the API-key gate, the conformance filter \<open>filter-hello\<close>, the template, the quickstart and the
  no-op. They are what the contract is for; with the runtime, the chain and the capabilities modelled they can be followed to the request that
  reaches the upstream.
\<close>

section \<open>Guests\<close>

record 'm Guest =
  guest_init :: "('m, unit) guest"
  guest_on_request :: "HttpRequest \<Rightarrow> ('m, RequestDecision) guest"
  guest_on_request_body :: "(bytes \<Rightarrow> ('m, RequestBodyDecision) guest) option"
  guest_on_response :: "HttpResponse \<Rightarrow> ('m, ResponseDecision) guest"

text \<open>ASCII text as the code points of a log message.\<close>

definition ascii :: "string \<Rightarrow> ustring" where
  "ascii s = map of_char s"

definition i64_text :: "i64 \<Rightarrow> string" where
  "i64_text n = (if sint n < 0 then ''-'' @ dec_string (nat (- sint n)) else dec_string (nat (sint n)))"

definition header_value :: "HttpRequest \<Rightarrow> string \<Rightarrow> string option" where
  "header_value req name = map_option h_value (first_header (req_headers req) name)"

definition has_header :: "HttpRequest \<Rightarrow> string \<Rightarrow> bool" where
  "has_header req name \<longleftrightarrow> list_ex (\<lambda>h. eq_ignore_case (h_name h) name) (req_headers req)"

text \<open>\<open>String::from_utf8\<close>: the text of valid UTF-8, which the lossy decoding leaves alone.\<close>

definition from_utf8 :: "bytes \<Rightarrow> string option" where
  "from_utf8 bs = (if utf8_lossy bs = bs then Some (map (\<lambda>b. char_of (unat b)) bs) else None)"

section \<open>The API-key gate\<close>

definition DEMO_KEYS :: "(string \<times> string) list" where
  "DEMO_KEYS = [(''alice-secret'', ''alice''), (''bob-secret'', ''bob'')]"

definition API_KEY_HEADER :: string where "API_KEY_HEADER = ''x-api-key''"

definition kv_key :: "string \<Rightarrow> bytes" where
  "kv_key api_key = str_bytes (''key:'' @ api_key)"

definition unauthorized :: "string \<Rightarrow> RequestDecision" where
  "unauthorized reason =
     ShortCircuit
       \<lparr>resp_status = 401,
        resp_headers = [\<lparr>h_name = ''www-authenticate'', h_value = ''ApiKey''\<rparr>,
                        \<lparr>h_name = ''content-type'', h_value = ''application/json''\<rparr>],
        resp_body = str_bytes (''{'' @ [CHR 0x22] @ ''error'' @ [CHR 0x22] @ '':'' @ [CHR 0x22] @ reason @ [CHR 0x22] @ ''}'')\<rparr>"

fun seed_keys :: "(string \<times> string) list \<Rightarrow> ('m, 'a) guest \<Rightarrow> ('m, 'a) guest" where
  "seed_keys [] g = g"
| "seed_keys ((key, user) # keys) g = SetKv (kv_key key) (str_bytes user) (seed_keys keys g)"

definition apikey_init :: "(unit, unit) guest" where
  "apikey_init = seed_keys DEMO_KEYS (Log Info (ascii ''filter-apikey: init seeded demo keys'') (Return ()))"

definition apikey_on_request :: "HttpRequest \<Rightarrow> (unit, RequestDecision) guest" where
  "apikey_on_request req =
     (case header_value req API_KEY_HEADER of
        None \<Rightarrow> Log Info (ascii ''filter-apikey: missing API key'') (Return (unauthorized ''missing API key''))
      | Some api_key \<Rightarrow>
          GetKv (kv_key api_key) (\<lambda>found. case found of
            None \<Rightarrow> Log Info (ascii ''filter-apikey: invalid API key'') (Return (unauthorized ''invalid API key''))
          | Some user_bytes \<Rightarrow>
              (case from_utf8 user_bytes of
                 None \<Rightarrow> Return (unauthorized ''invalid API key'')
               | Some user \<Rightarrow>
                   IncrementBy (str_bytes (''requests:'' @ user)) 1 (\<lambda>total'.
                     Log Info (ascii (''filter-apikey: authenticated user='' @ user @ '' (request #'' @ i64_text total' @ '')''))
                       (Return (Modified \<lparr>re_set_headers = [\<lparr>h_name = ''x-authenticated-user'', h_value = user\<rparr>],
                                          re_remove_headers = []\<rparr>))))))"

definition apikey :: "unit Guest" where
  "apikey =
     \<lparr>guest_init = apikey_init, guest_on_request = apikey_on_request, guest_on_request_body = None,
      guest_on_response = (\<lambda>_. Return RespContinue)\<rparr>"

section \<open>The conformance filter\<close>

definition windows :: "nat \<Rightarrow> 'a list \<Rightarrow> 'a list list" where
  "windows k xs = map (\<lambda>i. take k (drop i xs)) [0..<length xs + 1 - k]"

definition lower_byte :: "u8 \<Rightarrow> u8" where
  "lower_byte b = (if 65 \<le> b \<and> b \<le> 90 then b + 32 else b)"

definition upper_byte :: "u8 \<Rightarrow> u8" where
  "upper_byte b = (if 97 \<le> b \<and> b \<le> 122 then b - 32 else b)"

definition eq_ignore_case_bytes :: "bytes \<Rightarrow> bytes \<Rightarrow> bool" where
  "eq_ignore_case_bytes a b \<longleftrightarrow> map lower_byte a = map lower_byte b"

definition MARKER :: bytes where "MARKER = str_bytes ''deny-body''"

text \<open>The guest's static counter is the memory of its instance.\<close>

definition hello_init :: "(u32, unit) guest" where
  "hello_init = IncrementBy (str_bytes ''init-calls'') 1 (\<lambda>_. Return ())"

definition hello_decide :: "HttpRequest \<Rightarrow> (u32, RequestDecision) guest" where
  "hello_decide req =
     (let blocked =
        (if has_header req ''x-plecto-block''
         then Return (ShortCircuit \<lparr>resp_status = 403, resp_headers = [\<lparr>h_name = ''x-plecto'', h_value = ''blocked''\<rparr>],
                                    resp_body = str_bytes ''blocked by filter-hello''\<rparr>)
         else Return Continue)
      in if has_header req ''x-plecto-addheader''
         then Return (Modified \<lparr>re_set_headers = [\<lparr>h_name = ''x-plecto-added'', h_value = ''1''\<rparr>], re_remove_headers = []\<rparr>)
         else case header_value req ''x-plecto-ratelimit'' of
           None \<Rightarrow> blocked
         | Some rl \<Rightarrow>
             TakeTokens (str_bytes (if rl = [] then ''default'' else rl)) 1 (\<lambda>outcome.
               if \<not> allowed outcome
               then Return (ShortCircuit
                 \<lparr>resp_status = 429,
                  resp_headers = [\<lparr>h_name = ''retry-after-ms'', h_value = dec_string (unat (retry_after_ms outcome))\<rparr>],
                  resp_body = str_bytes ''rate limited by filter-hello''\<rparr>)
               else blocked))"

text \<open>\<open>str::parse::<u64>\<close>: an optional plus, then decimal digits that fit.\<close>

fun decimal_loop :: "nat \<Rightarrow> string \<Rightarrow> nat option" where
  "decimal_loop acc [] = Some acc"
| "decimal_loop acc (c # cs) =
     (let d = of_char c :: nat; acc = 10 * acc + (d - 48)
      in if d < 48 \<or> 57 < d \<or> 2 ^ 64 \<le> acc then None else decimal_loop acc cs)"

definition parse_u64 :: "string \<Rightarrow> nat option" where
  "parse_u64 s =
     (let digits = (case s of c # cs \<Rightarrow> if c = CHR ''+'' then cs else s | [] \<Rightarrow> [])
      in if digits = [] then None else decimal_loop 0 digits)"

primrec busy_work :: "nat \<Rightarrow> ('m, 'a) guest \<Rightarrow> ('m, 'a) guest" where
  "busy_work 0 g = g"
| "busy_work (Suc n) g = Work (busy_work n g)"

definition hello_on_request :: "HttpRequest \<Rightarrow> (u32, RequestDecision) guest" where
  "hello_on_request req =
     Log Info (ascii ''filter-hello: on-request'')
       (ReadCounter (str_bytes ''init-calls'') (\<lambda>inits.
          Log Info (ascii (''init-calls='' @ i64_text inits))
            (Local (\<lambda>hits. hits + 1) (\<lambda>hits.
               Log Info (ascii (''local-state='' @ dec_string (unat hits)))
                 (if has_header req ''x-plecto-spin'' then Spin
                  else
                    (let rest = (case header_value req ''x-plecto-busy'' of
                                 None \<Rightarrow> hello_decide req
                               | Some h \<Rightarrow> busy_work (case parse_u64 h of Some n \<Rightarrow> n | None \<Rightarrow> 0) (hello_decide req))
                     in if has_header req ''x-plecto-balloon'' then Allocate (256 * 2 ^ 20) rest else rest))))))"

definition hello_on_request_body :: "bytes \<Rightarrow> (u32, RequestBodyDecision) guest" where
  "hello_on_request_body body =
     Log Info (ascii ''filter-hello: on-request-body'')
       (Return
         (if list_ex (\<lambda>w. eq_ignore_case_bytes w MARKER) (windows 9 body)
          then BodyShortCircuit \<lparr>resp_status = 403, resp_headers = [\<lparr>h_name = ''x-plecto'', h_value = ''blocked-body''\<rparr>],
                                 resp_body = str_bytes ''blocked body by filter-hello''\<rparr>
          else BodyContinue (map upper_byte body)))"

definition hello_on_response :: "HttpResponse \<Rightarrow> (u32, ResponseDecision) guest" where
  "hello_on_response resp =
     Return
       (if list_ex (\<lambda>h. eq_ignore_case (h_name h) ''x-plecto-respedit'') (resp_headers resp)
        then RespModified \<lparr>rs_set_status = None, rs_set_headers = [\<lparr>h_name = ''x-plecto-respadded'', h_value = ''1''\<rparr>],
                           rs_remove_headers = []\<rparr>
        else RespContinue)"

definition hello :: "u32 Guest" where
  "hello =
     \<lparr>guest_init = hello_init, guest_on_request = hello_on_request, guest_on_request_body = Some hello_on_request_body,
      guest_on_response = hello_on_response\<rparr>"

section \<open>The small ones\<close>

definition template :: "unit Guest" where
  "template =
     \<lparr>guest_init = Return (),
      guest_on_request = (\<lambda>req.
        Log Info (ascii ''my-filter: on-request'')
          (Return
            (if has_header req ''x-block''
             then ShortCircuit \<lparr>resp_status = 403, resp_headers = [], resp_body = str_bytes ''blocked by my-filter''\<rparr>
             else Continue))),
      guest_on_request_body = None,
      guest_on_response = (\<lambda>_. Return RespContinue)\<rparr>"

definition quickstart :: "unit Guest" where
  "quickstart =
     \<lparr>guest_init = Return (), guest_on_request = (\<lambda>_. Return Continue), guest_on_request_body = None,
      guest_on_response = (\<lambda>_.
        Return (RespModified
          \<lparr>rs_set_status = None, rs_set_headers = [\<lparr>h_name = ''x-plecto'', h_value = ''hello-from-wasm''\<rparr>],
           rs_remove_headers = []\<rparr>))\<rparr>"

definition noop :: "unit Guest" where
  "noop =
     \<lparr>guest_init = Return (), guest_on_request = (\<lambda>_. Return Continue),
      guest_on_request_body = Some (\<lambda>body. Return (BodyContinue body)),
      guest_on_response = (\<lambda>_. Return RespContinue)\<rparr>"

section \<open>A guest in the chain\<close>

text \<open>An untrusted filter: every hook runs in a fresh instance.\<close>

definition fresh_filter :: "('m, 's) WasmtimeRuntime \<Rightarrow> 'm Guest \<Rightarrow> 's world Filter" where
  "fresh_filter wr gu =
     (let wr = wr\<lparr>wr_init := guest_init gu\<rparr>; rt = wasmtime_runtime wr in
      \<lparr>f_on_request = (\<lambda>_ req w. run_fresh rt (call_guest wr (guest_on_request gu req)) w),
       f_on_request_body = (\<lambda>_ body w.
         case guest_on_request_body gu of
           None \<Rightarrow> (Inr (BodyContinue body, []), w)
         | Some hook \<Rightarrow> run_fresh rt (call_guest wr (hook body)) w),
       f_on_response = (\<lambda>_ resp w. run_fresh rt (call_guest wr (guest_on_response gu resp)) w),
       f_reads_body = (guest_on_request_body gu \<noteq> None)\<rparr>)"

section \<open>The key store of the gate\<close>

text \<open>Every key-value entry of the gate's name space is one it seeds.\<close>

definition seeds_only :: "bytes \<Rightarrow> mem_map world \<Rightarrow> bool" where
  "seeds_only p w \<longleftrightarrow>
     (\<forall>k v. fst w (p @ [TAG_KV, KV_NS_DELIM] @ k) = Some v \<longrightarrow> (\<exists>(key, user)\<in>set DEMO_KEYS. k = kv_key key \<and> v = str_bytes user))"

lemma seeds_only_set:
  assumes "seeds_only (kv_prefix hs) w" "(key, user) \<in> set DEMO_KEYS"
  shows "seeds_only (kv_prefix hs) (host_kv_set MemoryBackend hs (kv_key key) (str_bytes user) w)"
proof -
  have "fst (host_kv_set MemoryBackend hs (kv_key key) (str_bytes user) w) = fst w \<or>
      fst (host_kv_set MemoryBackend hs (kv_key key) (str_bytes user) w) = (fst w)(ns_key hs TAG_KV (kv_key key) \<mapsto> str_bytes user)"
    by (cases w) (auto simp: host_kv_set_def Let_def split: prod.splits if_splits)
  then show ?thesis using assms by (force simp: seeds_only_def ns_key_def split: if_splits)
qed

lemma seeds_only_frame:
  assumes "seeds_only (kv_prefix hs) w" "call_tag c \<noteq> TAG_KV"
  shows "seeds_only (kv_prefix hs) (run_host_call MemoryBackend hs c w)"
proof -
  have "fst (run_host_call MemoryBackend hs c w) (kv_prefix hs @ [TAG_KV, KV_NS_DELIM] @ k) = fst w (kv_prefix hs @ [TAG_KV, KV_NS_DELIM] @ k)" for k
    using host_call_frame [OF mem.kv_store_axioms, of hs c "kv_prefix hs @ [TAG_KV, KV_NS_DELIM] @ k" w] assms(2) by (simp add: ns_key_def)
  then show ?thesis using assms(1) by (simp add: seeds_only_def)
qed

lemmas seeds_only_count = seeds_only_frame [where c = "CounterIncrement key d" for key d, simplified]

lemma kv_prefix_host_log [simp]: "kv_prefix (host_log hs lev msg) = kv_prefix hs"
  by (simp add: host_log_def Let_def)

lemma seed_keys_run:
  assumes "set keys \<subseteq> set DEMO_KEYS" "seeds_only (kv_prefix hs) w"
    and "\<And>sb w r hs' m' w'. seeds_only (kv_prefix hs) w \<Longrightarrow> run_guest MemoryBackend g sb (hs, m, w) = (r, hs', m', w') \<Longrightarrow>
           seeds_only (kv_prefix hs) w'"
    and "run_guest MemoryBackend (seed_keys keys g) sb (hs, m, w) = (r, hs', m', w')"
  shows "seeds_only (kv_prefix hs) w'"
  using assms(1,2,4)
proof (induction keys arbitrary: sb w)
  case (Cons kv keys)
  obtain key user where kv: "kv = (key, user)" by fastforce
  then have "seeds_only (kv_prefix hs) (host_kv_set MemoryBackend hs (kv_key key) (str_bytes user) w)"
    using Cons.prems by (intro seeds_only_set) auto
  then show ?case using Cons kv by (auto split: option.splits)
qed (use assms(3) in simp)

lemma kv_key_eq [simp]: "kv_key a = kv_key b \<longleftrightarrow> a = b"
proof -
  have "unat (of_char c :: u8) = of_char c" for c
    by (simp add: of_char_def)
  then have "inj (of_char :: char \<Rightarrow> u8)"
    by (intro injI) (metis char_of_char)
  then show ?thesis by (simp add: kv_key_def str_bytes_def inj_map_eq_map)
qed

lemma apikey_init_run:
  assumes "seeds_only (kv_prefix hs) w" "run_guest MemoryBackend apikey_init sb (hs, m, w) = (r, hs', m', w')"
  shows "seeds_only (kv_prefix hs) w'"
proof (rule seed_keys_run [OF order.refl assms(1) _ assms(2) [unfolded apikey_init_def]])
  fix sb w r hs' m' w'
  assume "seeds_only (kv_prefix hs) w"
    "run_guest MemoryBackend (Log Info (ascii ''filter-apikey: init seeded demo keys'') (Return ())) sb (hs, m, w) = (r, hs', m', w')"
  then show "seeds_only (kv_prefix hs) w'" by (auto split: option.splits)
qed

lemma demo_user_utf8: "(key, user) \<in> set DEMO_KEYS \<Longrightarrow> from_utf8 (str_bytes user) = Some user"
proof -
  have "from_utf8 (str_bytes ''alice'') = Some ''alice''" "from_utf8 (str_bytes ''bob'') = Some ''bob''" by code_simp+
  then show "(key, user) \<in> set DEMO_KEYS \<Longrightarrow> from_utf8 (str_bytes user) = Some user" by (auto simp: DEMO_KEYS_def)
qed

text \<open>The identity the gate stamps.\<close>

definition identity_edit :: "string \<Rightarrow> RequestEdit" where
  "identity_edit user = \<lparr>re_set_headers = [\<lparr>h_name = ''x-authenticated-user'', h_value = user\<rparr>], re_remove_headers = []\<rparr>"

definition admitted :: "HttpRequest \<Rightarrow> RequestDecision \<Rightarrow> bool" where
  "admitted req d \<longleftrightarrow>
     (\<exists>(key, user)\<in>set DEMO_KEYS. header_value req API_KEY_HEADER = Some key \<and> d = Modified (identity_edit user))"

lemma apikey_run:
  assumes "seeds_only (kv_prefix hs) w" "run_guest MemoryBackend (apikey_on_request req) sb (hs, m, w) = (r, hs', m', w')"
  shows "seeds_only (kv_prefix hs) w' \<and> (\<forall>d. r = Inr d \<longrightarrow> (\<exists>resp. d = ShortCircuit resp \<and> resp_status resp = 401) \<or> admitted req d)"
proof (cases "header_value req API_KEY_HEADER")
  case None
  then show ?thesis using assms by (auto simp: apikey_on_request_def unauthorized_def split: option.splits)
next
  case (Some api_key)
  show ?thesis
  proof (cases "fst w (ns_key hs TAG_KV (kv_key api_key))")
    case None
    then show ?thesis
      using assms Some by (auto simp: apikey_on_request_def unauthorized_def host_kv_get_def split: option.splits)
  next
    case found: (Some v)
    then obtain key user where ku: "(key, user) \<in> set DEMO_KEYS" "kv_key api_key = kv_key key" "v = str_bytes user"
      using assms(1) by (force simp: seeds_only_def ns_key_def)
    then have user: "from_utf8 v = Some user" and key: "header_value req API_KEY_HEADER = Some key"
      using Some demo_user_utf8 by auto
    let ?w = "fst (host_counter_increment MemoryBackend hs (str_bytes (''requests:'' @ user)) 1 w)"
    have "admitted req (Modified (identity_edit user))" using ku key by (force simp: admitted_def)
    moreover have "w' = w \<or> w' = ?w" "\<forall>d. r = Inr d \<longrightarrow> d = Modified (identity_edit user)"
      using assms(2) Some found user
      by (auto simp: apikey_on_request_def host_kv_get_def identity_edit_def split: option.splits)
    ultimately show ?thesis using assms(1) seeds_only_count by blast
  qed
qed

lemma apikey_hook:
  assumes "wr_kv wr = MemoryBackend" "seeds_only (wr_kv_prefix wr) w"
    and "f_on_request (fresh_filter wr apikey) trace req w = (res, w')"
  shows "seeds_only (wr_kv_prefix wr) w' \<and>
    (\<forall>d ls. res = Inr (d, ls) \<longrightarrow> (\<exists>resp. d = ShortCircuit resp \<and> resp_status resp = 401) \<or> admitted req d)"
proof -
  let ?wr = "wr\<lparr>wr_init := apikey_init\<rparr>" and ?host = "HostState_new (wr_kv_prefix wr) (wr_ratelimit_bucket wr) (wr_wall wr)"
  have f: "run_fresh (wasmtime_runtime ?wr) (call_guest ?wr (apikey_on_request req)) w = (res, w')"
    using assms(3) by (simp add: fresh_filter_def apikey_def Let_def)
  obtain ri w1 where i: "instantiate_wasmtime ?wr w = (ri, w1)" by (metis surj_pair)
  have w1: "seeds_only (wr_kv_prefix wr) w1"
  proof (cases "wr_start wr")
    case (Inl e)
    then show ?thesis using i assms(2) by (simp add: instantiate_wasmtime_def Let_def)
  next
    case (Inr mem)
    obtain r hs1 m1 w2 where run: "run_guest MemoryBackend apikey_init (sandbox_of ?wr (wr_init_deadline_ms wr)) (?host, mem, w) = (r, hs1, m1, w2)"
      by (metis prod_cases4)
    have "seeds_only (wr_kv_prefix wr) w2" using apikey_init_run [OF _ run] assms(2) by (simp add: HostState_new_def)
    then show ?thesis using i run Inr assms(1) by (auto simp: instantiate_wasmtime_def Let_def split: sum.splits)
  qed
  show ?thesis
  proof (cases ri)
    case (Inl e)
    then show ?thesis using f i w1 by (auto simp: run_fresh_def)
  next
    case (Inr inst)
    let ?inst = "set_request_deadline (wasmtime_runtime ?wr) inst"
    have own: "kv_prefix (wi_host ?inst) = wr_kv_prefix wr" using instantiate_confined [OF i] Inr by (simp add: owned_def)
    obtain r hs1 m1 w2 where run: "run_guest MemoryBackend (apikey_on_request req) (sandbox_of ?wr (wi_deadline ?inst)) (wi_host ?inst, wi_memory ?inst, w1) = (r, hs1, m1, w2)"
      by (metis prod_cases4)
    then have "call_guest ?wr (apikey_on_request req) ?inst w1 = (r, ?inst\<lparr>wi_host := hs1, wi_memory := m1\<rparr>, w2)"
      using assms(1) by (simp add: call_guest_def)
    then have "w' = w2" "\<forall>d ls. res = Inr (d, ls) \<longrightarrow> r = Inr d"
      using f i Inr by (auto simp: run_fresh_def split: sum.splits)
    then show ?thesis using apikey_run [OF _ run] w1 own by auto
  qed
qed

text \<open>A guest with another id leaves the store of the gate alone.\<close>

definition elsewhere :: "bytes \<Rightarrow> mem_map world Filter \<Rightarrow> ('m, mem_map) WasmtimeRuntime \<Rightarrow> 'm Guest \<Rightarrow> bool" where
  "elsewhere p f wr gu \<longleftrightarrow>
     f = fresh_filter wr gu \<and> wr_kv wr = MemoryBackend \<and> valid_prefix (wr_kv_prefix wr) \<and> wr_kv_prefix wr \<noteq> p"

lemma fresh_confined:
  assumes "run_fresh (wasmtime_runtime wr) (call_guest wr g) w = (r, w')"
  shows "confined (wr_kv wr) (wr_kv_prefix wr) w w'"
proof -
  obtain ri w1 where i: "instantiate_wasmtime wr w = (ri, w1)" by (metis surj_pair)
  show ?thesis
  proof (cases ri)
    case (Inl e)
    then show ?thesis using assms instantiate_confined [OF i] by (auto simp: run_fresh_def i)
  next
    case (Inr inst)
    let ?inst = "set_request_deadline (wasmtime_runtime wr) inst"
    obtain rc inst2 w2 where c: "call_guest wr g ?inst w1 = (rc, inst2, w2)" by (metis prod_cases3)
    have "owned wr ?inst" using instantiate_confined [OF i] Inr by simp
    from call_guest_confined [OF c this] show ?thesis
      using assms instantiate_confined [OF i] Inr c by (auto simp: run_fresh_def i split: sum.splits intro: confined_trans)
  qed
qed

lemma elsewhere_seeds:
  assumes "elsewhere p f wr gu" "valid_prefix p" "f_on_request f trace req w = (res, w')" "seeds_only p w"
  shows "seeds_only p w'"
proof -
  let ?wr = "wr\<lparr>wr_init := guest_init gu\<rparr>"
  have "confined (wr_kv ?wr) (wr_kv_prefix ?wr) w w'"
    using assms(1,3) by (intro fresh_confined) (auto simp: elsewhere_def fresh_filter_def Let_def)
  then have c: "confined MemoryBackend (wr_kv_prefix wr) w w'" using assms(1) by (simp add: elsewhere_def)
  have "ns_of (p @ [TAG_KV, KV_NS_DELIM] @ k) = p" for k
    using ns_of_ns_key [of "HostState_new p None 0" TAG_KV k] assms(2) by (simp add: HostState_new_def ns_key_def)
  then have "fst w' (p @ [TAG_KV, KV_NS_DELIM] @ k) = fst w (p @ [TAG_KV, KV_NS_DELIM] @ k)" for k
    using confined_frame [OF c] assms(1) by (metis elsewhere_def)
  then show ?thesis using assms(4) by (simp add: seeds_only_def)
qed

definition gated :: "(mem_map world, 'tls) ActiveConfig \<Rightarrow> string \<Rightarrow> (unit, mem_map) WasmtimeRuntime \<Rightarrow>
    (string \<Rightarrow> ('m, mem_map) WasmtimeRuntime \<times> 'm Guest) \<Rightarrow> bool" where
  "gated active fid wr guests \<longleftrightarrow>
     wr_kv wr = MemoryBackend \<and> valid_prefix (wr_kv_prefix wr) \<and> ac_filters active fid = Some (fresh_filter wr apikey) \<and>
     (\<forall>g f. g \<noteq> fid \<and> ac_filters active g = Some f \<longrightarrow> elsewhere (wr_kv_prefix wr) f (fst (guests g)) (snd (guests g)))"

lemma gated_hook:
  assumes "gated active fid wr guests" "ac_filters active g = Some f" "f_on_request f trace req w = (res, w')"
    and "seeds_only (wr_kv_prefix wr) w"
  shows "seeds_only (wr_kv_prefix wr) w'"
proof (cases "g = fid")
  case True
  then show ?thesis using assms apikey_hook [of wr w trace req res w'] by (simp add: gated_def)
next
  case False
  then have "elsewhere (wr_kv_prefix wr) f (fst (guests g)) (snd (guests g))" "valid_prefix (wr_kv_prefix wr)"
    using assms(1,2) by (simp_all add: gated_def)
  then show ?thesis using assms(3,4) by (rule elsewhere_seeds)
qed

lemma passes_seeds:
  assumes "passes active trace chain r w r' w'" "gated active fid wr guests" "seeds_only (wr_kv_prefix wr) w"
  shows "seeds_only (wr_kv_prefix wr) w'"
  using assms by (induction rule: passes.induct) (auto dest: gated_hook)

lemma passes_append:
  "passes active trace (pre @ post) r w r' w' \<longleftrightarrow> (\<exists>r1 w1. passes active trace pre r w r1 w1 \<and> passes active trace post r1 w1 r' w')"
proof (induction pre arbitrary: r w)
  case (Cons fid pre)
  then show ?case by (fastforce elim!: passes_consE intro: passes.intros)
qed (auto elim: passes_nilE intro: passes.intros)

text \<open>The gate also opens: on a seeded store, with the steps the hook takes, a known key is admitted. Seeding again
  changes no entry and needs no quota, and a refused counter does not refuse the request.\<close>

definition seeded :: "bytes \<Rightarrow> mem_map world \<Rightarrow> bool" where
  "seeded p w \<longleftrightarrow> (\<forall>(key, user)\<in>set DEMO_KEYS. fst w (p @ [TAG_KV, KV_NS_DELIM] @ kv_key key) = Some (str_bytes user))"

lemma seeded_set:
  assumes "seeded (kv_prefix hs) w" "(key, user) \<in> set DEMO_KEYS"
  shows "fst (host_kv_set MemoryBackend hs (kv_key key) (str_bytes user) w) = fst w"
proof -
  have "fst w (ns_key hs TAG_KV (kv_key key)) = Some (str_bytes user)" using assms by (auto simp: seeded_def ns_key_def)
  then show ?thesis by (cases w) (auto simp: host_kv_set_def Let_def split: prod.splits)
qed

lemma tick_Suc: "sb_steps sb = Suc n \<Longrightarrow> tick sb = Some (sb\<lparr>sb_steps := n\<rparr>)"
  by (simp add: tick_def)

lemma seed_keys_noop:
  assumes "set keys \<subseteq> set DEMO_KEYS" "seeded (kv_prefix hs) w" "sb_steps sb = length keys + n"
  shows "\<exists>w'. fst w' = fst w \<and> run_guest MemoryBackend (seed_keys keys g) sb (hs, m, w) = run_guest MemoryBackend g (sb\<lparr>sb_steps := n\<rparr>) (hs, m, w')"
  using assms
proof (induction keys arbitrary: sb w)
  case (Cons kv keys)
  obtain key user where kv: "kv = (key, user)" by fastforce
  let ?w = "host_kv_set MemoryBackend hs (kv_key key) (str_bytes user) w"
  have w: "fst ?w = fst w" using Cons.prems kv by (intro seeded_set) auto
  then have "seeded (kv_prefix hs) ?w" using Cons.prems(2) by (simp add: seeded_def)
  then show ?case
    using Cons.IH [of ?w "sb\<lparr>sb_steps := length keys + n\<rparr>"] Cons.prems kv w by (auto simp: tick_Suc)
qed auto

lemma apikey_opens:
  assumes "wr_kv wr = MemoryBackend" "wr_start wr = Inr ()" "seeded (wr_kv_prefix wr) w"
    and "3 \<le> wr_steps wr (wr_init_deadline_ms wr)" "3 \<le> wr_steps wr (wr_request_deadline_ms wr)"
    and "(key, user) \<in> set DEMO_KEYS" "header_value req API_KEY_HEADER = Some key"
  shows "\<exists>ls w'. f_on_request (fresh_filter wr apikey) trace req w = (Inr (Modified (identity_edit user), ls), w')"
proof -
  let ?wr = "wr\<lparr>wr_init := apikey_init\<rparr>" and ?host = "HostState_new (wr_kv_prefix wr) (wr_ratelimit_bucket wr) (wr_wall wr)"
  let ?log = "Log Info (ascii ''filter-apikey: init seeded demo keys'') (Return ()) :: (unit, unit) guest"
  obtain n where n: "wr_steps wr (wr_init_deadline_ms wr) = length DEMO_KEYS + Suc n"
    using assms(4) by (auto simp: DEMO_KEYS_def dest: le_Suc_ex)
  obtain w1 where w1: "fst w1 = fst w"
      "run_guest MemoryBackend apikey_init (sandbox_of ?wr (wr_init_deadline_ms wr)) (?host, (), w)
         = run_guest MemoryBackend ?log (sandbox_of ?wr (wr_init_deadline_ms wr)\<lparr>sb_steps := Suc n\<rparr>) (?host, (), w1)"
    using seed_keys_noop [OF order.refl, of ?host w "sandbox_of ?wr (wr_init_deadline_ms wr)" "Suc n" ?log "()"] assms(3) n
    by (auto simp: apikey_init_def HostState_new_def sandbox_of_def)
  obtain inst where i: "instantiate_wasmtime ?wr w = (Inr inst, w1)" "kv_prefix (wi_host inst) = wr_kv_prefix wr"
    using w1(2) assms(1,2) by (simp add: instantiate_wasmtime_def Let_def tick_Suc HostState_new_def)
  obtain k where k: "wr_steps wr (wr_request_deadline_ms wr) = Suc (Suc (Suc k))"
    using assms(5) by (metis le_Suc_ex add_Suc numeral_3_eq_3 add_0)
  have found: "kv_get MemoryBackend (fst w1) (ns_key (wi_host inst) TAG_KV (kv_key key)) = Some (str_bytes user)"
    using assms(3,6) i(2) w1(1) by (auto simp: seeded_def ns_key_def)
  show ?thesis
    using i k found assms(1,7) demo_user_utf8 [OF assms(6)]
    by (simp add: fresh_filter_def apikey_def Let_def run_fresh_def call_guest_def apikey_on_request_def host_kv_get_def
        wasmtime_runtime_def sandbox_of_def tick_Suc identity_edit_def split: prod.splits)
qed
section \<open>Properties\<close>

text \<open>C14: The API-key gate cannot be passed without a key, wherever it stands in the chain and whatever other
  filters do: starting from a store in which the gate's own entries are the seeded ones (an empty store
  is one), a request is forwarded only if, as it reached the gate, its first key header carried a known key,
  and it left the gate with that key's user as the only value of the identity header, whatever the
  client sent there. The store keeps that shape.\<close>

theorem apikey_gate:
  assumes "gated active fid wr guests" "fid \<in> set chain" "seeds_only (wr_kv_prefix wr) w"
    and "dispatch_request active chain r trace w = (Forward r', w')"
  shows "seeds_only (wr_kv_prefix wr) w' \<and>
    (\<exists>pre post r1 w1 r2 w2 key user. chain = pre @ fid # post \<and>
       passes active trace pre r w r1 w1 \<and> passes active trace post r2 w2 r' w' \<and>
       (key, user) \<in> set DEMO_KEYS \<and> header_value r1 API_KEY_HEADER = Some key \<and>
       header_values (req_headers r2) ''x-authenticated-user'' = [user])"
proof -
  obtain pre post where chain: "chain = pre @ fid # post" using assms(2) by (meson split_list)
  have p: "passes active trace chain r w r' w'" using assms(4) by (simp add: dispatch_Forward)
  then obtain r1 w1 where 1: "passes active trace pre r w r1 w1" "passes active trace (fid # post) r1 w1 r' w'"
    by (auto simp: chain passes_append)
  have s: "seeds_only (wr_kv_prefix wr) w1" by (rule passes_seeds [OF 1(1) assms(1,3)])
  have f: "ac_filters active fid = Some (fresh_filter wr apikey)" "wr_kv wr = MemoryBackend" using assms(1) by (simp_all add: gated_def)
  obtain d ls w2 r2 where call: "f_on_request (fresh_filter wr apikey) trace r1 w1 = (Inr (d, ls), w2)"
      "d = Continue \<and> r2 = r1 \<or> (\<exists>e. d = Modified e \<and> r2 = apply_request_edit r1 e)" "passes active trace post r2 w2 r' w'"
    using 1(2) f(1) by (elim passes_consE) auto
  from apikey_hook [OF f(2) s call(1)] call(2) have "admitted r1 d" by auto
  then obtain key user where ku: "(key, user) \<in> set DEMO_KEYS" "header_value r1 API_KEY_HEADER = Some key" "d = Modified (identity_edit user)"
    by (auto simp: admitted_def)
  have "header_values (req_headers r2) ''x-authenticated-user'' = [user]"
  proof -
    have "\<not> is_repeatable ''x-authenticated-user''" by code_simp
    then show ?thesis using ku(3) call(2)
      by (simp add: apply_request_edit_def identity_edit_def header_values_set) (simp add: header_values_def)
  qed
  then show ?thesis using chain 1(1) call(3) ku(1,2) passes_seeds [OF p assms(1,3)] by blast
qed

definition example_active :: "(mem_map world, unit) ActiveConfig" where
  "example_active =
     \<lparr>ac_filters = [''apikey'' \<mapsto> fresh_filter (example_wasmtime (str_bytes ''apikey'' @ [KV_NS_DELIM]) ()) apikey,
                    ''hello'' \<mapsto> fresh_filter (example_wasmtime (str_bytes ''hello'' @ [KV_NS_DELIM]) 0) hello],
      ac_chain = [''hello'', ''apikey''], ac_routes = [], ac_tls = None, ac_quic_tls = None, ac_hash = ''00''\<rparr>"

definition example_get :: "Header list \<Rightarrow> HttpRequest" where
  "example_get hs = \<lparr>req_method = ''GET'', req_path = ''/'', req_authority = ''a'', req_scheme = ''http'', req_headers = hs\<rparr>"

definition example_store :: "mem_map world" where
  "example_store =
     ([str_bytes ''apikey'' @ [KV_NS_DELIM] @ [TAG_KV, KV_NS_DELIM] @ kv_key ''alice-secret'' \<mapsto> str_bytes ''alice'',
       str_bytes ''apikey'' @ [KV_NS_DELIM] @ [TAG_KV, KV_NS_DELIM] @ kv_key ''bob-secret'' \<mapsto> str_bytes ''bob''], KvQuota_new)"

lemma example_seeded:
  "seeds_only (str_bytes ''apikey'' @ [KV_NS_DELIM]) example_store" "seeded (str_bytes ''apikey'' @ [KV_NS_DELIM]) example_store"
  by (auto simp: seeds_only_def seeded_def example_store_def DEMO_KEYS_def split: if_splits)

lemma example_gated:
  "gated example_active ''apikey'' (example_wasmtime (str_bytes ''apikey'' @ [KV_NS_DELIM]) ())
     (\<lambda>_. (example_wasmtime (str_bytes ''hello'' @ [KV_NS_DELIM]) 0, hello))"
proof -
  have "valid_prefix (str_bytes ''apikey'' @ [KV_NS_DELIM])" "valid_prefix (str_bytes ''hello'' @ [KV_NS_DELIM])"
    "str_bytes ''hello'' \<noteq> str_bytes ''apikey''" by code_simp+
  then show ?thesis by (simp add: gated_def example_active_def example_wasmtime_def elsewhere_def)
qed

theorem apikey_gate_witness:
  "\<exists>r' w'. dispatch_request example_active [''apikey'']
     (example_get [\<lparr>h_name = ''X-Api-Key'', h_value = ''bob-secret''\<rparr>, \<lparr>h_name = ''X-Authenticated-User'', h_value = ''root''\<rparr>])
     \<lparr>trace_id = [], request_span_id = [], trace_flags = 0\<rparr> example_store = (Forward r', w') \<and>
     header_values (req_headers r') ''x-authenticated-user'' \<in> {[''alice''], [''bob'']}"
proof -
  let ?wr = "example_wasmtime (str_bytes ''apikey'' @ [KV_NS_DELIM]) ()"
  let ?r = "example_get [\<lparr>h_name = ''X-Api-Key'', h_value = ''bob-secret''\<rparr>, \<lparr>h_name = ''X-Authenticated-User'', h_value = ''root''\<rparr>]"
  let ?t = "\<lparr>trace_id = [], request_span_id = [], trace_flags = 0\<rparr>"
  have key: "header_value ?r API_KEY_HEADER = Some ''bob-secret''" by code_simp
  obtain ls w' where "f_on_request (fresh_filter ?wr apikey) ?t ?r example_store = (Inr (Modified (identity_edit ''bob''), ls), w')"
    using apikey_opens [of ?wr example_store "''bob-secret''" "''bob''" ?r ?t] key example_seeded(2)
    by (auto simp: example_wasmtime_def DEMO_KEYS_def)
  then have d: "dispatch_request example_active [''apikey''] ?r ?t example_store = (Forward (apply_request_edit ?r (identity_edit ''bob'')), w')"
    by (simp add: example_active_def)
  have "seeds_only (wr_kv_prefix ?wr) example_store" using example_seeded(1) by (simp add: example_wasmtime_def)
  from apikey_gate [OF example_gated _ this d] obtain r2 w2 user where
    "passes example_active ?t [] r2 w2 (apply_request_edit ?r (identity_edit ''bob'')) w'" "user \<in> {''alice'', ''bob''}"
    "header_values (req_headers r2) ''x-authenticated-user'' = [user]"
    by (auto simp: DEMO_KEYS_def Cons_eq_append_conv)
  then show ?thesis using d by (auto elim!: passes_nilE)
qed

end
