(* ===== verification/Authz.thy ===== *)
theory Authz
  imports Filters Outbound
begin

text \<open>
  The external authorization filter, \<open>examples/filters/filter-extauthz\<close>: the one sample filter that is lent
  the outbound HTTP capability. Its calls go through the host's \<open>send_request\<close>, so what the operator's
  policy promises of a call carries over to the decision the filter bases on it.
\<close>

section \<open>The filter\<close>

text \<open>The guest's side of \<open>wasi:http\<close>: which values its setters accept (an authority with its parts), the status
  of a response, and the text of an error code.\<close>

record 'b wasi_http =
  wh_set_method :: "string \<Rightarrow> bool"
  wh_set_scheme :: "Scheme \<Rightarrow> bool"
  wh_set_authority :: "string \<Rightarrow> (string \<times> u16 option \<times> string option) option"
  wh_set_path_with_query :: "string \<Rightarrow> bool"
  wh_status :: "'b \<Rightarrow> u16"
  wh_error_text :: "ErrorCode \<Rightarrow> string"

definition AUTHZ_URL_HEADER :: string where "AUTHZ_URL_HEADER = ''x-authz-url''"

definition forbid :: "string \<Rightarrow> RequestDecision" where
  "forbid reason =
     ShortCircuit
       \<lparr>resp_status = 403, resp_headers = [\<lparr>h_name = ''content-type'', h_value = ''text/plain''\<rparr>],
        resp_body = str_bytes (''ext_authz denied: '' @ reason)\<rparr>"

definition parse_url :: "string \<Rightarrow> (Scheme \<times> string \<times> string) option" where
  "parse_url url =
     (let split = (case strip_prefix ''https://'' url of
                     Some r \<Rightarrow> Some (SchemeHttps, r)
                   | None \<Rightarrow> map_option (\<lambda>r. (SchemeHttp, r)) (strip_prefix ''http://'' url))
      in case split of
           None \<Rightarrow> None
         | Some (scheme, rest) \<Rightarrow>
             (let (authority, path) =
                (if CHR ''/'' \<in> set rest
                 then (takeWhile (\<lambda>c. c \<noteq> CHR ''/'') rest, dropWhile (\<lambda>c. c \<noteq> CHR ''/'') rest)
                 else (rest, ''/''))
              in if authority = [] then None else Some (scheme, authority, path)))"

definition authorize ::
    "'b wasi_http \<Rightarrow> 'b network \<Rightarrow> nat option \<Rightarrow> OutboundState \<Rightarrow> string \<Rightarrow> OutboundState \<times> net_event list \<times> (string + u16)" where
  "authorize wh net stop st url =
     (case parse_url url of
        None \<Rightarrow> (st, [], Inl ''bad url'')
      | Some (scheme, authority, path) \<Rightarrow>
          if \<not> wh_set_method wh ''GET'' then (st, [], Inl ''method'')
          else if \<not> wh_set_scheme wh scheme then (st, [], Inl ''scheme'')
          else
            (case wh_set_authority wh authority of
               None \<Rightarrow> (st, [], Inl ''authority'')
             | Some parts \<Rightarrow>
                 if \<not> wh_set_path_with_query wh path then (st, [], Inl ''path'')
                 else
                   (let req = \<lparr>out_authority = Some parts, out_host = None, out_path = Some path\<rparr>;
                        (st, ev, res) = send_request net stop st req (scheme = SchemeHttps)
                    in (st, ev,
                        case res of
                          Inl code \<Rightarrow> Inl (wh_error_text wh code)
                        | Inr (response, _) \<Rightarrow> Inr (wh_status wh response)))))"

definition extauthz_on_request ::
    "'b wasi_http \<Rightarrow> 'b network \<Rightarrow> nat option \<Rightarrow> HttpRequest \<Rightarrow> OutboundState \<Rightarrow> OutboundState \<times> net_event list \<times> RequestDecision" where
  "extauthz_on_request wh net stop req st =
     (case header_value req AUTHZ_URL_HEADER of
        None \<Rightarrow> (st, [], forbid ''no authz url'')
      | Some url \<Rightarrow>
          (let (st, ev, res) = authorize wh net stop st url
           in (st, ev,
               case res of
                 Inr status \<Rightarrow>
                   if 200 \<le> status \<and> status < 300 then Continue
                   else forbid (''authz status '' @ dec_string (unat status))
               | Inl reason \<Rightarrow> forbid reason)))"

section \<open>URLs\<close>

fun scheme_text :: "Scheme \<Rightarrow> string" where
  "scheme_text SchemeHttp = ''http://''"
| "scheme_text SchemeHttps = ''https://''"

lemma strip_prefix_iff: "strip_prefix p s = Some r \<longleftrightarrow> s = p @ r"
  by (auto simp: strip_prefix_def prefix_def)

definition split_path :: "string \<Rightarrow> string \<times> string" where
  "split_path rest =
     (if CHR ''/'' \<in> set rest
      then (takeWhile (\<lambda>c. c \<noteq> CHR ''/'') rest, dropWhile (\<lambda>c. c \<noteq> CHR ''/'') rest)
      else (rest, ''/''))"

lemma split_scheme:
  "(case strip_prefix ''https://'' url of
      Some r \<Rightarrow> Some (SchemeHttps, r)
    | None \<Rightarrow> map_option (\<lambda>r. (SchemeHttp, r)) (strip_prefix ''http://'' url)) = Some (scheme, rest) \<longleftrightarrow>
   url = scheme_text scheme @ rest"
proof -
  have "strip_prefix ''https://'' (scheme_text SchemeHttp @ r) = None" for r by (simp add: strip_prefix_def)
  then have http: "strip_prefix ''https://'' url = Some r \<Longrightarrow> strip_prefix ''http://'' url = None" for r
    by (cases "strip_prefix ''http://'' url") (auto simp: strip_prefix_iff)
  have "url = scheme_text scheme @ rest \<longleftrightarrow> strip_prefix (scheme_text scheme) url = Some rest"
    by (simp add: strip_prefix_iff)
  then show ?thesis using http by (cases scheme) (auto simp del: append.simps split: option.splits)
qed

lemma parse_url_split:
  "parse_url url = Some (scheme, authority, path) \<longleftrightarrow>
     (\<exists>rest. url = scheme_text scheme @ rest \<and> split_path rest = (authority, path) \<and> authority \<noteq> [])"
  unfolding parse_url_def Let_def split_path_def [symmetric] split_scheme [symmetric]
  by (auto split: option.splits prod.splits)

lemma split_path_iff:
  "split_path rest = (a, p) \<longleftrightarrow>
     CHR ''/'' \<notin> set a \<and> (p = ''/'' \<and> rest = a \<or> (\<exists>q. p = CHR ''/'' # q \<and> rest = a @ CHR ''/'' # q))"
proof (cases "CHR ''/'' \<in> set rest")
  case True
  then obtain a' q where rest: "rest = a' @ CHR ''/'' # q" "CHR ''/'' \<notin> set a'" by (meson split_list_first)
  then have sp: "split_path rest = (a', CHR ''/'' # q)"
    by (auto simp: split_path_def takeWhile_tail dropWhile_append3 takeWhile_eq_all_conv)
  have "a' @ CHR ''/'' # q = a @ CHR ''/'' # q' \<longleftrightarrow> a' = a \<and> q = q'" if "CHR ''/'' \<notin> set a" for q'
    using that rest(2) split_once_Some_iff by (metis option.inject prod.inject)
  then show ?thesis unfolding sp using rest True by auto
next
  case False
  then show ?thesis by (auto simp: split_path_def)
qed

text \<open>What \<open>parse_url\<close> accepts, and that it reads the parts off exactly.\<close>

lemma parse_url_iff:
  "parse_url url = Some (scheme, authority, path) \<longleftrightarrow>
     authority \<noteq> [] \<and> CHR ''/'' \<notin> set authority \<and>
     (path = ''/'' \<and> url = scheme_text scheme @ authority \<or>
      (\<exists>q. path = CHR ''/'' # q \<and> url = scheme_text scheme @ authority @ CHR ''/'' # q))"
  unfolding parse_url_split split_path_iff by blast

section \<open>The answer of a call\<close>

lemma send_request_answer:
  assumes "send_request net stop st request use_tls = (st', ev, Inr (body, cap))"
  shows "\<exists>rq. Sent rq \<in> set ev \<and> net_send net rq = Inr body"
proof -
  obtain host port where
    "run_task net stop (os_policy st) host port use_tls request = (ev, Inr (body, cap))"
    using send_request_task [OF assms] by (metis (no_types))
  then have "resolve_and_connect net host port (os_policy st) use_tls (op_connect_timeout (os_policy st))
      (op_max_response_bytes (os_policy st)) request = (ev, Inr (body, cap))"
    by (rule run_task_events(2)) simp
  then show ?thesis
    by (auto simp: resolve_and_connect_def connect_and_send_def send_on_def and_then_def Let_def
        split: sum.splits list.splits if_splits)
qed

section \<open>Properties\<close>

text \<open>C19: External authorization is fail-closed. The filter answers 403 or lets the request on; it lets it on only
  when the request named an endpoint by a well-formed URL, the operator's allowlist has that endpoint, every
  address its name resolved to passes the SSRF guard, one of them was dialled, and the response to the request
  sent there has a 2xx status. Every error on the way is a 403.\<close>

theorem extauthz_fail_closed:
  assumes "extauthz_on_request wh net stop req st = (st', ev, d)"
  shows "(\<exists>resp. d = ShortCircuit resp \<and> resp_status resp = 403) \<or>
    d = Continue \<and>
    (\<exists>url scheme authority path host port addr rest rq body.
       header_value req AUTHZ_URL_HEADER = Some url \<and> parse_url url = Some (scheme, authority, path) \<and>
       map_option fst (wh_set_authority wh authority) = Some host \<and>
       policy_allows (os_policy st) scheme host port \<and> net_resolve net host port = Inr (addr # rest) \<and>
       list_all (\<lambda>a. ssrf_safe (op_allow_private (os_policy st)) (fst a)) (addr # rest) \<and>
       Dialled addr (op_connect_timeout (os_policy st)) \<in> set ev \<and>
       Sent rq \<in> set ev \<and> net_send net rq = Inr body \<and> 200 \<le> wh_status wh body \<and> wh_status wh body < 300)"
proof (cases "\<exists>resp. d = ShortCircuit resp \<and> resp_status resp = 403")
  case False
  then have "d = Continue"
    using assms by (auto simp: extauthz_on_request_def forbid_def split: option.splits prod.splits sum.splits if_splits)
  then obtain url status where url: "header_value req AUTHZ_URL_HEADER = Some url"
    and a: "authorize wh net stop st url = (st', ev, Inr status)" "200 \<le> status" "status < 300"
    using assms by (auto simp: extauthz_on_request_def forbid_def split: option.splits prod.splits sum.splits if_splits)
  then obtain scheme authority path parts body cap where
    p: "parse_url url = Some (scheme, authority, path)" "wh_set_authority wh authority = Some parts" "status = wh_status wh body"
    and s: "send_request net stop st \<lparr>out_authority = Some parts, out_host = None, out_path = Some path\<rparr> (scheme = SchemeHttps) = (st', ev, Inr (body, cap))"
    by (auto simp: authorize_def Let_def split: option.splits prod.splits sum.splits if_splits)
  have scheme: "(if scheme = SchemeHttps then SchemeHttps else SchemeHttp) = scheme" by (cases scheme) auto
  obtain addr t where d: "Dialled addr t \<in> set ev" using send_request_vetted(3) [OF s, of body cap] by auto
  obtain host port rest where
    "authority_of \<lparr>out_authority = Some parts, out_host = None, out_path = Some path\<rparr> (scheme = SchemeHttps) = Some (host, port)"
    "policy_allows (os_policy st) scheme host port" "net_resolve net host port = Inr (addr # rest)"
    "t = op_connect_timeout (os_policy st)"
    "list_all (\<lambda>a. ssrf_safe (op_allow_private (os_policy st)) (fst a)) (addr # rest)"
    using send_request_vetted(1) [OF s] d unfolding scheme by blast
  moreover from this(1) have "fst parts = host" by (cases parts) (auto simp: authority_of_def split: if_splits)
  then have "map_option fst (wh_set_authority wh authority) = Some host" by (simp add: p(2))
  moreover obtain rq where "Sent rq \<in> set ev" "net_send net rq = Inr body" using send_request_answer [OF s] by blast
  ultimately show ?thesis using \<open>d = Continue\<close> url p(1) a(2,3) [unfolded p(3)] d by blast
qed simp

text \<open>The endpoint of the example answers 200, 302, or resolves to a private address.\<close>

definition example_wasi :: "u16 wasi_http" where
  "example_wasi =
     \<lparr>wh_set_method = (\<lambda>_. True), wh_set_scheme = (\<lambda>_. True), wh_set_authority = (\<lambda>a. Some (a, None, Some a)),
      wh_set_path_with_query = (\<lambda>_. True), wh_status = id, wh_error_text = (\<lambda>_. ''ErrorCode'')\<rparr>"

definition example_endpoint :: "SocketAddr list \<Rightarrow> u16 \<Rightarrow> u16 network" where
  "example_endpoint addrs status =
     \<lparr>net_resolve = (\<lambda>_ _. Inr addrs), net_connect = (\<lambda>_ _. Inr ()), net_client_config = True,
      net_server_name = (\<lambda>_. True), net_tls = (\<lambda>_. Inr ()), net_handshake = Inr (), net_uri_ok = (\<lambda>_. True),
      net_send = (\<lambda>_. Inr status)\<rparr>"

definition example_check :: "SocketAddr list \<Rightarrow> u16 \<Rightarrow> OutboundState \<times> net_event list \<times> RequestDecision" where
  "example_check addrs status =
     extauthz_on_request example_wasi (example_endpoint addrs status) None
       (example_get [\<lparr>h_name = ''X-Authz-Url'', h_value = ''https://idp.example/check?u=1''\<rparr>]) (OutboundState_new example_policy)"

theorem extauthz_fail_closed_witness:
  "snd (snd (example_check [(V4 0x5DB8D822, 443)] 200)) = Continue \<and>
   (\<exists>addr t. Dialled addr t \<in> set (fst (snd (example_check [(V4 0x5DB8D822, 443)] 200)))) \<and>
   snd (snd (example_check [(V4 0x5DB8D822, 443)] 302)) = forbid ''authz status 302'' \<and>
   snd (snd (example_check [(V4 0x0A000001, 443)] 200)) = forbid ''ErrorCode''"
proof -
  have c: "snd (snd (example_check [(V4 0x5DB8D822, 443)] 200)) = Continue" by code_simp
  obtain st ev where "example_check [(V4 0x5DB8D822, 443)] 200 = (st, ev, Continue)" using c by (metis prod.collapse)
  note run = this
  have "\<exists>addr t. Dialled addr t \<in> set (fst (snd (example_check [(V4 0x5DB8D822, 443)] 200)))"
    using extauthz_fail_closed [OF run [unfolded example_check_def]] by (auto simp: run)
  moreover have "snd (snd (example_check [(V4 0x5DB8D822, 443)] 302)) = forbid ''authz status 302''" by code_simp
  moreover have "snd (snd (example_check [(V4 0x0A000001, 443)] 200)) = forbid ''ErrorCode''" by code_simp
  ultimately show ?thesis using c by blast
qed

end
