(* ===== verification/Streaming.thy ===== *)
theory Streaming
  imports Filters
begin

text \<open>
  The streaming body filter: the experimental runtime of \<open>host/src/streaming.rs\<close> and the guest
  \<open>examples/filters/filter-streaming\<close>, which scans the request body as it arrives and keeps only the few bytes
  in which a marker may straddle two reads. The engine and the stream are arguments; the filter's loop returns
  nothing (\<open>None\<close>) while the stream neither ends nor delivers.
\<close>

section \<open>The guest\<close>

datatype StreamResult = Complete nat | Dropped | Cancelled

datatype StreamBodyDecision = StreamContinue | StreamShortCircuit HttpResponse

definition STREAM_MARKER :: bytes where "STREAM_MARKER = str_bytes ''deny-body''"

text \<open>A read is its status and the returned buffer.\<close>

type_synonym read = "StreamResult \<times> bytes"

definition scan_chunk :: "nat \<Rightarrow> bytes \<Rightarrow> bytes \<times> bool \<Rightarrow> bytes \<times> bool" where
  "scan_chunk n buf s =
     (case s of (carry, denied) \<Rightarrow>
        if n > 0 \<and> \<not> denied
        then
          (let window = carry @ buf;
               denied = (denied \<or> list_ex (\<lambda>w. eq_ignore_case_bytes w STREAM_MARKER) (windows (length STREAM_MARKER) window));
               keep = length STREAM_MARKER - 1;
               start = length window - keep
           in (drop start window, denied))
        else (carry, denied))"

fun read_loop :: "read list \<Rightarrow> bytes \<times> bool \<Rightarrow> (bytes \<times> bool) option" where
  "read_loop [] s = None"
| "read_loop ((Complete n, buf) # reads) s = read_loop reads (scan_chunk n buf s)"
| "read_loop ((Dropped, buf) # reads) s = Some s"
| "read_loop ((Cancelled, buf) # reads) s = Some s"

definition process_body :: "read list \<Rightarrow> StreamBodyDecision option" where
  "process_body reads =
     map_option (\<lambda>(carry, denied).
       if denied
       then StreamShortCircuit \<lparr>resp_status = 403, resp_headers = [\<lparr>h_name = ''x-plecto'', h_value = ''blocked-stream-body''\<rparr>],
                                resp_body = str_bytes ''blocked streaming body''\<rparr>
       else StreamContinue)
       (read_loop reads ([], False))"

section \<open>The host\<close>

datatype StreamingDecision = StreamingContinue | StreamingShortCircuit u16 bytes

record StreamingLimits =
  memory_cap :: nat
  deadline_ms :: u64

definition map_decision :: "StreamBodyDecision \<Rightarrow> StreamingDecision" where
  "map_decision d =
     (case d of
        StreamContinue \<Rightarrow> StreamingContinue
      | StreamShortCircuit resp \<Rightarrow> StreamingShortCircuit (resp_status resp) (resp_body resp))"

text \<open>The engine: it is built, compiles a component, links the capabilities it lends, instantiates under the limits,
  makes a stream of the body, and runs the export, which may trap, or never come back when the guest idles.\<close>

record ('c, 'i) streaming_engine =
  se_build :: "string + unit"
  se_compile :: "bytes \<Rightarrow> string + 'c"
  se_link_proxy :: "string + unit"
  se_link_cli :: "string + unit"
  se_instantiate :: "StreamingLimits \<Rightarrow> 'c \<Rightarrow> string + 'i"
  se_stream :: "bytes \<Rightarrow> string + read list"
  se_call :: "StreamingLimits \<Rightarrow> 'i \<Rightarrow> read list \<Rightarrow> (string + StreamBodyDecision) option"

definition or_else :: "string + 'a \<Rightarrow> ('a \<Rightarrow> (string + 'b) option) \<Rightarrow> (string + 'b) option" where
  "or_else r k = (case r of Inl e \<Rightarrow> Some (Inl e) | Inr a \<Rightarrow> k a)"

definition run_streaming_body ::
    "('c, 'i) streaming_engine \<Rightarrow> bytes \<Rightarrow> bytes \<Rightarrow> StreamingLimits \<Rightarrow> (string + StreamingDecision) option" where
  "run_streaming_body se wasm body limits =
     or_else (se_build se) (\<lambda>_.
     or_else (se_compile se wasm) (\<lambda>c.
     or_else (se_link_proxy se) (\<lambda>_.
     or_else (se_link_cli se) (\<lambda>_.
     or_else (se_instantiate se limits c) (\<lambda>inst.
     or_else (se_stream se body) (\<lambda>reader.
       map_option (map_sum id map_decision) (se_call se limits inst reader)))))))"

section \<open>Scanning in pieces\<close>

definition occurs :: "('a list \<Rightarrow> bool) \<Rightarrow> nat \<Rightarrow> 'a list \<Rightarrow> bool" where
  "occurs P k xs \<longleftrightarrow> list_ex P (windows k xs)"

lemma occurs_iff: "occurs P k xs \<longleftrightarrow> (\<exists>i. i + k \<le> length xs \<and> P (take k (drop i xs)))"
proof -
  have "i \<in> set [0..<length xs + 1 - k] \<longleftrightarrow> i + k \<le> length xs" for i by auto
  then show ?thesis by (auto simp: occurs_def windows_def list_ex_iff)
qed

definition suffix_of :: "nat \<Rightarrow> 'a list \<Rightarrow> 'a list" where
  "suffix_of n xs = drop (length xs - n) xs"

lemma suffix_of_append: "suffix_of n (suffix_of n a @ b) = suffix_of n (a @ b)"
  by (cases "length a \<le> n") (auto simp: suffix_of_def add.commute)

lemma occurs_append:
  assumes "\<not> occurs P (Suc n) a"
  shows "occurs P (Suc n) (suffix_of n a @ b) \<longleftrightarrow> occurs P (Suc n) (a @ b)" (is "?L \<longleftrightarrow> ?R")
proof
  let ?m = "length a - n"
  have d: "drop (?m + j) (a @ b) = drop j (suffix_of n a @ b)" for j
    by (simp add: suffix_of_def ac_simps)
  show "?R" if ?L
  proof -
    from that obtain i where i: "i + Suc n \<le> length (suffix_of n a @ b)" "P (take (Suc n) (drop i (suffix_of n a @ b)))"
      by (auto simp: occurs_iff)
    then have "?m + i + Suc n \<le> length (a @ b)" by (simp add: suffix_of_def)
    then show ?thesis using i(2) unfolding occurs_iff d [symmetric] by blast
  qed
  show "?L" if ?R
  proof -
    from that obtain i where i: "i + Suc n \<le> length (a @ b)" "P (take (Suc n) (drop i (a @ b)))" by (auto simp: occurs_iff)
    have "\<not> i + Suc n \<le> length a" using assms i(2) by (auto simp: occurs_iff)
    then have "?m \<le> i" by linarith
    then obtain j where j: "i = ?m + j" using le_Suc_ex by blast
    then have "j + Suc n \<le> length (suffix_of n a @ b)" using i(1) by (simp add: suffix_of_def)
    then show ?thesis using i(2) unfolding occurs_iff j d by blast
  qed
qed

text \<open>The bytes of a stream read to its end: each read fills the buffer with as many bytes as it reports.\<close>

fun delivered :: "read list \<Rightarrow> bytes option" where
  "delivered [] = None"
| "delivered ((Complete n, buf) # reads) = (if n = length buf then map_option ((@) buf) (delivered reads) else None)"
| "delivered ((Dropped, buf) # reads) = Some []"
| "delivered ((Cancelled, buf) # reads) = None"

definition marked :: "bytes \<Rightarrow> bool" where
  "marked body \<longleftrightarrow> occurs (\<lambda>w. eq_ignore_case_bytes w MARKER) 9 body"

text \<open>The loop after the bytes \<open>seen\<close>: it has denied them, or carries their last eight.\<close>

definition scanned :: "bytes \<Rightarrow> bytes \<times> bool \<Rightarrow> bool" where
  "scanned seen s \<longleftrightarrow> snd s = marked seen \<and> (\<not> snd s \<longrightarrow> fst s = suffix_of 8 seen) \<and> length (fst s) \<le> 8"

lemma occurs_mono: "occurs P k a \<Longrightarrow> occurs P k (a @ b)"
proof -
  assume "occurs P k a"
  then obtain i where "i + k \<le> length a" "P (take k (drop i a))" by (auto simp: occurs_iff)
  then have "i + k \<le> length (a @ b)" "P (take k (drop i (a @ b)))" by simp_all
  then show ?thesis unfolding occurs_iff by blast
qed

lemma scan_chunk_scanned:
  assumes "scanned seen s" "n = length buf"
  shows "scanned (seen @ buf) (scan_chunk n buf s)"
proof -
  obtain carry denied where s: "s = (carry, denied)" by fastforce
  have m: "length STREAM_MARKER = 9" "length MARKER = 9" "STREAM_MARKER = MARKER" by (simp_all add: STREAM_MARKER_def MARKER_def str_bytes_def)
  show ?thesis
  proof (cases "n > 0 \<and> \<not> denied")
    case True
    then have c: "carry = suffix_of 8 seen" "\<not> marked seen" using assms(1) s by (auto simp: scanned_def)
    then have "marked (carry @ buf) = marked (seen @ buf)"
      using occurs_append [of "\<lambda>w. eq_ignore_case_bytes w MARKER" 8 seen buf] by (simp add: marked_def)
    moreover have "scan_chunk n buf s = (suffix_of 8 (carry @ buf), marked (carry @ buf))"
      using True by (simp add: scan_chunk_def s m suffix_of_def marked_def occurs_def)
    ultimately show ?thesis using c(1) by (simp add: scanned_def suffix_of_append) (simp add: suffix_of_def)
  next
    case False
    then show ?thesis using assms s occurs_mono by (auto simp: scanned_def scan_chunk_def marked_def)
  qed
qed

lemma read_loop_scanned:
  assumes "delivered reads = Some body" "scanned seen s"
  shows "\<exists>s'. read_loop reads s = Some s' \<and> scanned (seen @ body) s'"
  using assms
proof (induction reads s arbitrary: seen body rule: read_loop.induct)
  case (2 n buf reads s)
  then obtain rest where "delivered reads = Some rest" "body = buf @ rest" "n = length buf" by (auto split: if_splits)
  then show ?case using "2.IH" [of rest "seen @ buf"] scan_chunk_scanned [OF "2.prems"(2)] by auto
qed auto

lemma read_loop_carry: "read_loop reads s = Some st \<Longrightarrow> length (fst s) \<le> 8 \<Longrightarrow> length (fst st) \<le> 8"
proof (induction reads s rule: read_loop.induct)
  case (2 n buf reads s)
  have "length (fst (scan_chunk n buf s)) \<le> 8"
    using "2.prems"(2) by (cases s) (auto simp: scan_chunk_def Let_def STREAM_MARKER_def str_bytes_def)
  then show ?case using 2 by simp
qed auto

lemma scanned_start: "scanned [] ([], False)"
  by (simp add: scanned_def marked_def occurs_iff suffix_of_def)

section \<open>Properties\<close>

text \<open>C18: Streaming decides as buffering does. However a body is cut into reads (empty ones included, the marker
  split over any of them), once the stream ends the streaming filter has returned, and it refuses the body
  exactly when the buffered conformance filter, run by the host on the whole body, refuses it; both answer 403.
  At every point of the loop it carries at most eight bytes.\<close>

theorem streaming_agrees:
  assumes "delivered reads = Some body" "0 < sb_steps sb"
  shows "\<exists>d. process_body reads = Some d \<and>
    (d = StreamContinue \<longleftrightarrow> (\<exists>b. fst (run_guest B (hello_on_request_body body) sb s) = Inr (BodyContinue b))) \<and>
    ((\<exists>resp. d = StreamShortCircuit resp \<and> resp_status resp = 403) \<longleftrightarrow>
       (\<exists>resp. fst (run_guest B (hello_on_request_body body) sb s) = Inr (BodyShortCircuit resp) \<and> resp_status resp = 403)) \<and>
    (\<forall>pre post st. reads = pre @ post \<and> read_loop (pre @ [(Dropped, [])]) ([], False) = Some st \<longrightarrow> length (fst st) \<le> 8)"
proof -
  obtain s' where s': "read_loop reads ([], False) = Some s'" "scanned body s'"
    using read_loop_scanned [OF assms(1) scanned_start] by auto
  obtain hs m w where s: "s = (hs, m, w)" by (metis prod_cases3)
  obtain n where "tick sb = Some n" using assms(2) by (simp add: tick_def)
  then have "fst (run_guest B (hello_on_request_body body) sb s) = Inr
      (if marked body then BodyShortCircuit \<lparr>resp_status = 403, resp_headers = [\<lparr>h_name = ''x-plecto'', h_value = ''blocked-body''\<rparr>],
                                 resp_body = str_bytes ''blocked body by filter-hello''\<rparr>
       else BodyContinue (map upper_byte body))"
    by (simp add: s hello_on_request_body_def marked_def occurs_def)
  moreover have "length (fst st) \<le> 8" if "reads = pre @ post" "read_loop (pre @ [(Dropped, [])]) ([], False) = Some st" for pre post st
    using read_loop_carry [OF that(2)] by simp
  ultimately show ?thesis using s' by (auto simp: process_body_def scanned_def split: prod.splits)
qed

definition example_reads :: "read list" where
  "example_reads =
     [(Complete 7, str_bytes ''x DENY-''), (Complete 0, []), (Complete 5, str_bytes ''bOdy!''), (Dropped, [])]"

theorem streaming_agrees_witness:
  "\<exists>resp. process_body example_reads = Some (StreamShortCircuit resp) \<and> resp_status resp = 403 \<and>
     (\<exists>resp'. fst (run_guest MemoryBackend (hello_on_request_body (str_bytes ''x DENY-bOdy!'')) \<lparr>sb_steps = 1, sb_memory = 0\<rparr>
        (HostState_new [97, 0x1f] None 0, 0, Map.empty, KvQuota_new)) = Inr (BodyShortCircuit resp') \<and> resp_status resp' = 403)"
proof -
  have "delivered example_reads = Some (str_bytes ''x DENY-bOdy!'')" by code_simp
  moreover have "\<exists>resp. process_body example_reads = Some (StreamShortCircuit resp) \<and> resp_status resp = 403"
  proof -
    have "process_body example_reads = Some (StreamShortCircuit
        \<lparr>resp_status = 403, resp_headers = [\<lparr>h_name = ''x-plecto'', h_value = ''blocked-stream-body''\<rparr>],
         resp_body = str_bytes ''blocked streaming body''\<rparr>)" by code_simp
    then show ?thesis by simp
  qed
  ultimately show ?thesis
    using streaming_agrees [of example_reads "str_bytes ''x DENY-bOdy!''" "\<lparr>sb_steps = 1, sb_memory = 0\<rparr>" MemoryBackend
        "(HostState_new [97, 0x1f] None 0, 0, Map.empty, KvQuota_new)"] by auto
qed

text \<open>The runtime never turns a failure into a pass: a body goes on only if every stage succeeded and the guest
  itself returned \<open>continue\<close>.\<close>

theorem run_streaming_fail_closed:
  "run_streaming_body se wasm body limits = Some (Inr StreamingContinue) \<longleftrightarrow>
     (\<exists>c inst reader. se_build se = Inr () \<and> se_compile se wasm = Inr c \<and> se_link_proxy se = Inr () \<and> se_link_cli se = Inr () \<and>
        se_instantiate se limits c = Inr inst \<and> se_stream se body = Inr reader \<and>
        se_call se limits inst reader = Some (Inr StreamContinue))"
proof -
  have "map_sum id map_decision z = Inr StreamingContinue \<longleftrightarrow> z = Inr StreamContinue" for z :: "string + StreamBodyDecision"
    by (cases z) (auto simp: map_decision_def split: StreamBodyDecision.splits)
  then show ?thesis by (auto simp: run_streaming_body_def or_else_def split: sum.splits)
qed

end
