(* ===== verification/Health.thy ===== *)
theory Health
  imports Registry Headers
begin

text \<open>
  The health-check supervisor, \<open>server/src/health.rs\<close>. One task sweeps over all groups, starts a probe
  for every instance that is due, forgets the instances that left, and sleeps. A probe is a task of its
  own: it runs after the sweep, beside other probes and requests, and ends with one health record.
  Instants are milliseconds. The HTTP client of the probes is an argument: the status that arrives within
  the timeout, if any.
\<close>

section \<open>A probe\<close>

definition rsplit_once :: "char \<Rightarrow> string \<Rightarrow> (string \<times> string) option" where
  "rsplit_once c s = map_option (\<lambda>(a, b). (rev b, rev a)) (split_once c (rev s))"

definition probe_address :: "string \<Rightarrow> u16 option \<Rightarrow> string" where
  "probe_address address port =
     (case (port, rsplit_once CHR '':'' address) of
        (Some port, Some (host, _)) \<Rightarrow> host @ '':'' @ dec_string (unat port)
      | _ \<Rightarrow> address)"

record probe_client =
  pc_uri_ok :: "string \<Rightarrow> bool"
  pc_reply :: "string \<Rightarrow> nat \<Rightarrow> u16 option"

definition is_success :: "u16 \<Rightarrow> bool" where
  "is_success status \<longleftrightarrow> 200 \<le> status \<and> status < 300"

definition probe_uri :: "HealthConfig \<Rightarrow> UpstreamInstance \<Rightarrow> string" where
  "probe_uri health i = ''http://'' @ probe_address (inst_address i) (health_port health) @ health_path health"

definition probe_once :: "probe_client \<Rightarrow> HealthConfig \<Rightarrow> UpstreamInstance \<Rightarrow> UpstreamInstance" where
  "probe_once client health i =
     (let uri = probe_uri health i in
      if \<not> pc_uri_ok client uri then record_probe_failure i
      else case pc_reply client uri (max (unat (timeout_ms health)) 1) of
             Some status \<Rightarrow> if is_success status then record_probe_success i else record_probe_failure i
           | None \<Rightarrow> record_probe_failure i)"

section \<open>A sweep\<close>

text \<open>The groups of the registry, in the order in which the map yields them.\<close>

definition group_list :: "UpstreamRegistry \<Rightarrow> string list \<Rightarrow> UpstreamGroup list" where
  "group_list reg order =
     (if reg_poisoned reg then []
      else map (\<lambda>k. group_heap reg ! k) (List.map_filter (groups reg) order))"

type_synonym probe_key = "string \<times> string"

record sweep =
  sw_last :: "probe_key \<Rightarrow> nat option"
  sw_live :: "probe_key set"
  sw_period :: nat
  sw_probes :: "(HealthConfig \<times> nat) list"

definition probe_interval :: "HealthConfig \<Rightarrow> nat" where
  "probe_interval health = max (unat (interval_ms health)) 1"

definition probe_due :: "(probe_key \<Rightarrow> nat option) \<Rightarrow> nat \<Rightarrow> nat \<Rightarrow> probe_key \<Rightarrow> bool" where
  "probe_due seen_at now interval key = (case seen_at key of None \<Rightarrow> True | Some t \<Rightarrow> now - t \<ge> interval)"

definition probe_key :: "UpstreamGroup \<Rightarrow> inst_heap \<Rightarrow> nat \<Rightarrow> probe_key" where
  "probe_key g h i = (g_name g, inst_address (h ! i))"

definition sweep_instance :: "nat \<Rightarrow> inst_heap \<Rightarrow> UpstreamGroup \<Rightarrow> nat \<Rightarrow> sweep \<Rightarrow> sweep" where
  "sweep_instance now h g i sw =
     (let key = probe_key g h i;
          sw = (if probe_due (sw_last sw) now (probe_interval (g_health g)) key
                then sw\<lparr>sw_last := (sw_last sw)(key \<mapsto> now), sw_probes := sw_probes sw @ [(g_health g, i)]\<rparr>
                else sw)
      in sw\<lparr>sw_live := insert key (sw_live sw)\<rparr>)"

definition sweep_group :: "nat \<Rightarrow> inst_heap \<Rightarrow> UpstreamGroup \<Rightarrow> sweep \<Rightarrow> sweep" where
  "sweep_group now h g sw =
     fold (sweep_instance now h g) (instances g) (sw\<lparr>sw_period := min (sw_period sw) (probe_interval (g_health g))\<rparr>)"

definition sweep_groups :: "nat \<Rightarrow> inst_heap \<Rightarrow> UpstreamGroup list \<Rightarrow> (probe_key \<Rightarrow> nat option) \<Rightarrow> sweep" where
  "sweep_groups now h gs seen_at =
     fold (sweep_group now h) gs \<lparr>sw_last = seen_at, sw_live = {}, sw_period = 5000, sw_probes = []\<rparr>"

text \<open>One round of \<open>serve_health_checks\<close>: the probes it starts, the bookkeeping, and how long it sleeps.\<close>

definition health_round ::
    "nat \<Rightarrow> inst_heap \<Rightarrow> UpstreamGroup list \<Rightarrow> (probe_key \<Rightarrow> nat option) \<Rightarrow>
     (HealthConfig \<times> nat) list \<times> (probe_key \<Rightarrow> nat option) \<times> nat" where
  "health_round now h gs seen_at =
     (let sw = sweep_groups now h gs seen_at
      in (sw_probes sw, sw_last sw |` sw_live sw, max (sw_period sw) 20))"

section \<open>What a sweep does\<close>

text \<open>The instances of a group that are the first of their address, which is how the bookkeeping tells
  instances apart.\<close>

fun firsts :: "('a \<Rightarrow> 'b) \<Rightarrow> 'b set \<Rightarrow> 'a list \<Rightarrow> 'a list" where
  "firsts f seen [] = []"
| "firsts f seen (x # xs) = (if f x \<in> seen then firsts f seen xs else x # firsts f (insert (f x) seen) xs)"

lemma firsts_all: "distinct (map f xs) \<Longrightarrow> f ` set xs \<inter> seen = {} \<Longrightarrow> firsts f seen xs = xs"
  by (induction xs arbitrary: seen) auto

lemma firsts_keys: "f ` set (firsts f seen xs) = f ` set xs - seen"
  by (induction xs arbitrary: seen) auto

definition due_probes :: "nat \<Rightarrow> inst_heap \<Rightarrow> (probe_key \<Rightarrow> nat option) \<Rightarrow> UpstreamGroup \<Rightarrow> (HealthConfig \<times> nat) list" where
  "due_probes now h seen_at g =
     map (Pair (g_health g))
       (filter (\<lambda>i. probe_due seen_at now (probe_interval (g_health g)) (probe_key g h i)) (firsts (probe_key g h) {} (instances g)))"

definition group_keys :: "inst_heap \<Rightarrow> UpstreamGroup \<Rightarrow> probe_key set" where
  "group_keys h g = probe_key g h ` set (instances g)"

lemma not_due_again: "\<not> probe_due (m(key \<mapsto> now)) now (probe_interval health) key"
  by (simp add: probe_due_def probe_interval_def)

text \<open>The bookkeeping after the keys of a set were visited.\<close>

definition visited :: "nat \<Rightarrow> nat \<Rightarrow> probe_key set \<Rightarrow> (probe_key \<Rightarrow> nat option) \<Rightarrow> probe_key \<Rightarrow> nat option" where
  "visited now interval ks seen_at key = (if key \<in> ks \<and> probe_due seen_at now interval key then Some now else seen_at key)"

lemma visited_insert:
  "visited now itv (insert k seen) m =
     (if k \<notin> seen \<and> probe_due m now itv k then (visited now itv seen m)(k \<mapsto> now) else visited now itv seen m)"
  by (rule ext) (auto simp: visited_def)

lemma visited_due: "0 < itv \<Longrightarrow> probe_due (visited now itv seen m) now itv k \<longleftrightarrow> k \<notin> seen \<and> probe_due m now itv k"
  by (auto simp: visited_def probe_due_def split: option.splits)

lemma sweep_instances_eq:
  fixes g h now seen_at
  defines "itv \<equiv> probe_interval (g_health g)" and "key \<equiv> probe_key g h"
  assumes "sw_last sw = visited now itv seen seen_at"
  shows "fold (sweep_instance now h g) is sw =
    sw\<lparr>sw_last := visited now itv (seen \<union> key ` set is) seen_at, sw_live := sw_live sw \<union> key ` set is,
       sw_probes := sw_probes sw @ map (Pair (g_health g)) (filter (\<lambda>i. probe_due seen_at now itv (key i)) (firsts key seen is))\<rparr>"
  using assms(3)
proof (induction "is" arbitrary: sw seen)
  case (Cons i "is")
  have itv: "0 < itv" by (simp add: itv_def probe_interval_def)
  have step: "sweep_instance now h g i sw =
      sw\<lparr>sw_last := visited now itv (insert (key i) seen) seen_at, sw_live := insert (key i) (sw_live sw),
         sw_probes := sw_probes sw @ (if key i \<notin> seen \<and> probe_due seen_at now itv (key i) then [(g_health g, i)] else [])\<rparr>"
    using Cons.prems visited_due [OF itv] by (simp add: sweep_instance_def Let_def visited_insert flip: itv_def key_def)
  show ?case
    using Cons.IH [of "sweep_instance now h g i sw" "insert (key i) seen"] by (simp add: step insert_absorb)
qed simp

lemma sweep_group_eq:
  assumes "\<forall>key\<in>group_keys h g. sw_last sw key = seen_at key"
  shows "sweep_group now h g sw =
    sw\<lparr>sw_last := visited now (probe_interval (g_health g)) (group_keys h g) (sw_last sw), sw_live := sw_live sw \<union> group_keys h g,
       sw_period := min (sw_period sw) (probe_interval (g_health g)), sw_probes := sw_probes sw @ due_probes now h seen_at g\<rparr>"
proof -
  let ?itv = "probe_interval (g_health g)"
  let ?sw = "sw\<lparr>sw_period := min (sw_period sw) ?itv\<rparr>"
  have e: "sw_last ?sw = visited now ?itv {} (sw_last sw)" by (simp add: visited_def fun_eq_iff)
  have "probe_due (sw_last sw) now ?itv (probe_key g h i) = probe_due seen_at now ?itv (probe_key g h i)"
    if "i \<in> set (firsts (probe_key g h) {} (instances g))" for i
  proof -
    have "probe_key g h i \<in> group_keys h g"
      using that firsts_keys [of "probe_key g h" "{}" "instances g"] by (auto simp: group_keys_def)
    then show ?thesis using assms by (simp add: probe_due_def)
  qed
  then have "filter (\<lambda>i. probe_due (sw_last sw) now ?itv (probe_key g h i)) (firsts (probe_key g h) {} (instances g)) =
      filter (\<lambda>i. probe_due seen_at now ?itv (probe_key g h i)) (firsts (probe_key g h) {} (instances g))"
    by (rule filter_cong [OF refl])
  then show ?thesis
    unfolding sweep_group_def sweep_instances_eq [OF e] by (simp add: group_keys_def due_probes_def)
qed

text \<open>Groups with different names have different keys, so the sweep visits each group as if it were alone.\<close>

lemma group_keys_name: "key \<in> group_keys h g \<Longrightarrow> fst key = g_name g"
  by (auto simp: group_keys_def probe_key_def)

definition swept :: "nat \<Rightarrow> inst_heap \<Rightarrow> UpstreamGroup list \<Rightarrow> (probe_key \<Rightarrow> nat option) \<Rightarrow> probe_key \<Rightarrow> nat option" where
  "swept now h gs seen_at key =
     (if \<exists>g\<in>set gs. key \<in> group_keys h g \<and> probe_due seen_at now (probe_interval (g_health g)) key then Some now else seen_at key)"

lemma Min_insert_min: "finite A \<Longrightarrow> Min (insert (min a b) A) = Min (insert a (insert b A))"
  by (cases "A = {}") (simp_all add: min.assoc)

lemma sweep_fold:
  assumes "distinct (map g_name gs)" "\<forall>g\<in>set gs. \<forall>key\<in>group_keys h g. sw_last sw key = seen_at key"
  shows "fold (sweep_group now h) gs sw =
    sw\<lparr>sw_last := swept now h gs (sw_last sw), sw_live := sw_live sw \<union> (\<Union>g\<in>set gs. group_keys h g),
       sw_period := Min (insert (sw_period sw) (probe_interval ` g_health ` set gs)),
       sw_probes := sw_probes sw @ concat (map (due_probes now h seen_at) gs)\<rparr>"
  using assms
proof (induction gs arbitrary: sw)
  case (Cons g gs)
  let ?v = "visited now (probe_interval (g_health g)) (group_keys h g) (sw_last sw)"
  have apart: "key \<notin> group_keys h g" if "g' \<in> set gs" "key \<in> group_keys h g'" for g' key
    using that Cons.prems(1) group_keys_name [of key h g] group_keys_name [of key h g'] by (metis distinct.simps(2) image_eqI list.set_map list.simps(9))
  then have other: "?v key = sw_last sw key" if "g' \<in> set gs" "key \<in> group_keys h g'" for g' key
    using that by (auto simp: visited_def)
  have g: "sweep_group now h g sw = sw\<lparr>sw_last := ?v, sw_live := sw_live sw \<union> group_keys h g,
       sw_period := min (sw_period sw) (probe_interval (g_health g)), sw_probes := sw_probes sw @ due_probes now h seen_at g\<rparr>"
    by (rule sweep_group_eq) (use Cons.prems(2) in simp)
  have "swept now h gs ?v = swept now h (g # gs) (sw_last sw)"
  proof
    fix key
    show "swept now h gs ?v key = swept now h (g # gs) (sw_last sw) key"
    proof (cases "\<exists>g'\<in>set gs. key \<in> group_keys h g'")
      case True
      then have "?v key = sw_last sw key" "key \<notin> group_keys h g"
        using other apart by blast+
      then show ?thesis by (auto simp: swept_def probe_due_def)
    qed (auto simp: swept_def visited_def)
  qed
  moreover have "\<forall>g'\<in>set gs. \<forall>key\<in>group_keys h g'. sw_last (sweep_group now h g sw) key = seen_at key"
    using other Cons.prems(2) by (simp add: g)
  ultimately show ?case
    using Cons.IH [of "sweep_group now h g sw"] Cons.prems(1) by (simp add: g Un_assoc Min_insert_min)
qed (simp add: swept_def fun_eq_iff)

lemma health_round_eq:
  assumes "distinct (map g_name gs)"
  shows "health_round now h gs seen_at =
    (concat (map (due_probes now h seen_at) gs), swept now h gs seen_at |` (\<Union>g\<in>set gs. group_keys h g),
     max (Min (insert 5000 (probe_interval ` g_health ` set gs))) 20)"
proof -
  let ?sw = "\<lparr>sw_last = seen_at, sw_live = {}, sw_period = 5000, sw_probes = []\<rparr>"
  have "\<forall>g\<in>set gs. \<forall>key\<in>group_keys h g. sw_last ?sw key = seen_at key" by simp
  note f = sweep_fold [OF assms this, of now]
  show ?thesis unfolding health_round_def sweep_groups_def Let_def f by simp
qed

text \<open>When the key of a group was last probed, after a round at \<open>now\<close>.\<close>

lemma swept_at:
  assumes "distinct (map g_name gs)" "g \<in> set gs" "key \<in> group_keys h g"
  shows "swept now h gs seen_at key = (if probe_due seen_at now (probe_interval (g_health g)) key then Some now else seen_at key)"
proof -
  have "g' = g" if "g' \<in> set gs" "key \<in> group_keys h g'" for g'
  proof -
    have "g_name g' = g_name g" using group_keys_name [OF that(2)] group_keys_name [OF assms(3)] by simp
    then show ?thesis using assms(1,2) that(1) inj_onD [of g_name "set gs"] by (simp add: distinct_map)
  qed
  then have "(\<exists>g'\<in>set gs. key \<in> group_keys h g' \<and> probe_due seen_at now (probe_interval (g_health g')) key) \<longleftrightarrow>
      probe_due seen_at now (probe_interval (g_health g)) key"
    using assms(2,3) by blast
  then show ?thesis unfolding swept_def by simp
qed

lemma swept_fresh:
  assumes "distinct (map g_name gs)" "g \<in> set gs" "key \<in> group_keys h g"
  shows "\<exists>t. swept now h gs seen_at key = Some t \<and> now - t < probe_interval (g_health g)"
  unfolding swept_at [OF assms] by (auto simp: probe_due_def probe_interval_def split: option.splits)

lemma sleep_bounds:
  assumes "finite A"
  shows "n \<in> A \<Longrightarrow> max (Min (insert 5000 A)) 20 \<le> max (n :: nat) 20" "max (Min (insert 5000 A)) 20 \<le> (5000 :: nat)"
proof -
  have le: "Min (insert 5000 A) \<le> x" if "x \<in> insert 5000 A" for x using that assms by (intro Min_le) simp_all
  show "max (Min (insert 5000 A)) 20 \<le> max n 20" if "n \<in> A" using le [of n] that by (intro max.mono) simp_all
  show "max (Min (insert 5000 A)) 20 \<le> 5000" using le [of 5000] by simp
qed

section \<open>Properties\<close>

text \<open>C33: One round of the supervisor. It starts a probe for exactly those instances that were never seen or
  whose last probe is an interval old, each at most once, where instances of a group with the same
  address count as one. After it the bookkeeping covers exactly the addresses of the current groups,
  and every one of them was probed less than its interval ago. It sleeps between 20 ms and five seconds.\<close>

theorem health_round_exact:
  assumes "distinct (map g_name gs)" "health_round now h gs seen_at = (probes, seen_at', sleep)"
  shows "probes = concat (map (due_probes now h seen_at) gs) \<and>
    dom seen_at' = {(g_name g, inst_address (h ! i)) | g i. g \<in> set gs \<and> i \<in> set (instances g)} \<and>
    (\<forall>g\<in>set gs. \<forall>i\<in>set (instances g). \<exists>t. seen_at' (g_name g, inst_address (h ! i)) = Some t \<and> now - t < probe_interval (g_health g)) \<and>
    20 \<le> sleep \<and> sleep \<le> 5000"
proof -
  let ?live = "\<Union>g\<in>set gs. group_keys h g"
  have r: "probes = concat (map (due_probes now h seen_at) gs)" "seen_at' = swept now h gs seen_at |` ?live"
    "sleep = max (Min (insert 5000 (probe_interval ` g_health ` set gs))) 20"
    using assms(2) unfolding health_round_eq [OF assms(1)] by simp_all
  have fresh: "\<exists>t. seen_at' key = Some t \<and> now - t < probe_interval (g_health g)"
    if "g \<in> set gs" "key \<in> group_keys h g" for g key
    using swept_fresh [OF assms(1) that] that r(2) by (auto simp: restrict_map_def)
  have "dom seen_at' \<subseteq> ?live" unfolding r(2) by (auto simp: restrict_map_def split: if_splits)
  moreover have "?live \<subseteq> dom seen_at'" using fresh by blast
  moreover have "?live = {(g_name g, inst_address (h ! i)) | g i. g \<in> set gs \<and> i \<in> set (instances g)}"
    by (auto simp: group_keys_def probe_key_def)
  ultimately show ?thesis
    using r(1,3) fresh sleep_bounds(2) [of "probe_interval ` g_health ` set gs"]
    by (auto simp: group_keys_def probe_key_def)
qed

definition example_one :: UpstreamGroup where
  "example_one = example_group\<lparr>instances := [0]\<rparr>"

lemma example_one_keys: "g_name example_one = ''u''" "instances example_one = [0]" "inst_address (example_heap ! 0) = ''a:1''"
    "probe_interval (g_health example_one) = 2000"
  by (simp_all add: example_one_def example_group_def example_heap_def UpstreamInstance_new_def HealthConfig_default_def
      probe_interval_def numeral_3_eq_3)

theorem health_round_exact_witness:
  "\<exists>probes seen_at' sleep. health_round 10000 example_heap [example_one] (\<lambda>_. None) = (probes, seen_at', sleep) \<and>
     dom seen_at' = {(''u'', ''a:1'')} \<and> 20 \<le> sleep \<and> sleep \<le> 5000"
proof -
  obtain probes seen_at' sleep where r: "health_round 10000 example_heap [example_one] (\<lambda>_. None) = (probes, seen_at', sleep)"
    by (metis prod_cases3)
  have d: "distinct (map g_name [example_one])" by simp
  have "dom seen_at' = {(''u'', ''a:1'')}" "20 \<le> sleep" "sleep \<le> 5000"
    using health_round_exact [OF d r] by (simp_all add: example_one_keys)
  then show ?thesis using r by blast
qed

text \<open>The cadence of probing. Take two consecutive rounds over the same groups, the second at most
  \<open>delay\<close> ms late. An instance that was last probed at \<open>t\<close> is probed in the second round exactly if
  its interval has passed since; and then it has waited less than its interval, plus one sleep, plus
  the delay.\<close>

theorem probe_cadence:
  assumes "distinct (map g_name gs)" "health_round now h gs seen_at = (probes, seen_at', sleep)"
    and "now \<le> now'" "now' \<le> now + sleep + delay"
    and "health_round now' h gs seen_at' = (probes', seen_at'', sleep')"
    and "g \<in> set gs" "distinct (map (\<lambda>i. inst_address (h ! i)) (instances g))" "i \<in> set (instances g)"
    and "seen_at' (g_name g, inst_address (h ! i)) = Some t" "t \<le> now"
  shows "((g_health g, i) \<in> set (due_probes now' h seen_at' g) \<longleftrightarrow> probe_interval (g_health g) \<le> now' - t) \<and>
    set (due_probes now' h seen_at' g) \<subseteq> set probes' \<and>
    now' - t < probe_interval (g_health g) + max (probe_interval (g_health g)) 20 + delay"
proof -
  let ?itv = "probe_interval (g_health g)"
  have key: "probe_key g h i \<in> group_keys h g" "probe_key g h i = (g_name g, inst_address (h ! i))"
    using assms(8) by (simp_all add: group_keys_def probe_key_def)
  have r: "seen_at' = swept now h gs seen_at |` (\<Union>g\<in>set gs. group_keys h g)"
    "sleep = max (Min (insert 5000 (probe_interval ` g_health ` set gs))) 20"
    "probes' = concat (map (due_probes now' h seen_at') gs)"
    using assms(2,5) unfolding health_round_eq [OF assms(1)] by simp_all
  have "sleep \<le> max ?itv 20"
    using sleep_bounds(1) [of "probe_interval ` g_health ` set gs" ?itv] assms(6) r(2) by simp
  moreover have "now - t < ?itv"
  proof -
    have "seen_at' (probe_key g h i) = swept now h gs seen_at (probe_key g h i)"
      using key(1) assms(6) unfolding r(1) by (intro restrict_in) blast
    then show ?thesis using swept_fresh [OF assms(1,6) key(1), of now seen_at] assms(9) key(2) by auto
  qed
  ultimately have "now' - t < ?itv + max ?itv 20 + delay" using assms(3,4,10) by linarith
  moreover have "distinct (map (probe_key g h) (instances g))"
    using assms(7) by (simp add: probe_key_def distinct_map inj_on_def)
  then have "(g_health g, i) \<in> set (due_probes now' h seen_at' g) \<longleftrightarrow> ?itv \<le> now' - t"
    using assms(8,9) key(2) by (auto simp: due_probes_def firsts_all probe_due_def)
  moreover have "set (due_probes now' h seen_at' g) \<subseteq> set probes'" using assms(6) r(3) by auto
  ultimately show ?thesis by simp
qed

theorem probe_cadence_witness:
  "\<exists>probes seen_at' sleep probes' seen_at'' sleep'.
     health_round 10000 example_heap [example_one] (\<lambda>_. None) = (probes, seen_at', sleep) \<and>
     health_round 12000 example_heap [example_one] seen_at' = (probes', seen_at'', sleep') \<and>
     (g_health example_one, 0) \<in> set probes'"
proof -
  obtain probes seen_at' sleep where r: "health_round 10000 example_heap [example_one] (\<lambda>_. None) = (probes, seen_at', sleep)"
    by (metis prod_cases3)
  obtain probes' seen_at'' sleep' where r': "health_round 12000 example_heap [example_one] seen_at' = (probes', seen_at'', sleep')"
    by (metis prod_cases3)
  have d: "distinct (map g_name [example_one])" by simp
  have "seen_at' = swept 10000 example_heap [example_one] (\<lambda>_. None) |` {(''u'', ''a:1'')}" "sleep = 2000"
    using r unfolding health_round_eq [OF d] by (simp_all add: group_keys_def probe_key_def example_one_keys)
  then have "seen_at' (''u'', ''a:1'') = Some 10000" "sleep = 2000"
    by (simp_all add: swept_def group_keys_def probe_key_def probe_due_def example_one_keys)
  then show ?thesis
    using probe_cadence [OF d r _ _ r', of 0 example_one 0 10000] r r' by (auto simp: example_one_keys)
qed

text \<open>A probe is one health event.\<close>

lemma probe_once_event: "\<exists>e. probe_once client health i = health_step e i"
  by (auto simp: probe_once_def Let_def split: option.splits
      intro: exI [of _ ProbeOk] exI [of _ ProbeFail] simp flip: health_step.simps)

text \<open>The cold start: an instance that was never seen is probed in the next round, and one answer with a 2xx
  status brings it into rotation.\<close>

theorem cold_start:
  assumes "distinct (map g_name gs)" "health_round now h gs seen_at = (probes, seen_at', sleep)"
    and "g \<in> set gs" "distinct (map (\<lambda>i. inst_address (h ! i)) (instances g))" "i \<in> set (instances g)"
    and "seen_at (g_name g, inst_address (h ! i)) = None" "h ! i = UpstreamInstance_new a w (g_health g)"
    and "pc_uri_ok client (probe_uri (g_health g) (h ! i))"
      "pc_reply client (probe_uri (g_health g) (h ! i)) (max (unat (timeout_ms (g_health g))) 1) = Some status" "is_success status"
  shows "(g_health g, i) \<in> set probes \<and> is_healthy (probe_once client (g_health g) (h ! i))"
proof -
  have "distinct (map (probe_key g h) (instances g))"
    using assms(4) by (simp add: probe_key_def distinct_map inj_on_def)
  then have "(g_health g, i) \<in> set (due_probes now h seen_at g)"
    using assms(5,6) by (auto simp: due_probes_def firsts_all probe_due_def probe_key_def)
  then have "(g_health g, i) \<in> set probes" using assms(2,3) unfolding health_round_eq [OF assms(1)] by auto
  moreover have "probe_once client (g_health g) (h ! i) = record_probe_success (h ! i)"
    using assms(8-10) by (simp add: probe_once_def)
  moreover have "is_healthy (record_probe_success (h ! i))"
    unfolding assms(7) by (simp add: record_probe_success_def UpstreamInstance_new_def is_healthy_def sat_add_def Let_def)
  ultimately show ?thesis by simp
qed

text \<open>An instance whose address stands earlier in the list of its group is never probed, in any round: it
  shares the key of the earlier one. Until its first successful probe an instance is out of rotation,
  so this one never enters it.\<close>

lemma firsts_seen: "f x \<in> seen \<Longrightarrow> x \<notin> set (firsts f seen xs)"
  by (induction xs arbitrary: seen) auto

lemma firsts_later: "f y = f x \<Longrightarrow> x \<noteq> y \<Longrightarrow> x \<notin> set pre \<Longrightarrow> x \<notin> set (firsts f seen (pre @ y # suf))"
  by (induction pre arbitrary: seen) (auto simp: firsts_seen)

theorem duplicate_address_unprobed:
  assumes "distinct (map g_name gs)" "health_round now h gs seen_at = (probes, seen_at', sleep)"
    and "g \<in> set gs" "instances g = pre @ j # mid @ i # suf" "distinct (instances g)"
    and "inst_address (h ! j) = inst_address (h ! i)" "\<forall>g'\<in>set gs. g' \<noteq> g \<longrightarrow> i \<notin> set (instances g')"
  shows "i \<notin> snd ` set probes"
proof -
  have sub: "set (firsts f seen xs) \<subseteq> set xs" for f :: "nat \<Rightarrow> probe_key" and seen xs
    by (induction xs arbitrary: seen) auto
  have "i \<notin> set (firsts (probe_key g h) {} (instances g))"
    using firsts_later [of "probe_key g h" j i pre "{}"] assms(4-6) by (simp add: probe_key_def)
  moreover have "i \<notin> set (firsts (probe_key g' h) {} (instances g'))" if "g' \<in> set gs" "g' \<noteq> g" for g'
    using that assms(7) sub by blast
  ultimately have "i \<notin> set (firsts (probe_key g' h) {} (instances g'))" if "g' \<in> set gs" for g'
    using that by blast
  then show ?thesis
    using assms(2) unfolding health_round_eq [OF assms(1)] by (auto simp: due_probes_def)
qed

end
