(* ===== verification/Oci.thy ===== *)
theory Oci
  imports Control Headers
begin

text \<open>
  The offline artifact store, \<open>control/src/oci.rs\<close>: it reads a filter from an OCI image layout on disk,
  checks the image manifest against the pin and every blob against its descriptor. The disk is an
  argument that answers each path with what a stat and an open of it give, which need not agree; the
  parsers and printers of the \<open>oci-spec\<close> crate are arguments too. The contract of a store is a locale
  that the reference store and this one both meet.
\<close>

section \<open>The layout\<close>

definition WASM_CONFIG_MT :: string where "WASM_CONFIG_MT = ''application/vnd.wasm.config.v0+json''"
definition WASM_LAYER_MT :: string where "WASM_LAYER_MT = ''application/wasm''"
definition SIG_MT :: string where "SIG_MT = ''application/vnd.plecto.signature''"
definition SBOM_MT :: string where "SBOM_MT = ''application/vnd.plecto.sbom''"
definition SBOM_SIG_MT :: string where "SBOM_SIG_MT = ''application/vnd.plecto.sbom.signature''"

definition MAX_BLOB_BYTES :: u64 where "MAX_BLOB_BYTES = 536870912"
definition MAX_INDEX_BYTES :: u64 where "MAX_INDEX_BYTES = 1048576"

datatype MediaType = MediaImageManifest | MediaKnown string | MediaOther string

record Descriptor =
  desc_media_type :: MediaType
  desc_digest :: string
  desc_size :: u64

record ImageManifest =
  im_config :: Descriptor
  im_layers :: "Descriptor list"

type_synonym ImageIndex = "Descriptor list"

text \<open>An error is the text the operating system or the crate gives for it. A stat tells whether the path is
  a symbolic link; an open gives the content, or fails, or fails while reading.\<close>

record disk =
  dk_lstat :: "string \<Rightarrow> string + bool"
  dk_open :: "string \<Rightarrow> string + string + bytes"

record oci_lib =
  oci_parse_index :: "bytes \<Rightarrow> string + ImageIndex"
  oci_parse_manifest :: "bytes \<Rightarrow> string + ImageManifest"
  oci_print_index :: "ImageIndex \<Rightarrow> string + bytes"
  oci_print_manifest :: "ImageManifest \<Rightarrow> string + bytes"
  oci_print_layout :: "string + bytes"
  oci_digest :: "string \<Rightarrow> string + string"

text \<open>\<open>Path::join\<close> on Unix.\<close>

definition path_join :: "string \<Rightarrow> string \<Rightarrow> string" where
  "path_join p q =
     (if prefix ''/'' q then q else if p = [] \<or> suffix ''/'' p then p @ q else p @ ''/'' @ q)"

definition sha256_hex :: "'k crypto \<Rightarrow> bytes \<Rightarrow> string" where
  "sha256_hex cr b = hex_of cr (sha256 cr b)"

section \<open>Reading\<close>

definition open_read :: "disk \<Rightarrow> string \<Rightarrow> string \<Rightarrow> string \<Rightarrow> nat \<Rightarrow> ControlError + bytes" where
  "open_read d source path what limit =
     (case dk_lstat d path of
        Inl e \<Rightarrow> Inl (Artifact source (''stat '' @ what @ '': '' @ e))
      | Inr True \<Rightarrow> Inl (Artifact source (what @ '' is a symlink (refused)''))
      | Inr False \<Rightarrow>
          (case dk_open d path of
             Inl e \<Rightarrow> Inl (Artifact source (''open '' @ what @ '': '' @ e))
           | Inr (Inl e) \<Rightarrow> Inl (Artifact source (''read '' @ what @ '': '' @ e))
           | Inr (Inr content) \<Rightarrow> Inr (take limit content)))"

definition read_capped :: "disk \<Rightarrow> string \<Rightarrow> u64 \<Rightarrow> string \<Rightarrow> ControlError + bytes" where
  "read_capped d path cap source =
     bind_res (open_read d source path path (unat cap + 1)) (\<lambda>bytes.
       if length bytes > unat cap
       then Inl (Artifact source (path @ '' exceeds the '' @ dec_string (unat cap) @ ''-byte cap''))
       else Inr bytes)"

definition is_hex_char :: "char \<Rightarrow> bool" where
  "is_hex_char c = (let b = (of_char c :: nat) in 48 \<le> b \<and> b \<le> 57 \<or> 97 \<le> b \<and> b \<le> 102)"

definition hex64 :: "string \<Rightarrow> bool" where
  "hex64 s \<longleftrightarrow> length s = 64 \<and> list_all is_hex_char s"

definition blob_path :: "string \<Rightarrow> string \<Rightarrow> string \<Rightarrow> string" where
  "blob_path layout algo hex = path_join (path_join (path_join layout ''blobs'') algo) hex"

definition read_blob :: "'k crypto \<Rightarrow> disk \<Rightarrow> string \<Rightarrow> Descriptor \<Rightarrow> string \<Rightarrow> ControlError + bytes" where
  "read_blob cr d layout desc source =
     (let digest = desc_digest desc; declared = desc_size desc in
      case split_once CHR '':'' digest of
        None \<Rightarrow> Inl (Artifact source (''malformed digest '' @ digest))
      | Some (algo, hex) \<Rightarrow>
          if algo \<noteq> ''sha256'' then Inl (Artifact source (''unsupported digest algorithm '' @ algo))
          else if \<not> hex64 hex then Inl (Artifact source (''invalid sha256 digest encoding '' @ hex))
          else if declared > MAX_BLOB_BYTES
            then Inl (Artifact source (''blob '' @ hex @ '' declared size '' @ dec_string (unat declared) @
                   '' exceeds the '' @ dec_string (unat MAX_BLOB_BYTES) @ ''-byte cap''))
          else
            bind_res (open_read d source (blob_path layout algo hex) (''blob '' @ hex) (unat declared + 1)) (\<lambda>bytes.
              if length bytes \<noteq> unat declared
              then Inl (Artifact source (''blob '' @ hex @ '' size mismatch (declared '' @ dec_string (unat declared) @
                     '', read '' @ dec_string (length bytes) @ '')''))
              else if sha256_hex cr bytes \<noteq> hex
              then Inl (Artifact source (''blob '' @ hex @ '' content digest mismatch (computed '' @ sha256_hex cr bytes @ '')''))
              else Inr bytes))"

definition layer_by_media_type :: "ImageManifest \<Rightarrow> string \<Rightarrow> string \<Rightarrow> ControlError + Descriptor" where
  "layer_by_media_type m media_type source =
     (case find (\<lambda>d. desc_media_type d = MediaOther media_type) (im_layers m) of
        Some d \<Rightarrow> Inr d
      | None \<Rightarrow> Inl (Artifact source (''missing layer of type '' @ media_type)))"

definition read_layer :: "'k crypto \<Rightarrow> disk \<Rightarrow> string \<Rightarrow> ImageManifest \<Rightarrow> string \<Rightarrow> string \<Rightarrow> ControlError + bytes" where
  "read_layer cr d layout m source media_type =
     bind_res (layer_by_media_type m media_type source) (\<lambda>desc. read_blob cr d layout desc source)"

definition read_layout :: "'k crypto \<Rightarrow> oci_lib \<Rightarrow> disk \<Rightarrow> string \<Rightarrow> string \<Rightarrow> string \<Rightarrow> ControlError + ResolvedArtifact" where
  "read_layout cr lib d layout source pinned =
     bind_res (read_capped d (path_join layout ''index.json'') MAX_INDEX_BYTES source) (\<lambda>index_bytes.
       case oci_parse_index lib index_bytes of
         Inl e \<Rightarrow> Inl (Artifact source (''read index.json: '' @ e))
       | Inr [] \<Rightarrow> Inl (Artifact source ''index.json has no manifests'')
       | Inr (manifest_desc # _) \<Rightarrow>
           if desc_digest manifest_desc \<noteq> pinned then Inl (DigestMismatch source pinned (desc_digest manifest_desc))
           else
             bind_res (read_blob cr d layout manifest_desc source) (\<lambda>manifest_bytes.
               case oci_parse_manifest lib manifest_bytes of
                 Inl e \<Rightarrow> Inl (Artifact source (''parse image manifest: '' @ e))
               | Inr manifest \<Rightarrow>
                   bind_res (read_layer cr d layout manifest source WASM_LAYER_MT) (\<lambda>comp.
                   bind_res (read_layer cr d layout manifest source SIG_MT) (\<lambda>sig.
                   bind_res (read_layer cr d layout manifest source SBOM_MT) (\<lambda>sb.
                   bind_res (read_layer cr d layout manifest source SBOM_SIG_MT) (\<lambda>sbsig.
                     Inr \<lparr>component = comp, component_signature = sig, sbom = sb, sbom_signature = sbsig\<rparr>))))))"

definition OciLayoutStore_resolve :: "'k crypto \<Rightarrow> oci_lib \<Rightarrow> disk \<Rightarrow> string \<Rightarrow> store" where
  "OciLayoutStore_resolve cr lib d root source pinned_digest =
     read_layout cr lib d (path_join root source) source pinned_digest"

section \<open>Writing\<close>

text \<open>The files a tool has written, and the error that writing to a path gives, if any.\<close>

record layout_writer =
  lw_files :: "string \<Rightarrow> bytes option"
  lw_error :: "string \<Rightarrow> string option"

definition write_file :: "string \<Rightarrow> bytes \<Rightarrow> layout_writer \<Rightarrow> (ControlError + unit) \<times> layout_writer" where
  "write_file path bytes lw =
     (case lw_error lw path of
        Some e \<Rightarrow> (Inl (Io e), lw)
      | None \<Rightarrow> (Inr (), lw\<lparr>lw_files := (lw_files lw)(path \<mapsto> bytes)\<rparr>))"

definition write_blob ::
    "'k crypto \<Rightarrow> oci_lib \<Rightarrow> string \<Rightarrow> bytes \<Rightarrow> MediaType \<Rightarrow> layout_writer \<Rightarrow> (ControlError + Descriptor) \<times> layout_writer" where
  "write_blob cr lib layout bytes media_type lw =
     (let hex = sha256_hex cr bytes in
      case write_file (blob_path layout ''sha256'' hex) bytes lw of
        (Inl e, lw) \<Rightarrow> (Inl e, lw)
      | (Inr _, lw) \<Rightarrow>
          (case oci_digest lib (''sha256:'' @ hex) of
             Inl e \<Rightarrow> (Inl (Artifact ''write'' (''build digest: '' @ e)), lw)
           | Inr digest \<Rightarrow>
               (Inr \<lparr>desc_media_type = media_type, desc_digest = digest, desc_size = of_nat (length bytes)\<rparr>, lw)))"

fun write_blobs ::
    "'k crypto \<Rightarrow> oci_lib \<Rightarrow> string \<Rightarrow> (bytes \<times> MediaType) list \<Rightarrow> layout_writer \<Rightarrow> (ControlError + Descriptor list) \<times> layout_writer" where
  "write_blobs cr lib layout [] lw = (Inr [], lw)"
| "write_blobs cr lib layout ((bytes, mt) # bs) lw =
     (case write_blob cr lib layout bytes mt lw of
        (Inl e, lw) \<Rightarrow> (Inl e, lw)
      | (Inr desc, lw) \<Rightarrow>
          (case write_blobs cr lib layout bs lw of
             (Inl e, lw) \<Rightarrow> (Inl e, lw)
           | (Inr descs, lw) \<Rightarrow> (Inr (desc # descs), lw)))"

definition write_text :: "string \<Rightarrow> string \<Rightarrow> string \<Rightarrow> string + bytes \<Rightarrow> layout_writer \<Rightarrow> (ControlError + unit) \<times> layout_writer" where
  "write_text path what name text lw =
     (case text of
        Inl e \<Rightarrow> (Inl (Artifact ''write'' (''build '' @ what @ '': '' @ e)), lw)
      | Inr bytes \<Rightarrow>
          (case lw_error lw path of
             Some e \<Rightarrow> (Inl (Artifact ''write'' (''write '' @ name @ '': '' @ e)), lw)
           | None \<Rightarrow> (Inr (), lw\<lparr>lw_files := (lw_files lw)(path \<mapsto> bytes)\<rparr>)))"

definition artifact_blobs :: "ResolvedArtifact \<Rightarrow> (bytes \<times> MediaType) list" where
  "artifact_blobs a =
     [(component a, MediaOther WASM_LAYER_MT), (component_signature a, MediaOther SIG_MT),
      (sbom a, MediaOther SBOM_MT), (sbom_signature a, MediaOther SBOM_SIG_MT)]"

definition write_layout ::
    "'k crypto \<Rightarrow> oci_lib \<Rightarrow> string \<Rightarrow> ResolvedArtifact \<Rightarrow> layout_writer \<Rightarrow> (ControlError + string) \<times> layout_writer" where
  "write_layout cr lib layout artifact lw =
     (case lw_error lw (path_join (path_join layout ''blobs'') ''sha256'') of
        Some e \<Rightarrow> (Inl (Io e), lw)
      | None \<Rightarrow>
     (case write_text (path_join layout ''oci-layout'') ''oci-layout'' ''oci-layout'' (oci_print_layout lib) lw of
        (Inl e, lw) \<Rightarrow> (Inl e, lw)
      | (Inr _, lw) \<Rightarrow>
     (case write_blob cr lib layout (str_bytes ''{}'') (MediaOther WASM_CONFIG_MT) lw of
        (Inl e, lw) \<Rightarrow> (Inl e, lw)
      | (Inr config, lw) \<Rightarrow>
     (case write_blobs cr lib layout (artifact_blobs artifact) lw of
        (Inl e, lw) \<Rightarrow> (Inl e, lw)
      | (Inr layers, lw) \<Rightarrow>
     (case oci_print_manifest lib \<lparr>im_config = config, im_layers = layers\<rparr> of
        Inl e \<Rightarrow> (Inl (Artifact ''write'' (''serialize manifest: '' @ e)), lw)
      | Inr manifest_bytes \<Rightarrow>
     (case write_blob cr lib layout manifest_bytes MediaImageManifest lw of
        (Inl e, lw) \<Rightarrow> (Inl e, lw)
      | (Inr manifest_desc, lw) \<Rightarrow>
     (case write_text (path_join layout ''index.json'') ''index'' ''index.json'' (oci_print_index lib [manifest_desc]) lw of
        (Inl e, lw) \<Rightarrow> (Inl e, lw)
      | (Inr _, lw) \<Rightarrow> (Inr (desc_digest manifest_desc), lw))))))))"

section \<open>What a successful read shows\<close>

lemma open_read_Inr:
  "open_read d source path what n = Inr b \<longleftrightarrow> dk_lstat d path = Inr False \<and> (\<exists>c. dk_open d path = Inr (Inr c) \<and> b = take n c)"
  by (auto simp: open_read_def split: sum.splits bool.splits)

lemma read_blob_Inr:
  assumes "read_blob cr d layout desc source = Inr b"
  shows "desc_digest desc = sha256_pinned cr b \<and> unat (desc_size desc) = length b \<and> length b \<le> unat MAX_BLOB_BYTES \<and>
    hex64 (sha256_hex cr b)"
proof -
  obtain algo hex where sp: "split_once CHR '':'' (desc_digest desc) = Some (algo, hex)"
    using assms by (auto simp: read_blob_def Let_def split: option.splits)
  then have "algo = ''sha256''" "hex64 hex" "desc_size desc \<le> MAX_BLOB_BYTES" "length b = unat (desc_size desc)" "sha256_hex cr b = hex"
    using assms by (auto simp: read_blob_def Let_def bind_res_def split: if_splits sum.splits)
  then show ?thesis
    using sp by (auto simp: split_once_Some_iff sha256_pinned_def sha256_hex_def word_le_nat_alt)
qed

text \<open>The layer a media type names, and what its bytes are bound to.\<close>

definition layer_bound :: "'k crypto \<Rightarrow> ImageManifest \<Rightarrow> string \<Rightarrow> bytes \<Rightarrow> bool" where
  "layer_bound cr m mt b \<longleftrightarrow>
     (\<exists>desc. find (\<lambda>d. desc_media_type d = MediaOther mt) (im_layers m) = Some desc \<and>
        desc_digest desc = sha256_pinned cr b \<and> length b \<le> unat MAX_BLOB_BYTES)"

lemma read_layer_Inr: "read_layer cr d layout m source mt = Inr b \<Longrightarrow> layer_bound cr m mt b"
  using read_blob_Inr
  by (fastforce simp: read_layer_def layer_by_media_type_def layer_bound_def bind_res_def split: option.splits sum.splits)

text \<open>A digest binds an artifact when it is the hash of an image manifest whose layers are the artifact's
  parts: the root of a Merkle tree over them.\<close>

definition oci_binds :: "'k crypto \<Rightarrow> oci_lib \<Rightarrow> string \<Rightarrow> ResolvedArtifact \<Rightarrow> bool" where
  "oci_binds cr lib pinned a \<longleftrightarrow>
     (\<exists>mb m. pinned = sha256_pinned cr mb \<and> oci_parse_manifest lib mb = Inr m \<and>
        layer_bound cr m WASM_LAYER_MT (component a) \<and> layer_bound cr m SIG_MT (component_signature a) \<and>
        layer_bound cr m SBOM_MT (sbom a) \<and> layer_bound cr m SBOM_SIG_MT (sbom_signature a))"

lemma result_iffs:
  "(case r of Inl e \<Rightarrow> Inl (f e) | Inr x \<Rightarrow> g x) = Inr b \<longleftrightarrow> (\<exists>x. r = Inr x \<and> g x = Inr b)"
  "(case xs of [] \<Rightarrow> Inl e | x # ys \<Rightarrow> h x ys) = Inr b \<longleftrightarrow> (\<exists>x ys. xs = x # ys \<and> h x ys = Inr b)"
  "(if P then Inl e' else q) = Inr b \<longleftrightarrow> \<not> P \<and> q = Inr b"
  by (auto split: sum.splits list.splits)

lemma read_layout_binds:
  assumes "read_layout cr lib d layout source pinned = Inr a"
  shows "oci_binds cr lib pinned a"
proof -
  obtain desc mb m comp sig sb sbsig where r:
    "desc_digest desc = pinned" "read_blob cr d layout desc source = Inr mb" "oci_parse_manifest lib mb = Inr m"
    "read_layer cr d layout m source WASM_LAYER_MT = Inr comp" "read_layer cr d layout m source SIG_MT = Inr sig"
    "read_layer cr d layout m source SBOM_MT = Inr sb" "read_layer cr d layout m source SBOM_SIG_MT = Inr sbsig"
    "a = \<lparr>component = comp, component_signature = sig, sbom = sb, sbom_signature = sbsig\<rparr>"
    using assms unfolding read_layout_def bind_res_Inr_iff 
    by (auto simp: bind_res_Inr_iff result_iffs)
  have "pinned = sha256_pinned cr mb" using read_blob_Inr [OF r(2)] r(1) by simp
  then show ?thesis
    using r(3,8) read_layer_Inr [OF r(4)] read_layer_Inr [OF r(5)] read_layer_Inr [OF r(6)] read_layer_Inr [OF r(7)]
    unfolding oci_binds_def by auto
qed

section \<open>The contract of a store\<close>

text \<open>A store hands out only what the pin binds. The control plane relies on nothing else of it.\<close>

locale artifact_store =
  fixes resolve :: store and binds :: "string \<Rightarrow> ResolvedArtifact \<Rightarrow> bool"
  assumes pinned: "resolve source digest = Inr a \<Longrightarrow> binds digest a"
begin

lemma gated_bound:
  assumes "pl_store pl = resolve" "gated pl fes fid f"
  shows "\<exists>fe\<in>set fes. \<exists>a. fe_id fe = fid \<and> binds (fe_digest fe) a \<and> admissible (pl_crypto pl) (pl_policy pl) fid a \<and>
    (\<exists>opts w w'. pl_build pl fid (component a) opts w = (Inr f, w'))"
  using assms pinned unfolding gated_def by metis

lemma config_bound:
  assumes "pl_store pl = resolve" "config_ok pl manifest reg ac" "ac_filters ac fid = Some f"
  shows "\<exists>fe\<in>set (m_filters manifest). \<exists>a. fe_id fe = fid \<and> binds (fe_digest fe) a \<and>
    admissible (pl_crypto pl) (pl_policy pl) fid a \<and> (\<exists>opts w w'. pl_build pl fid (component a) opts w = (Inr f, w'))"
  using assms by (intro gated_bound) (auto simp: config_ok_def)

end

interpretation memory_store: artifact_store "MemoryStore_resolve cr ms" "\<lambda>digest a. digest = sha256_pinned cr (component a)"
  by unfold_locales (auto simp: MemoryStore_resolve_def Let_def split: option.splits if_splits)

interpretation oci_store: artifact_store "OciLayoutStore_resolve cr lib d root" "oci_binds cr lib"
  by unfold_locales (auto simp: OciLayoutStore_resolve_def intro: read_layout_binds)

text \<open>Which files a read depends on.\<close>

definition layout_paths :: "string \<Rightarrow> string set" where
  "layout_paths layout = insert (path_join layout ''index.json'') (blob_path layout ''sha256'' ` {h. hex64 h})"

lemma open_read_cong:
  assumes "dk_lstat d path = dk_lstat d' path" "dk_open d path = dk_open d' path"
  shows "open_read d source path what n = open_read d' source path what n"
  unfolding open_read_def assms ..

lemma read_blob_cong:
  assumes "\<forall>p\<in>layout_paths layout. dk_lstat d p = dk_lstat d' p \<and> dk_open d p = dk_open d' p"
  shows "read_blob cr d layout desc source = read_blob cr d' layout desc source"
proof -
  have "open_read d source (blob_path layout ''sha256'' h) what n = open_read d' source (blob_path layout ''sha256'' h) what n"
    if "hex64 h" for h what n
    using that assms by (intro open_read_cong) (auto simp: layout_paths_def)
  then show ?thesis by (auto simp: read_blob_def Let_def split: option.splits)
qed

lemma read_layout_cong:
  assumes "\<forall>p\<in>layout_paths layout. dk_lstat d p = dk_lstat d' p \<and> dk_open d p = dk_open d' p"
  shows "read_layout cr lib d layout source pinned = read_layout cr lib d' layout source pinned"
proof -
  have "read_capped d (path_join layout ''index.json'') MAX_INDEX_BYTES source =
      read_capped d' (path_join layout ''index.json'') MAX_INDEX_BYTES source"
  proof -
    have "open_read d source (path_join layout ''index.json'') what n = open_read d' source (path_join layout ''index.json'') what n" for what n
      using assms by (intro open_read_cong) (auto simp: layout_paths_def)
    then show ?thesis by (simp add: read_capped_def)
  qed
  moreover have "read_layer cr d layout m source mt = read_layer cr d' layout m source mt" for m mt
    by (simp add: read_layer_def read_blob_cong [OF assms])
  ultimately show ?thesis unfolding read_layout_def read_blob_cong [OF assms] by (simp only:)
qed

text \<open>Two byte strings with the same hash.\<close>

definition collision :: "'k crypto \<Rightarrow> bool" where
  "collision cr \<longleftrightarrow> (\<exists>b b'. b \<noteq> b' \<and> sha256_pinned cr b = sha256_pinned cr b')"

section \<open>What was written can be read\<close>

definition disk_of :: "(string \<Rightarrow> bytes option) \<Rightarrow> disk" where
  "disk_of files =
     \<lparr>dk_lstat = (\<lambda>p. case files p of None \<Rightarrow> Inl ''not found'' | Some _ \<Rightarrow> Inr False),
      dk_open = (\<lambda>p. case files p of None \<Rightarrow> Inl ''not found'' | Some b \<Rightarrow> Inr (Inr b))\<rparr>"

text \<open>What the writer relies on of the crate: its texts parse back and are of the size of what they
  describe, a digest prints as it was parsed, and the hash prints as 64 hexadecimal digits.\<close>

definition oci_lib_ok :: "'k crypto \<Rightarrow> oci_lib \<Rightarrow> bool" where
  "oci_lib_ok cr lib \<longleftrightarrow>
     (\<forall>i b. oci_print_index lib i = Inr b \<longrightarrow> oci_parse_index lib b = Inr i) \<and>
     (\<forall>i b. oci_print_index lib [i] = Inr b \<longrightarrow> length b \<le> unat MAX_INDEX_BYTES) \<and>
     (\<forall>m b. oci_print_manifest lib m = Inr b \<longrightarrow> oci_parse_manifest lib b = Inr m) \<and>
     (\<forall>m b. oci_print_manifest lib m = Inr b \<longrightarrow> length (im_layers m) = 4 \<longrightarrow> length b \<le> unat MAX_BLOB_BYTES) \<and>
     (\<forall>s g. oci_digest lib s = Inr g \<longrightarrow> g = s) \<and> (\<forall>b. hex64 (sha256_hex cr b))"

definition path_base :: "string \<Rightarrow> string" where
  "path_base p = (if p = [] \<or> suffix ''/'' p then p else p @ ''/'')"

lemma hex64_head: "hex64 h \<Longrightarrow> \<not> prefix ''/'' h"
  by (cases h) (auto simp: hex64_def is_hex_char_def)

lemma path_join_base: "\<not> prefix ''/'' q \<Longrightarrow> path_join p q = path_base p @ q"
  by (simp add: path_join_def path_base_def)

lemma path_base_word: "q \<noteq> [] \<Longrightarrow> List.last q \<noteq> CHR ''/'' \<Longrightarrow> path_base (p @ q) = p @ q @ ''/''"
  by (auto simp: path_base_def suffix_def) (metis append_butlast_last_id last_appendR last_snoc)

lemma blob_path_eq: "hex64 h \<Longrightarrow> blob_path layout ''sha256'' h = path_base layout @ ''blobs/sha256/'' @ h"
  by (simp add: blob_path_def path_join_base hex64_head path_base_word)

lemma blob_path_inj: "hex64 h \<Longrightarrow> hex64 h' \<Longrightarrow> blob_path layout ''sha256'' h = blob_path layout ''sha256'' h' \<longleftrightarrow> h = h'"
  by (simp add: blob_path_eq)

lemma index_not_blob: "hex64 h \<Longrightarrow> blob_path layout ''sha256'' h \<noteq> path_join layout ''index.json''"
  by (simp add: blob_path_eq path_join_base)

definition stored :: "'k crypto \<Rightarrow> string \<Rightarrow> layout_writer \<Rightarrow> bytes \<Rightarrow> bool" where
  "stored cr layout lw b \<longleftrightarrow> lw_files lw (blob_path layout ''sha256'' (sha256_hex cr b)) = Some b"

definition describes :: "'k crypto \<Rightarrow> bytes \<times> MediaType \<Rightarrow> Descriptor \<Rightarrow> bool" where
  "describes cr bm d \<longleftrightarrow> d = \<lparr>desc_media_type = snd bm, desc_digest = sha256_pinned cr (fst bm), desc_size = of_nat (length (fst bm))\<rparr>"

lemma write_blob_Inr:
  assumes "write_blob cr lib layout b mt lw = (Inr desc, lw')" "oci_lib_ok cr lib"
  shows "describes cr (b, mt) desc" "lw_files lw' = (lw_files lw)(blob_path layout ''sha256'' (sha256_hex cr b) \<mapsto> b)"
  using assms
  by (auto simp: write_blob_def write_file_def oci_lib_ok_def describes_def sha256_pinned_def sha256_hex_def Let_def
      split: option.splits sum.splits prod.splits)

lemma write_blob_stored:
  assumes "write_blob cr lib layout b mt lw = (Inr desc, lw')" "oci_lib_ok cr lib" "\<not> collision cr"
  shows "stored cr layout lw' b" "stored cr layout lw b' \<Longrightarrow> stored cr layout lw' b'"
proof -
  note w = write_blob_Inr(2) [OF assms(1,2)]
  show "stored cr layout lw' b" using w by (simp add: stored_def)
  show "stored cr layout lw' b'" if "stored cr layout lw b'"
  proof (cases "b' = b")
    case False
    then have "sha256_hex cr b' \<noteq> sha256_hex cr b"
      using assms(3) by (auto simp: collision_def sha256_pinned_def sha256_hex_def)
    then show ?thesis using that w assms(2) blob_path_inj [of "sha256_hex cr b'" "sha256_hex cr b"] by (simp add: stored_def oci_lib_ok_def)
  qed (use w in \<open>simp add: stored_def\<close>)
qed

lemma write_blobs_stored:
  assumes "oci_lib_ok cr lib" "\<not> collision cr"
  shows "write_blobs cr lib layout bms lw = (Inr descs, lw') \<Longrightarrow>
    list_all2 (describes cr) bms descs \<and> (\<forall>bm\<in>set bms. stored cr layout lw' (fst bm)) \<and>
    (\<forall>b. stored cr layout lw b \<longrightarrow> stored cr layout lw' b)"
proof (induction bms arbitrary: lw descs)
  case (Cons bm bs)
  obtain b mt where bm: "bm = (b, mt)" by (cases bm)
  obtain desc lw1 ds where w: "write_blob cr lib layout b mt lw = (Inr desc, lw1)" "write_blobs cr lib layout bs lw1 = (Inr ds, lw')"
      "descs = desc # ds"
    using Cons.prems bm by (auto split: prod.splits sum.splits)
  show ?case
    using write_blob_Inr(1) [OF w(1) assms(1)] write_blob_stored [OF w(1) assms] Cons.IH [OF w(2)] w(3) bm by auto
qed simp

lemma read_stored:
  assumes "stored cr layout lw b" "describes cr (b, mt) desc" "length b \<le> unat MAX_BLOB_BYTES" "hex64 (sha256_hex cr b)"
  shows "read_blob cr (disk_of (lw_files lw)) layout desc source = Inr b"
proof -
  have sp: "split_once CHR '':'' (sha256_pinned cr b) = Some (''sha256'', sha256_hex cr b)"
    by (simp add: split_once_Some_iff sha256_pinned_def sha256_hex_def)
  have "unat (of_nat (length b) :: u64) = length b"
    using assms(3) by (simp add: unat_of_nat MAX_BLOB_BYTES_def take_bit_nat_eq_self)
  then show ?thesis
    using assms sp by (simp add: read_blob_def describes_def Let_def open_read_def disk_of_def stored_def word_less_nat_alt)
qed

lemma layer_kinds:
  "WASM_LAYER_MT \<noteq> SIG_MT" "WASM_LAYER_MT \<noteq> SBOM_MT" "WASM_LAYER_MT \<noteq> SBOM_SIG_MT" "SIG_MT \<noteq> SBOM_MT" "SIG_MT \<noteq> SBOM_SIG_MT" "SBOM_MT \<noteq> SBOM_SIG_MT"
  by (simp_all add: WASM_LAYER_MT_def SIG_MT_def SBOM_MT_def SBOM_SIG_MT_def)

lemma read_written_layers:
  assumes "list_all2 (describes cr) (artifact_blobs a) (im_layers m)" "\<forall>bm\<in>set (artifact_blobs a). stored cr layout lw (fst bm)"
    and "\<forall>b\<in>fst ` set (artifact_blobs a). length b \<le> unat MAX_BLOB_BYTES" "\<forall>b. hex64 (sha256_hex cr b)"
  shows "read_layer cr (disk_of (lw_files lw)) layout m source WASM_LAYER_MT = Inr (component a)"
    "read_layer cr (disk_of (lw_files lw)) layout m source SIG_MT = Inr (component_signature a)"
    "read_layer cr (disk_of (lw_files lw)) layout m source SBOM_MT = Inr (sbom a)"
    "read_layer cr (disk_of (lw_files lw)) layout m source SBOM_SIG_MT = Inr (sbom_signature a)"
proof -
  obtain d1 d2 d3 d4 where l: "im_layers m = [d1, d2, d3, d4]"
    and d: "describes cr (component a, MediaOther WASM_LAYER_MT) d1" "describes cr (component_signature a, MediaOther SIG_MT) d2"
      "describes cr (sbom a, MediaOther SBOM_MT) d3" "describes cr (sbom_signature a, MediaOther SBOM_SIG_MT) d4"
    using assms(1) by (auto simp: artifact_blobs_def list_all2_Cons1)
  have mts: "desc_media_type d1 = MediaOther WASM_LAYER_MT" "desc_media_type d2 = MediaOther SIG_MT"
    "desc_media_type d3 = MediaOther SBOM_MT" "desc_media_type d4 = MediaOther SBOM_SIG_MT"
    using d by (simp_all add: describes_def)
  note rd = read_stored [OF _ d(1), of layout lw source] read_stored [OF _ d(2), of layout lw source]
    read_stored [OF _ d(3), of layout lw source] read_stored [OF _ d(4), of layout lw source]
  show "read_layer cr (disk_of (lw_files lw)) layout m source WASM_LAYER_MT = Inr (component a)"
    "read_layer cr (disk_of (lw_files lw)) layout m source SIG_MT = Inr (component_signature a)"
    "read_layer cr (disk_of (lw_files lw)) layout m source SBOM_MT = Inr (sbom a)"
    "read_layer cr (disk_of (lw_files lw)) layout m source SBOM_SIG_MT = Inr (sbom_signature a)"
    using rd assms(2-4) by (simp_all add: read_layer_def layer_by_media_type_def l mts layer_kinds layer_kinds [symmetric] artifact_blobs_def)
qed

lemma write_text_Inr:
  "write_text path what name text lw = (Inr (), lw') \<Longrightarrow> \<exists>b. text = Inr b \<and> lw_files lw' = (lw_files lw)(path \<mapsto> b)"
  by (auto simp: write_text_def split: sum.splits option.splits)

lemma write_layout_steps:
  assumes "write_layout cr lib layout a lw = (Inr digest, lw')"
  obtains lw1 config lw2 layers lw3 mb desc lw4 where
    "write_blobs cr lib layout (artifact_blobs a) lw2 = (Inr layers, lw3)"
    "oci_print_manifest lib \<lparr>im_config = config, im_layers = layers\<rparr> = Inr mb"
    "write_blob cr lib layout mb MediaImageManifest lw3 = (Inr desc, lw4)"
    "write_text (path_join layout ''index.json'') ''index'' ''index.json'' (oci_print_index lib [desc]) lw4 = (Inr (), lw')"
    "digest = desc_digest desc"
  using assms unfolding write_layout_def
  by (auto split: option.split_asm prod.split_asm sum.split_asm)

lemma layout_written:
  assumes "write_layout cr lib layout a lw = (Inr digest, lw')" "oci_lib_ok cr lib" "\<not> collision cr"
    and "\<forall>b\<in>fst ` set (artifact_blobs a). length b \<le> unat MAX_BLOB_BYTES"
  shows "read_layout cr lib (disk_of (lw_files lw')) layout source digest = Inr a"
proof -
  obtain lw2 config layers lw3 mb desc lw4 where w:
    "write_blobs cr lib layout (artifact_blobs a) lw2 = (Inr layers, lw3)"
    "oci_print_manifest lib \<lparr>im_config = config, im_layers = layers\<rparr> = Inr mb"
    "write_blob cr lib layout mb MediaImageManifest lw3 = (Inr desc, lw4)"
    "write_text (path_join layout ''index.json'') ''index'' ''index.json'' (oci_print_index lib [desc]) lw4 = (Inr (), lw')"
    "digest = desc_digest desc"
    by (rule write_layout_steps [OF assms(1)])
  let ?m = "\<lparr>im_config = config, im_layers = layers\<rparr>" and ?d = "disk_of (lw_files lw')"
  obtain ib where ib: "oci_print_index lib [desc] = Inr ib" "lw_files lw' = (lw_files lw4)(path_join layout ''index.json'' \<mapsto> ib)"
    using write_text_Inr [OF w(4)] by blast
  have hex: "\<forall>b. hex64 (sha256_hex cr b)" using assms(2) by (simp add: oci_lib_ok_def)
  have keep: "stored cr layout lw' b" if "stored cr layout lw4 b" for b
    using that hex index_not_blob [of "sha256_hex cr b" layout] by (simp add: stored_def ib(2))
  note blobs = write_blobs_stored [OF assms(2,3) w(1)]
  have parts: "\<forall>bm\<in>set (artifact_blobs a). stored cr layout lw' (fst bm)"
    using blobs write_blob_stored(2) [OF w(3) assms(2,3)] keep by blast
  have "length (im_layers ?m) = 4" using blobs by (auto simp: artifact_blobs_def dest: list_all2_lengthD)
  then have lens: "length mb \<le> unat MAX_BLOB_BYTES" "oci_parse_manifest lib mb = Inr ?m"
      "length ib \<le> unat MAX_INDEX_BYTES" "oci_parse_index lib ib = Inr [desc]"
    using assms(2) w(2) ib(1) unfolding oci_lib_ok_def by blast+
  have "read_capped ?d (path_join layout ''index.json'') MAX_INDEX_BYTES source = Inr ib"
    using lens(3) by (simp add: read_capped_def open_read_def disk_of_def ib(2))
  moreover have "read_blob cr ?d layout desc source = Inr mb"
    using read_stored [OF keep [OF write_blob_stored(1) [OF w(3) assms(2,3)]] write_blob_Inr(1) [OF w(3) assms(2)] lens(1)] hex by simp
  moreover note read_written_layers [of cr a ?m layout lw' source] blobs parts assms(4) hex
  ultimately show ?thesis
    using lens w(5) by (simp add: read_layout_def)
qed

section \<open>A concrete layout\<close>

definition example_hex :: "bytes \<Rightarrow> string" where
  "example_hex b =
     replicate 64 (digit_char (case map_of [([1, 2], 1), ([7, 2, 1], 2), ([123], 3), ([7, 123], 4), ([9], 5)] b of Some n \<Rightarrow> n | None \<Rightarrow> 0))"

definition example_hash :: "nat crypto" where
  "example_hash = example_crypto\<lparr>sha256 := (\<lambda>b. b), hex_of := example_hex,
     parse_json := (\<lambda>b. Inr (JObject [(''subject'', JArray [JObject [(''digest'', JObject [(''sha256'', JString (example_hex [1, 2]))])]])]))\<rparr>"

definition example_desc :: "bytes \<Rightarrow> MediaType \<Rightarrow> Descriptor" where
  "example_desc b mt = \<lparr>desc_media_type = mt, desc_digest = sha256_pinned example_hash b, desc_size = of_nat (length b)\<rparr>"

definition example_image :: ImageManifest where
  "example_image =
     \<lparr>im_config = example_desc (str_bytes ''{}'') (MediaOther WASM_CONFIG_MT),
      im_layers = map (\<lambda>(b, mt). example_desc b mt) (artifact_blobs example_artifact)\<rparr>"

definition example_index :: ImageIndex where "example_index = [example_desc [9] MediaImageManifest]"

definition example_oci :: oci_lib where
  "example_oci =
     \<lparr>oci_parse_index = (\<lambda>b. if b = [8] then Inr example_index else Inl ''bad''),
      oci_parse_manifest = (\<lambda>b. if b = [9] then Inr example_image else Inl ''bad''),
      oci_print_index = (\<lambda>i. if i = example_index then Inr [8] else Inl ''no''),
      oci_print_manifest = (\<lambda>m. if m = example_image then Inr [9] else Inl ''no''),
      oci_print_layout = Inr [7], oci_digest = Inr\<rparr>"

definition example_written :: "(ControlError + string) \<times> layout_writer" where
  "example_written = write_layout example_hash example_oci ''l'' example_artifact \<lparr>lw_files = (\<lambda>_. None), lw_error = (\<lambda>_. None)\<rparr>"

lemma example_hex64: "hex64 (example_hex b)"
proof -
  have "is_hex_char (digit_char d)" if "d < 10" for d
    using that by (auto simp: digit_char_def is_hex_char_def Let_def)
  then show ?thesis by (simp add: hex64_def example_hex_def list_all_iff)
qed

lemma example_oci_ok: "oci_lib_ok example_hash example_oci"
  using example_hex64
  by (auto simp: oci_lib_ok_def example_oci_def sha256_hex_def example_hash_def MAX_INDEX_BYTES_def MAX_BLOB_BYTES_def split: if_splits)

lemma example_writes: "\<exists>digest lw'. example_written = (Inr digest, lw')"
proof -
  have d: "write_blob example_hash example_oci ''l'' b mt lw =
      (Inr (example_desc b mt), lw\<lparr>lw_files := (lw_files lw)(blob_path ''l'' ''sha256'' (sha256_hex example_hash b) \<mapsto> b)\<rparr>)"
    if "lw_error lw = (\<lambda>_. None)" for b mt lw
    using that by (simp add: write_blob_def write_file_def example_oci_def example_desc_def sha256_pinned_def sha256_hex_def Let_def)
  have m: "oci_print_manifest example_oci \<lparr>im_config = example_desc (str_bytes ''{}'') (MediaOther WASM_CONFIG_MT),
      im_layers = map (\<lambda>(b, mt). example_desc b mt) (artifact_blobs example_artifact)\<rparr> = Inr [9]"
    "oci_print_index example_oci [example_desc [9] MediaImageManifest] = Inr [8]" "oci_print_layout example_oci = Inr [7]"
    by (simp_all add: example_oci_def example_image_def example_index_def)
  show ?thesis
    using m by (simp add: example_written_def write_layout_def write_text_def write_file_def d artifact_blobs_def)
qed

text \<open>The same layout as it may lie on a disk.\<close>

definition example_lw :: layout_writer where
  "example_lw =
     \<lparr>lw_files = (\<lambda>_. None)
        (path_join ''l'' ''index.json'' \<mapsto> [8], blob_path ''l'' ''sha256'' (example_hex [9]) \<mapsto> [9],
         blob_path ''l'' ''sha256'' (example_hex [1, 2]) \<mapsto> [1, 2], blob_path ''l'' ''sha256'' (example_hex [7, 2, 1]) \<mapsto> [7, 2, 1],
         blob_path ''l'' ''sha256'' (example_hex [123]) \<mapsto> [123], blob_path ''l'' ''sha256'' (example_hex [7, 123]) \<mapsto> [7, 123]),
      lw_error = (\<lambda>_. None)\<rparr>"

definition example_disk :: disk where "example_disk = disk_of (lw_files example_lw)"

lemma example_hex_eq: "example_hex b = example_hex b' \<longleftrightarrow> hd (example_hex b) = hd (example_hex b')"
  by (auto simp: example_hex_def)

lemma example_stored:
  "stored example_hash ''l'' example_lw [9]" "\<forall>bm\<in>set (artifact_blobs example_artifact). stored example_hash ''l'' example_lw (fst bm)"
  using blob_path_inj [OF example_hex64 example_hex64, of "''l''"] index_not_blob [OF example_hex64]
  by (simp_all add: stored_def example_lw_def example_hash_def sha256_hex_def artifact_blobs_def example_artifact_def example_hex_eq)
    (simp_all add: example_hex_def digit_char_def)

lemma example_reads:
  "OciLayoutStore_resolve example_hash example_oci example_disk [] ''l'' (sha256_pinned example_hash [9]) = Inr example_artifact"
proof -
  have hex: "\<forall>b. hex64 (sha256_hex example_hash b)" using example_oci_ok by (simp add: oci_lib_ok_def)
  have l: "path_join [] ''l'' = ''l''" by (simp add: path_join_def)
  have f: "lw_files example_lw (path_join ''l'' ''index.json'') = Some [8]"
    using not_sym [OF index_not_blob [OF example_hex64, of "''l''"]] by (simp add: example_lw_def)
  have "read_capped example_disk (path_join ''l'' ''index.json'') MAX_INDEX_BYTES ''l'' = Inr [8]"
    by (simp add: read_capped_def open_read_def example_disk_def disk_of_def f MAX_INDEX_BYTES_def)
  moreover have "read_blob example_hash example_disk ''l'' (example_desc [9] MediaImageManifest) ''l'' = Inr [9]"
    unfolding example_disk_def
    by (rule read_stored [OF example_stored(1), where mt = MediaImageManifest]) (use hex in \<open>simp_all add: describes_def example_desc_def MAX_BLOB_BYTES_def\<close>)
  moreover have "list_all2 (describes example_hash) (artifact_blobs example_artifact) (im_layers example_image)"
    by (simp add: example_image_def artifact_blobs_def describes_def example_desc_def)
  moreover have "\<forall>b\<in>fst ` set (artifact_blobs example_artifact). length b \<le> unat MAX_BLOB_BYTES"
    by (simp add: artifact_blobs_def example_artifact_def MAX_BLOB_BYTES_def)
  moreover note rl = read_written_layers [OF calculation(3) example_stored(2) calculation(4) hex, of "''l''", folded example_disk_def]
  moreover have "oci_parse_index example_oci [8] = Inr [example_desc [9] MediaImageManifest]" "oci_parse_manifest example_oci [9] = Inr example_image"
      "desc_digest (example_desc [9] MediaImageManifest) = sha256_pinned example_hash [9]"
    by (simp_all add: example_oci_def example_index_def example_desc_def)
  ultimately show ?thesis
    by (simp add: OciLayoutStore_resolve_def l read_layout_def)
qed

section \<open>Properties\<close>

lemma layer_bound_unique: "layer_bound cr m mt b \<Longrightarrow> layer_bound cr m mt b' \<Longrightarrow> b = b' \<or> collision cr"
  unfolding layer_bound_def collision_def by (metis option.inject)

lemma oci_binds_unique:
  assumes "oci_binds cr lib pinned a" "oci_binds cr lib pinned a'"
  shows "a = a' \<or> collision cr"
proof (rule disjCI)
  assume nc: "\<not> collision cr"
  obtain mb m where m: "pinned = sha256_pinned cr mb" "oci_parse_manifest lib mb = Inr m"
    and b: "layer_bound cr m WASM_LAYER_MT (component a)" "layer_bound cr m SIG_MT (component_signature a)"
      "layer_bound cr m SBOM_MT (sbom a)" "layer_bound cr m SBOM_SIG_MT (sbom_signature a)"
    using assms(1) unfolding oci_binds_def by blast
  obtain mb' m' where m': "pinned = sha256_pinned cr mb'" "oci_parse_manifest lib mb' = Inr m'"
    and b': "layer_bound cr m' WASM_LAYER_MT (component a')" "layer_bound cr m' SIG_MT (component_signature a')"
      "layer_bound cr m' SBOM_MT (sbom a')" "layer_bound cr m' SBOM_SIG_MT (sbom_signature a')"
    using assms(2) unfolding oci_binds_def by blast
  have "mb' = mb" using nc m(1) m'(1) unfolding collision_def by metis
  then have "m' = m" using m(2) m'(2) by simp
  then show "a = a'" using nc b b' layer_bound_unique by (metis ResolvedArtifact.equality old.unit.exhaust)
qed

text \<open>C9: A pin determines the filter. Whatever the disk holds and however it changes between the stat and the
  open, a successful read returns parts whose hashes the pinned image manifest lists, each at most
  512 MiB; two successful reads under one pin, from any disks and any layouts, return the same
  component, signature and SBOM, unless they exhibit a collision of the hash. A read depends on no
  file but the index and the blobs of its layout: no digest of a hostile layout leads outside it.\<close>

theorem oci_pin_determines:
  assumes "OciLayoutStore_resolve cr lib d root source pinned = Inr a"
  shows "oci_binds cr lib pinned a \<and>
    (\<forall>d' root' source' a'. OciLayoutStore_resolve cr lib d' root' source' pinned = Inr a' \<longrightarrow>
       a' = a \<or> (\<exists>b b'. b \<noteq> b' \<and> sha256_pinned cr b = sha256_pinned cr b')) \<and>
    (\<forall>d'. (\<forall>p\<in>layout_paths (path_join root source). dk_lstat d' p = dk_lstat d p \<and> dk_open d' p = dk_open d p) \<longrightarrow>
       OciLayoutStore_resolve cr lib d' root source pinned = Inr a)"
proof (intro conjI allI impI)
  show bound: "oci_binds cr lib pinned a" by (rule oci_store.pinned [OF assms])
  show "a' = a \<or> (\<exists>b b'. b \<noteq> b' \<and> sha256_pinned cr b = sha256_pinned cr b')"
    if "OciLayoutStore_resolve cr lib d' root' source' pinned = Inr a'" for d' root' source' a'
    using oci_binds_unique [OF oci_store.pinned [OF that] bound] by (simp add: collision_def)
  show "OciLayoutStore_resolve cr lib d' root source pinned = Inr a"
    if "\<forall>p\<in>layout_paths (path_join root source). dk_lstat d' p = dk_lstat d p \<and> dk_open d' p = dk_open d p" for d'
    using read_layout_cong [OF that, of cr lib source pinned] assms by (simp add: OciLayoutStore_resolve_def)
qed

theorem oci_pin_determines_witness:
  "OciLayoutStore_resolve example_hash example_oci example_disk [] ''l'' (sha256_pinned example_hash [9]) = Inr example_artifact \<and>
   oci_binds example_hash example_oci (sha256_pinned example_hash [9]) example_artifact"
  using oci_pin_determines [OF example_reads] example_reads by simp

text \<open>Writing a layout and reading it back under the digest the writer returned gives the artifact, unless
  the hash of its parts collides. It holds for every layout path and whatever files were there before.\<close>

theorem layout_roundtrip:
  assumes "write_layout cr lib layout a lw = (Inr digest, lw')" "oci_lib_ok cr lib"
    and "\<forall>b\<in>fst ` set (artifact_blobs a). length b \<le> unat MAX_BLOB_BYTES"
  shows "read_layout cr lib (disk_of (lw_files lw')) layout source digest = Inr a \<or>
    (\<exists>b b'. b \<noteq> b' \<and> sha256_pinned cr b = sha256_pinned cr b')"
  using layout_written [OF assms(1,2) _ assms(3)] by (auto simp: collision_def)

theorem layout_roundtrip_witness:
  "\<exists>digest lw'. example_written = (Inr digest, lw') \<and>
     (read_layout example_hash example_oci (disk_of (lw_files lw')) ''l'' ''s'' digest = Inr example_artifact \<or> collision example_hash)"
proof -
  obtain digest lw' where w: "example_written = (Inr digest, lw')" using example_writes by blast
  have "\<forall>b\<in>fst ` set (artifact_blobs example_artifact). length b \<le> unat MAX_BLOB_BYTES"
    by (simp add: artifact_blobs_def example_artifact_def MAX_BLOB_BYTES_def)
  from layout_roundtrip [OF w [unfolded example_written_def] example_oci_ok this, of "''s''"] show ?thesis
    using w by (auto simp: collision_def)
qed

text \<open>C10: The supply chain from the manifest to the engine. With the offline store, every filter of a
  configuration that a reload made active was built from a component that the digest in the manifest
  binds, that trusted keys signed, and whose SBOM names it.\<close>

theorem active_filters_pinned:
  assumes "registry_ok (ct_upstreams c)" "reload pl c manifest w = Some (Inr (), c', w')"
    and "pl_store pl = OciLayoutStore_resolve (pl_crypto pl) lib d root" "ac_filters (ct_active c') fid = Some f"
  shows "\<exists>fe\<in>set (m_filters manifest). \<exists>a. fe_id fe = fid \<and> oci_binds (pl_crypto pl) lib (fe_digest fe) a \<and>
    admissible (pl_crypto pl) (pl_policy pl) fid a \<and> (\<exists>opts w w'. pl_build pl fid (component a) opts w = (Inr f, w'))"
proof (rule oci_store.config_bound [OF assms(3) _ assms(4)])
  have "swap_in pl c manifest w = Some (Inr (), c', w')"
    using assms(2) by (auto simp: reload_def ensure_trust_unchanged_def split: if_splits)
  then show "config_ok pl manifest (ct_upstreams c') (ct_active c')"
    by (cases rule: swap_in_cases [OF assms(1), of pl manifest w]) auto
qed

definition pass_filter :: "unit Filter" where
  "pass_filter = \<lparr>f_on_request = (\<lambda>_ _ w. (Inr (Continue, []), w)), f_on_request_body = (\<lambda>_ b w. (Inr (BodyContinue b, []), w)),
     f_on_response = (\<lambda>_ _ w. (Inr (RespContinue, []), w)), f_reads_body = False\<rparr>"

definition example_oci_plane :: "(nat, unit, unit) plane" where
  "example_oci_plane = example_plane\<lparr>pl_crypto := example_hash, pl_policy := [7], pl_build := (\<lambda>_ _ _ w. (Inr pass_filter, w)),
     pl_store := OciLayoutStore_resolve example_hash example_oci example_disk []\<rparr>"

definition example_filter_manifest :: Manifest where
  "example_filter_manifest = example_manifest\<lparr>m_upstreams := [], m_routes := [],
     m_filters := [\<lparr>fe_id = ''auth'', fe_source = ''l'', fe_digest = sha256_pinned example_hash [9], fe_isolation = Trusted,
        fe_init_deadline_ms = None, fe_request_deadline_ms = None, fe_max_memory_bytes = None, fe_ratelimit = None, fe_outbound = None\<rparr>]\<rparr>"

lemma example_hash_admits: "admissible example_hash [7] ''auth'' example_artifact"
proof -
  have "attested example_hash [7] example_artifact"
    unfolding attested_def by (auto simp: example_hash_def example_crypto_def example_artifact_def)
  then show ?thesis by (simp add: admissible_def example_artifact_def KV_NS_DELIM_char_def)
qed

lemma example_filter_reload:
  "\<exists>c' w'. reload example_oci_plane example_control example_filter_manifest () = Some (Inr (), c', w') \<and>
     ac_filters (ct_active c') ''auth'' = Some pass_filter"
proof -
  let ?fe = "hd (m_filters example_filter_manifest)"
  have v: "validate_filter (pl_outbound_feature example_oci_plane) (\<lambda>c. pl_parse_net example_oci_plane c \<noteq> None) ?fe = Inr ()"
    by (simp add: validate_filter_def example_filter_manifest_def Let_def)
  have "load_filters example_oci_plane (\<lambda>_. None) (m_filters example_filter_manifest) () = (Inr [''auth'' \<mapsto> pass_filter], ())"
    using v example_reads
    by (simp add: example_filter_manifest_def example_oci_plane_def load_admitted [OF example_hash_admits])
  moreover have "\<exists>reg. reconcile (ct_upstreams example_control) (m_upstreams example_filter_manifest) = Some (reg, Inr ())"
    by (simp add: reconcile_def example_filter_manifest_def example_control_def UpstreamRegistry_new_def)
  ultimately show ?thesis
    by (auto simp: reload_def ensure_trust_unchanged_def swap_in_def build_active_def example_filter_manifest_def example_manifest_def
        example_control_def example_oci_plane_def example_plane_def)
qed

theorem active_filters_pinned_witness:
  "\<exists>c' w'. reload example_oci_plane example_control example_filter_manifest () = Some (Inr (), c', w') \<and>
     (\<exists>fe\<in>set (m_filters example_filter_manifest). \<exists>a. fe_id fe = ''auth'' \<and> oci_binds example_hash example_oci (fe_digest fe) a)"
proof -
  obtain c' w' where r: "reload example_oci_plane example_control example_filter_manifest () = Some (Inr (), c', w')"
    "ac_filters (ct_active c') ''auth'' = Some pass_filter"
    using example_filter_reload by blast
  have st: "pl_store example_oci_plane = OciLayoutStore_resolve (pl_crypto example_oci_plane) example_oci example_disk []"
    and cr: "pl_crypto example_oci_plane = example_hash"
    by (simp_all add: example_oci_plane_def)
  from active_filters_pinned [OF example_control_ok r(1) st r(2)] show ?thesis using r(1) unfolding cr by blast
qed

end
