(* ===== verification/Tls.thy ===== *)
theory Tls
  imports Oci
begin

text \<open>
  TLS termination, \<open>control/src/tls.rs\<close>: the server configurations built from the TLS
  entries, and the choice of a certificate by the name a client asks for. Reading and parsing
  certificates and keys is an argument, and so is the comparison of a key with its certificate.
\<close>

section \<open>Certificates and configurations\<close>

record ('c, 's) CertifiedKey =
  ck_chain :: "'c list"
  ck_key :: 's

record ('c, 's) SniResolver =
  by_host :: "string \<Rightarrow> ('c, 's) CertifiedKey option"
  default_cert :: "('c, 's) CertifiedKey option"

record ('c, 's) ServerConfig =
  sc_resolver :: "('c, 's) SniResolver"
  sc_alpn :: "string list"
  sc_tls13_only :: bool

datatype key_match = KeysMatch | KeysUnknown | KeysInconsistent string

record ('c, 'p, 's) tls_lib =
  tl_read :: "string \<Rightarrow> string + bytes"
  tl_certs :: "bytes \<Rightarrow> string + 'c list"
  tl_key :: "bytes \<Rightarrow> string + 'p"
  tl_signing :: "'p \<Rightarrow> string + 's"
  tl_match :: "'c list \<Rightarrow> 's \<Rightarrow> key_match"
  tl_provider :: "bool \<Rightarrow> string option"

definition sni_resolve :: "('c, 's) SniResolver \<Rightarrow> string option \<Rightarrow> ('c, 's) CertifiedKey option" where
  "sni_resolve r server_name =
     (case Option.bind server_name (\<lambda>name. by_host r (ascii_lower name)) of
        Some ck \<Rightarrow> Some ck
      | None \<Rightarrow> default_cert r)"

definition tls_err_path :: "TlsCert \<Rightarrow> string \<Rightarrow> string \<Rightarrow> ControlError" where
  "tls_err_path cert path reason = TlsCertError (tls_host cert) path reason"

definition tls_err :: "TlsCert \<Rightarrow> string \<Rightarrow> ControlError" where
  "tls_err cert reason = tls_err_path cert (cert_path cert) reason"

definition read_certs :: "('c, 'p, 's) tls_lib \<Rightarrow> TlsCert \<Rightarrow> string \<Rightarrow> ControlError + 'c list" where
  "read_certs lib cert base_dir =
     (case tl_read lib (path_join base_dir (cert_path cert)) of
        Inl e \<Rightarrow> Inl (tls_err_path cert (cert_path cert) (''read failed: '' @ e))
      | Inr bytes \<Rightarrow>
          (case tl_certs lib bytes of
             Inl e \<Rightarrow> Inl (tls_err_path cert (cert_path cert) (''bad cert PEM: '' @ e))
           | Inr certs \<Rightarrow> Inr certs))"

definition read_key :: "('c, 'p, 's) tls_lib \<Rightarrow> TlsCert \<Rightarrow> string \<Rightarrow> ControlError + 'p" where
  "read_key lib cert base_dir =
     (case tl_read lib (path_join base_dir (key_path cert)) of
        Inl e \<Rightarrow> Inl (tls_err_path cert (key_path cert) (''read failed: '' @ e))
      | Inr bytes \<Rightarrow>
          (case tl_key lib bytes of
             Inl e \<Rightarrow> Inl (tls_err_path cert (key_path cert) (''bad key PEM: '' @ e))
           | Inr key \<Rightarrow> Inr key))"

definition load_certified_key :: "('c, 'p, 's) tls_lib \<Rightarrow> TlsCert \<Rightarrow> string \<Rightarrow> ControlError + ('c, 's) CertifiedKey" where
  "load_certified_key lib cert base_dir =
     bind_res (read_certs lib cert base_dir) (\<lambda>cert_chain.
       if cert_chain = [] then Inl (tls_err cert ''no certificates in cert_path PEM'')
       else
         bind_res (read_key lib cert base_dir) (\<lambda>key.
           case tl_signing lib key of
             Inl e \<Rightarrow> Inl (tls_err cert (''unsupported private key: '' @ e))
           | Inr signing_key \<Rightarrow>
               (case tl_match lib cert_chain signing_key of
                  KeysInconsistent e \<Rightarrow> Inl (tls_err cert (''cert/key mismatch: '' @ e))
                | _ \<Rightarrow> Inr \<lparr>ck_chain = cert_chain, ck_key = signing_key\<rparr>)))"

fun load_certs ::
    "('c, 'p, 's) tls_lib \<Rightarrow> string \<Rightarrow> TlsCert list \<Rightarrow> ('c, 's) SniResolver \<Rightarrow> ControlError + ('c, 's) SniResolver" where
  "load_certs lib base_dir [] r = Inr r"
| "load_certs lib base_dir (cert # certs) r =
     (case load_certified_key lib cert base_dir of
        Inl e \<Rightarrow> Inl e
      | Inr certified \<Rightarrow>
          (case tls_host cert of
             Some host \<Rightarrow>
               if by_host r (ascii_lower host) \<noteq> None then Inl (tls_err cert ''duplicate cert for this SNI host'')
               else load_certs lib base_dir certs (r\<lparr>by_host := (by_host r)(ascii_lower host \<mapsto> certified)\<rparr>)
           | None \<Rightarrow>
               if default_cert r \<noteq> None then Inl (tls_err cert ''more than one default (host-less) cert'')
               else load_certs lib base_dir certs (r\<lparr>default_cert := Some certified\<rparr>)))"

definition provider_init_err :: "string \<Rightarrow> ControlError" where
  "provider_init_err e = TlsCertError None [] (''rustls provider init: '' @ e)"

definition build_server_configs ::
    "('c, 'p, 's) tls_lib \<Rightarrow> string \<Rightarrow> TlsCert list \<Rightarrow> ControlError + (('c, 's) ServerConfig \<times> ('c, 's) ServerConfig) option" where
  "build_server_configs lib base_dir certs =
     (if certs = [] then Inr None
      else
        bind_res (load_certs lib base_dir certs \<lparr>by_host = (\<lambda>_. None), default_cert = None\<rparr>) (\<lambda>resolver.
          case tl_provider lib False of
            Some e \<Rightarrow> Inl (provider_init_err e)
          | None \<Rightarrow>
              (case tl_provider lib True of
                 Some e \<Rightarrow> Inl (provider_init_err e)
               | None \<Rightarrow>
                   Inr (Some (\<lparr>sc_resolver = resolver, sc_alpn = [''h2'', ''http/1.1''], sc_tls13_only = False\<rparr>,
                              \<lparr>sc_resolver = resolver, sc_alpn = [''h3''], sc_tls13_only = True\<rparr>)))))"

section \<open>What loading the certs does\<close>

text \<open>The name an cert answers to.\<close>

definition entry_key :: "TlsCert \<Rightarrow> string option" where
  "entry_key cert = map_option ascii_lower (tls_host cert)"

definition cert_at :: "('c, 's) SniResolver \<Rightarrow> string option \<Rightarrow> ('c, 's) CertifiedKey option" where
  "cert_at r k = (case k of Some host \<Rightarrow> by_host r host | None \<Rightarrow> default_cert r)"

lemma load_certs_step:
  "load_certs lib base (cert # certs) r =
     (case load_certified_key lib cert base of
        Inl e \<Rightarrow> Inl e
      | Inr ck \<Rightarrow>
          if cert_at r (entry_key cert) \<noteq> None
          then Inl (tls_err cert (if tls_host cert = None then ''more than one default (host-less) cert'' else ''duplicate cert for this SNI host''))
          else load_certs lib base certs
            (case entry_key cert of Some h \<Rightarrow> r\<lparr>by_host := (by_host r)(h \<mapsto> ck)\<rparr> | None \<Rightarrow> r\<lparr>default_cert := Some ck\<rparr>))"
  by (auto simp: entry_key_def cert_at_def split: sum.splits option.splits)

lemma cert_at_put:
  "cert_at (case k of Some h \<Rightarrow> r\<lparr>by_host := (by_host r)(h \<mapsto> ck)\<rparr> | None \<Rightarrow> r\<lparr>default_cert := Some ck\<rparr>) k' =
     (if k' = k then Some ck else cert_at r k')"
  by (auto simp: cert_at_def split: option.splits)

lemma load_certs_iff:
  "(\<exists>r'. load_certs lib base certs r = Inr r') \<longleftrightarrow>
     (\<forall>e\<in>set certs. \<exists>ck. load_certified_key lib e base = Inr ck) \<and> distinct (map entry_key certs) \<and>
     (\<forall>e\<in>set certs. cert_at r (entry_key e) = None)"
proof (induction certs arbitrary: r)
  case (Cons e es)
  show ?case
  proof (cases "load_certified_key lib e base")
    case (Inr ck)
    then show ?thesis
      using Cons.IH by (auto simp: load_certs_step cert_at_put simp del: load_certs.simps) (metis image_eqI)
  qed (simp add: load_certs_step del: load_certs.simps)
qed simp

lemma load_certs_at:
  "load_certs lib base certs r = Inr r' \<Longrightarrow>
     cert_at r' k =
       (case find (\<lambda>e. entry_key e = k) certs of
          Some e \<Rightarrow> (case load_certified_key lib e base of Inr ck \<Rightarrow> Some ck | Inl _ \<Rightarrow> None)
        | None \<Rightarrow> cert_at r k)"
proof (induction certs arbitrary: r)
  case (Cons e es)
  obtain ck where ck: "load_certified_key lib e base = Inr ck" "cert_at r (entry_key e) = None"
    and l: "load_certs lib base es (case entry_key e of Some h \<Rightarrow> r\<lparr>by_host := (by_host r)(h \<mapsto> ck)\<rparr> | None \<Rightarrow> r\<lparr>default_cert := Some ck\<rparr>) = Inr r'"
    using Cons.prems by (auto simp: load_certs_step simp del: load_certs.simps split: sum.splits if_splits)
  have "distinct (map entry_key (e # es))" using Cons.prems load_certs_iff by blast
  then have "find (\<lambda>x. entry_key x = k) es = None" if "entry_key e = k" 
    using that by (auto simp: find_None_iff) (metis image_eqI)
  then show ?case using Cons.IH [OF l] ck(1) by (auto simp: cert_at_put split: option.splits)
qed simp

lemma key_match_iff:
  "(case m of KeysMatch \<Rightarrow> Inr x | KeysUnknown \<Rightarrow> Inr x | KeysInconsistent e \<Rightarrow> Inl (f e)) = Inr b \<longleftrightarrow> (\<forall>e. m \<noteq> KeysInconsistent e) \<and> x = b"
  by (cases m) auto

lemma load_certified_key_Inr:
  "load_certified_key lib e base = Inr ck \<Longrightarrow> ck_chain ck \<noteq> [] \<and> (\<forall>m. tl_match lib (ck_chain ck) (ck_key ck) \<noteq> KeysInconsistent m)"
  by (auto simp: load_certified_key_def bind_res_Inr_iff result_iffs key_match_iff)

section \<open>Properties\<close>

text \<open>C32: TLS is all-or-nothing and exact. Building succeeds exactly when every entry loads, no two entries
  answer to the same name in any case and at most one has none; then both transports use the same
  certificates. A client gets the certificate of the entry for the name it asked for, in any case, or
  else the default one, or none at all, and never a certificate whose chain is empty or whose key is
  known not to match.\<close>

theorem tls_exact:
  assumes "certs \<noteq> []" "tl_provider lib False = None" "tl_provider lib True = None"
  shows "((\<exists>configs. build_server_configs lib base certs = Inr configs) \<longleftrightarrow>
      (\<forall>e\<in>set certs. \<exists>ck. load_certified_key lib e base = Inr ck) \<and> distinct (map entry_key certs)) \<and>
    (\<forall>tcp quic. build_server_configs lib base certs = Inr (Some (tcp, quic)) \<longrightarrow>
       sc_resolver quic = sc_resolver tcp \<and>
       (\<forall>name. sni_resolve (sc_resolver tcp) name =
          (case find (\<lambda>e. name \<noteq> None \<and> entry_key e = map_option ascii_lower name) certs of
             Some e \<Rightarrow> (case load_certified_key lib e base of Inr ck \<Rightarrow> Some ck | Inl _ \<Rightarrow> None)
           | None \<Rightarrow> (case find (\<lambda>e. entry_key e = None) certs of
                        Some e \<Rightarrow> (case load_certified_key lib e base of Inr ck \<Rightarrow> Some ck | Inl _ \<Rightarrow> None)
                      | None \<Rightarrow> None))) \<and>
       (\<forall>name ck. sni_resolve (sc_resolver tcp) name = Some ck \<longrightarrow>
          ck_chain ck \<noteq> [] \<and> (\<forall>m. tl_match lib (ck_chain ck) (ck_key ck) \<noteq> KeysInconsistent m)))"
proof -
  let ?r0 = "\<lparr>by_host = (\<lambda>_. None), default_cert = None\<rparr>"
  let ?ck = "\<lambda>e. case load_certified_key lib e base of Inr ck \<Rightarrow> Some ck | Inl _ \<Rightarrow> None"
  have none: "cert_at ?r0 k = None" for k by (simp add: cert_at_def split: option.splits)
  have ok: "(\<exists>configs. build_server_configs lib base certs = Inr configs) \<longleftrightarrow>
      (\<forall>e\<in>set certs. \<exists>ck. load_certified_key lib e base = Inr ck) \<and> distinct (map entry_key certs)"
    using load_certs_iff [of lib base certs ?r0] assms none by (auto simp: build_server_configs_def bind_res_Inr_iff)
  moreover have "sc_resolver quic = sc_resolver tcp \<and> load_certs lib base certs ?r0 = Inr (sc_resolver tcp)"
    if "build_server_configs lib base certs = Inr (Some (tcp, quic))" for tcp quic
    using that assms by (auto simp: build_server_configs_def bind_res_Inr_iff)
  moreover have sni: "sni_resolve r name =
      (case find (\<lambda>e. name \<noteq> None \<and> entry_key e = map_option ascii_lower name) certs of
         Some e \<Rightarrow> ?ck e | None \<Rightarrow> (case find (\<lambda>e. entry_key e = None) certs of Some e \<Rightarrow> ?ck e | None \<Rightarrow> None))"
    if l: "load_certs lib base certs ?r0 = Inr r" for r name
  proof -
    have at: "cert_at r k = (case find (\<lambda>e. entry_key e = k) certs of Some e \<Rightarrow> ?ck e | None \<Rightarrow> None)" for k
      using load_certs_at [OF l, of k] none by (simp split: option.splits)
    have ld: "?ck e \<noteq> None" if "e \<in> set certs" for e
      using l that load_certs_iff [of lib base certs ?r0] by (auto split: sum.splits)
    show ?thesis
    proof (cases name)
      case None
      then show ?thesis using at [of None] by (simp add: sni_resolve_def cert_at_def find_None_iff [THEN iffD2])
    next
      case (Some n)
      have "by_host r (ascii_lower n) = (case find (\<lambda>e. entry_key e = Some (ascii_lower n)) certs of Some e \<Rightarrow> ?ck e | None \<Rightarrow> None)"
        "default_cert r = (case find (\<lambda>e. entry_key e = None) certs of Some e \<Rightarrow> ?ck e | None \<Rightarrow> None)"
        using at [of "Some (ascii_lower n)"] at [of None] by (simp_all add: cert_at_def)
      moreover have "?ck e \<noteq> None" if "find (\<lambda>e. entry_key e = Some (ascii_lower n)) certs = Some e" for e
        using ld find_Some_imp [OF that] by blast
      ultimately show ?thesis
        using Some by (cases "find (\<lambda>e. entry_key e = Some (ascii_lower n)) certs") (auto simp: sni_resolve_def)
    qed
  qed
  moreover have "ck_chain ck \<noteq> [] \<and> (\<forall>m. tl_match lib (ck_chain ck) (ck_key ck) \<noteq> KeysInconsistent m)"
    if "load_certs lib base certs ?r0 = Inr r" "sni_resolve r name = Some ck" for r name ck
    using that(2) unfolding sni [OF that(1)] by (auto split: option.splits sum.splits dest: load_certified_key_Inr)
  ultimately show ?thesis by blast
qed

definition example_tls :: "(nat, nat, nat) tls_lib" where
  "example_tls =
     \<lparr>tl_read = (\<lambda>p. Inr (str_bytes p)), tl_certs = (\<lambda>b. Inr [length b]), tl_key = (\<lambda>b. Inr (length b)), tl_signing = Inr,
      tl_match = (\<lambda>c k. KeysMatch), tl_provider = (\<lambda>_. None)\<rparr>"

definition example_certs :: "TlsCert list" where
  "example_certs =
     [\<lparr>tls_host = Some ''Api.example'', cert_path = ''/c'', key_path = ''/k''\<rparr>, \<lparr>tls_host = None, cert_path = ''/def'', key_path = ''/k''\<rparr>]"

theorem tls_exact_witness:
  "\<exists>tcp quic. build_server_configs example_tls ''/'' example_certs = Inr (Some (tcp, quic)) \<and>
     sni_resolve (sc_resolver tcp) (Some ''api.EXAMPLE'') = Some \<lparr>ck_chain = [2], ck_key = 2\<rparr> \<and>
     sni_resolve (sc_resolver tcp) (Some ''other'') = Some \<lparr>ck_chain = [4], ck_key = 2\<rparr>"
proof -
  have ld: "\<forall>e\<in>set example_certs. \<exists>ck. load_certified_key example_tls e ''/'' = Inr ck"
    "load_certified_key example_tls (example_certs ! 0) ''/'' = Inr \<lparr>ck_chain = [2], ck_key = 2\<rparr>"
    "load_certified_key example_tls (example_certs ! Suc 0) ''/'' = Inr \<lparr>ck_chain = [4], ck_key = 2\<rparr>"
    by (simp_all add: example_certs_def load_certified_key_def read_certs_def read_key_def example_tls_def path_join_def str_bytes_def)
  have keys: "map entry_key example_certs = [Some ''api.example'', None]" by code_simp
  then have c: "example_certs = [example_certs ! 0, example_certs ! Suc 0]" "entry_key (example_certs ! 0) = Some ''api.example''" "entry_key (example_certs ! Suc 0) = None"
    by (simp_all add: example_certs_def)
  have low: "ascii_lower ''api.EXAMPLE'' = ''api.example''" "ascii_lower ''other'' = ''other''" by code_simp+
  have pv: "tl_provider example_tls False = None" "tl_provider example_tls True = None" by (simp_all add: example_tls_def)
  have ne: "example_certs \<noteq> []" by (simp add: example_certs_def)
  note ex = tls_exact [OF ne pv, of "''/''"]
  obtain configs where "build_server_configs example_tls ''/'' example_certs = Inr configs" using ex ld(1) keys by auto
  moreover from this obtain tcp quic where "configs = Some (tcp, quic)"
    by (auto simp: build_server_configs_def bind_res_Inr_iff ne pv)
  ultimately have b: "build_server_configs example_tls ''/'' example_certs = Inr (Some (tcp, quic))" by simp
  have f: "find (\<lambda>e. P e) example_certs = (if P (example_certs ! 0) then Some (example_certs ! 0) else if P (example_certs ! Suc 0) then Some (example_certs ! Suc 0) else None)" for P
    by (subst c(1)) simp
  have "sni_resolve (sc_resolver tcp) (Some ''api.EXAMPLE'') = Some \<lparr>ck_chain = [2], ck_key = 2\<rparr>"
    "sni_resolve (sc_resolver tcp) (Some ''other'') = Some \<lparr>ck_chain = [4], ck_key = 2\<rparr>"
    using ex b by (simp_all add: f c(2,3) low ld(2,3))
  then show ?thesis using b by blast
qed

end
