(* ===== verification/Spec2Isabelle.thy ===== *)
theory Spec2Isabelle
  imports Process Http3 Authz Streaming Health Tls
begin

text \<open>
  \<^bold>\<open>Plecto\<close> is a reverse proxy whose request handling is extended by WebAssembly filters. It has three
  crates under \<^verbatim>\<open>plecto/crates\<close>: \<^verbatim>\<open>host\<close> runs filters in sandboxes and lends them capabilities,
  \<^verbatim>\<open>control\<close> turns a manifest into an active configuration and keeps the state of the upstreams, and
  \<^verbatim>\<open>server\<close> is the fast path that carries a request through route, chain, upstream and back. This
  library models the three from their sources and proves what makes each part, and their composition,
  correct. Names in the theories are the names in the code; a name that clashes carries a prefix.

  \<^bold>\<open>How the parts are modelled.\<close> A struct is a record, an enum a datatype, a fallible function returns
  a sum with the error on the left, and a machine integer is a word of its width, so that wrapping and
  saturation are those of the code. Shared mutable state is passed explicitly: the instances and groups of
  the registry live in lists addressed by identity, because routes, snapshots and reloads share them.
  A lock or an atomic operation is one step; where threads interleave between steps, the model has a step
  relation (the circuit breaker, the filter pool, outbound concurrency) or a view that other threads may
  have changed (picking an instance), or an arbitrary transformation of the shared state (the retry
  loop). The arms of a \<^verbatim>\<open>select!\<close> are events of such a relation (the accept loops and the drain).

  \<^bold>\<open>Foundations.\<close>
  \<^item> \<^verbatim>\<open>Prelude\<close>: results, word arithmetic, byte codecs, list and map lemmas.
  \<^item> \<^verbatim>\<open>Strings\<close>, \<^verbatim>\<open>Http\<close>, \<^verbatim>\<open>Net\<close>: ASCII text, the filter contract's messages and decisions, addresses.

  \<^bold>\<open>The host.\<close>
  \<^item> \<^verbatim>\<open>HostBackend\<close> (\<^verbatim>\<open>host/src/backend.rs\<close>): token bucket, codecs, the key-value backends in memory and on
    redb. Shows the rate bound over any history of calls, the exact retry hint, the codec round trip. The
    backends are instances of the locales \<^verbatim>\<open>kv_store\<close> and \<^verbatim>\<open>kv_lossy\<close>.
  \<^item> \<^verbatim>\<open>HostState\<close> (\<^verbatim>\<open>host/src/lib.rs\<close>): capabilities, namespaces, quotas, log sanitising. Shows isolation
    between filters, exact and capped quotas, the rate bound through the capability.
  \<^item> \<^verbatim>\<open>Outbound\<close> (\<^verbatim>\<open>outbound.rs\<close>, \<^verbatim>\<open>outbound_http.rs\<close>): the allowlist and the address guard of a filter's
    outbound calls, with deadlines. Shows that only vetted destinations are dialled.
  \<^item> \<^verbatim>\<open>Pool\<close> (\<^verbatim>\<open>lib.rs\<close>): the pool of trusted instances as interleaved checkouts. Shows exact accounting.
  \<^item> \<^verbatim>\<open>Observe\<close> (\<^verbatim>\<open>observe.rs\<close>): trace contexts, spans and the hooks of a filter.
  \<^item> \<^verbatim>\<open>Telemetry\<close> (\<^verbatim>\<open>observe.rs\<close>): the sinks of those spans. The locale \<^verbatim>\<open>span_sink\<close> says that a sink tells
    exactly what it has seen; the retaining and the tallying sink are its instances.
  \<^item> \<^verbatim>\<open>Load\<close> (\<^verbatim>\<open>lib.rs\<close>, \<^verbatim>\<open>control/src/artifact.rs\<close>): the provenance gate and load options.
  \<^item> \<^verbatim>\<open>Guest\<close> (\<^verbatim>\<open>lib.rs\<close>): the production runtime, over guests given as programs of capability calls that the
    engine may cut anywhere. Shows that the sandbox confines every guest.

  \<^bold>\<open>The control plane.\<close>
  \<^item> \<^verbatim>\<open>Manifest\<close> (\<^verbatim>\<open>manifest\<close>, \<^verbatim>\<open>error.rs\<close>): the manifest, its validation and errors.
  \<^item> \<^verbatim>\<open>Rng\<close>, \<^verbatim>\<open>Murmur\<close>, \<^verbatim>\<open>Maglev\<close>, \<^verbatim>\<open>Weighted\<close> (\<^verbatim>\<open>rng.rs\<close>, \<^verbatim>\<open>hash.rs\<close>, \<^verbatim>\<open>maglev.rs\<close>, \<^verbatim>\<open>weighted.rs\<close>): sampling, the
    stable hash, consistent hashing, the traffic split. Termination and exact proportions.
  \<^item> \<^verbatim>\<open>Instance\<close>, \<^verbatim>\<open>Upstream\<close>, \<^verbatim>\<open>Breaker\<close>, \<^verbatim>\<open>Registry\<close> (\<^verbatim>\<open>upstream\<close>): the health machine as a refinement of
    an abstract one, picking under every algorithm, outlier ejection, the breaker, reconciling.
  \<^item> \<^verbatim>\<open>RateLimit\<close>, \<^verbatim>\<open>Route\<close>, \<^verbatim>\<open>Chain\<close> (\<^verbatim>\<open>ratelimit.rs\<close>, \<^verbatim>\<open>route.rs\<close>, \<^verbatim>\<open>chain.rs\<close>, \<^verbatim>\<open>snapshot.rs\<close>): the native
    limiter, path normalisation and route selection, the fail-closed chain against its specification.
  \<^item> \<^verbatim>\<open>Control\<close> (\<^verbatim>\<open>lib.rs\<close>, \<^verbatim>\<open>reload.rs\<close>, \<^verbatim>\<open>control_reload.rs\<close>): building and swapping a configuration, all or
    nothing.
  \<^item> \<^verbatim>\<open>Oci\<close>, \<^verbatim>\<open>Tls\<close> (\<^verbatim>\<open>oci.rs\<close>, \<^verbatim>\<open>tls.rs\<close>): the offline store, which meets the locale \<^verbatim>\<open>artifact_store\<close> as the
    reference store does, and the certificates. A pin determines the artifact up to a hash collision.

  \<^bold>\<open>The fast path.\<close>
  \<^item> \<^verbatim>\<open>Headers\<close>, \<^verbatim>\<open>Metrics\<close>, \<^verbatim>\<open>Respond\<close> (\<^verbatim>\<open>server/src/headers.rs\<close>, \<^verbatim>\<open>metrics.rs\<close>, \<^verbatim>\<open>respond.rs\<close>, \<^verbatim>\<open>body.rs\<close>):
    conversions between the wire and the contract, counters, responses, bounded buffering.
  \<^item> \<^verbatim>\<open>Forward\<close> (\<^verbatim>\<open>forward.rs\<close>, \<^verbatim>\<open>retry.rs\<close>): the retry loop, one round at a time. The locale \<^verbatim>\<open>kept_view\<close> says
    what such a loop cannot change.
  \<^item> \<^verbatim>\<open>Proxy\<close> (\<^verbatim>\<open>proxy.rs\<close>, \<^verbatim>\<open>dispatch.rs\<close>): the whole transaction. The locale \<^verbatim>\<open>balanced_view\<close> extends
    \<^verbatim>\<open>kept_view\<close> to all stages; its two instances are the gauges, which end where they began, and the
    shape of the groups, which keeps the server able to serve.
  \<^item> \<^verbatim>\<open>Health\<close> (\<^verbatim>\<open>health.rs\<close>): the supervisor's rounds and probes.
  \<^item> \<^verbatim>\<open>Http3\<close> (\<^verbatim>\<open>h3/request.rs\<close>, \<^verbatim>\<open>h3/body.rs\<close>): one request over HTTP/3, which agrees with the same one over TCP.
  \<^item> \<^verbatim>\<open>Admin\<close> (\<^verbatim>\<open>metrics.rs\<close>, \<^verbatim>\<open>admin.rs\<close>, \<^verbatim>\<open>access_log.rs\<close>, \<^verbatim>\<open>control_observability.rs\<close>): the text a scrape gets,
    which is exact, and the access log, which depends on no header but the host and on no query.
  \<^item> \<^verbatim>\<open>Listener\<close> (\<^verbatim>\<open>listener.rs\<close>, \<^verbatim>\<open>h3/endpoint.rs\<close>): start-up, both accept loops, connections and graceful
    shutdown. The locale \<^verbatim>\<open>semaphore\<close> has two instances, the connection limit and the body buffers.
  \<^item> \<^verbatim>\<open>Process\<close> (\<^verbatim>\<open>main.rs\<close>): the start from the command line, and requests interleaved with reloads.
  \<^item> This theory composes them: the process answers every request through every reload.

  \<^bold>\<open>The filters of the repository.\<close>
  \<^item> \<^verbatim>\<open>Filters\<close> (\<^verbatim>\<open>examples/filters\<close>, \<^verbatim>\<open>bench/filters\<close>): the sample filters as guests. Shows that the API-key gate
    cannot be passed without a key, through runtime, capabilities and chain, whatever other filters do.
  \<^item> \<^verbatim>\<open>Authz\<close> (\<^verbatim>\<open>filter-extauthz\<close>): external authorization over the outbound capability, fail-closed.
  \<^item> \<^verbatim>\<open>Streaming\<close> (\<^verbatim>\<open>filter-streaming\<close>, \<^verbatim>\<open>host/src/streaming.rs\<close>): the streaming filter decides as the buffered one.

  \<^bold>\<open>Loops and fuel.\<close> Every loop is a total function with a measure, except the rejection sampling of
  \<^verbatim>\<open>Rng\<close> and the waits of a checkout, of an attempt and of a read, which give \<^term>\<open>None\<close> when they do not end. That
  they end is proved: the generator leaves the rejection zone because the model follows it through
  its full period, and a wait ends when a timeout is configured. Table filling in \<^verbatim>\<open>Maglev\<close> is proved to
  stop for every validated size.

  \<^bold>\<open>Code outside the repository\<close> is an argument of the definitions that use it, with what is relied on
  stated as a predicate that a witness instantiates: wasmtime (building and running a component),
  signature verification, hashing and JSON parsing, redb's transactions, DNS and dialling, hyper's
  header and status validation, the oci-spec parsers, rustls, clocks and the operating system's files.

  A run of a guest has the number of steps its deadline leaves as an argument, and what is proved of it holds
  for every number; the one lemma that needs enough of them names the number.

  \<^bold>\<open>Not modelled.\<close> The framing of HTTP and QUIC and the TLS handshake, which are hyper, quinn and rustls; the
  adapters that box bodies (\<^verbatim>\<open>body.rs\<close>) and the allocator setting of \<^verbatim>\<open>server/src/lib.rs\<close>; the accept loop of the
  admin endpoint, which has no limit and no state; the build script, the benchmarks, the spike and the example
  programs, which only wire the crates together. The access to the outbound capability inside a guest
  program is modelled for the one filter that uses it and not as a step of every guest. Memory ordering of
  relaxed atomics is taken as sequentially consistent per variable.
\<close>

section \<open>From a reload to the answers\<close>

lemma reload_serving:
  assumes "registry_ok (ct_upstreams c)" "reload pl c manifest w = Some (Inr (), c', w')" "manifest_timed manifest" "ss_control st = c'"
  shows "serving_ok st"
proof -
  have sw: "swap_in pl c manifest w = Some (Inr (), c', w')"
    using assms(2) by (auto simp: reload_def ensure_trust_unchanged_def split: if_splits)
  from assms(1) obtain ac reg' w1 where b: "build_active pl manifest (ct_upstreams c) w = Some (Inr ac, reg', w1)"
      "reconcile (ct_upstreams c) (m_upstreams manifest) = Some (reg', Inr ())" "config_ok pl manifest reg' ac"
    by (cases rule: build_active_cases [of _ pl manifest w]) (use sw in \<open>auto simp: swap_in_def\<close>)
  then have "ct_upstreams c' = reg'" "ct_active c' = ac" using sw by (auto simp: swap_in_def)
  then show ?thesis using built_serving [OF assms(1) b(2,3) assms(3)] assms(4) by (simp add: serving_ok_def registry_def)
qed

text \<open>The control plane and the data plane fit together. After any successful reload the server answers
  every transaction of every sequence, whatever the clients, the filters and the upstreams do: no
  request is left without a response. This needs every upstream of the manifest to have a timeout, which
  the defaults give, and other requests to leave the configuration of the groups alone.\<close>

theorem reloaded_server_answers:
  assumes "registry_ok (ct_upstreams c)" "reload pl c manifest w = Some (Inr (), c', w')"
    and "\<forall>up\<in>set (m_upstreams manifest). length (addresses up) < 2 ^ 32 \<and> (request_timeout_ms up \<noteq> 0 \<or> overall_timeout_ms up \<noteq> 0)"
    and "ss_control st = c'"
    and "\<forall>tx\<in>set txs. \<forall>n sh. group_shape (sh_group (ae_others (tx_envs tx n) sh)) = group_shape (sh_group sh)"
  shows "\<exists>resps st'. serve_all sl txs st = Some (resps, st') \<and> length resps = length txs"
  using serve_all_returns [OF reload_serving [OF assms(1,2) _ assms(4)] assms(5)] assms(3) unfolding manifest_timed_def by blast

theorem reloaded_server_answers_witness:
  "\<exists>c' w' resps st'. reload example_plane example_control example_manifest () = Some (Inr (), c', w') \<and>
     serve_all example_sl [example_tx, example_tx] (example_server\<lparr>ss_control := c'\<rparr>) = Some (resps, st') \<and> length resps = 2"
proof -
  have "trust example_manifest = ct_trust example_control" by (simp add: example_manifest_def example_control_def)
  then obtain c' w' where r: "reload example_plane example_control example_manifest () = Some (Inr (), c', w')"
    using example_swap by (auto simp: reload_def ensure_trust_unchanged_def)
  have "\<forall>up\<in>set (m_upstreams example_manifest). length (addresses up) < 2 ^ 32 \<and> (request_timeout_ms up \<noteq> 0 \<or> overall_timeout_ms up \<noteq> 0)"
    by (simp add: example_manifest_def example_upstream_def)
  moreover have "\<forall>tx\<in>set [example_tx, example_tx]. \<forall>n sh. group_shape (sh_group (ae_others (tx_envs tx n) sh)) = group_shape (sh_group sh)"
    by (simp add: example_tx_def example_envs_def)
  ultimately show ?thesis
    using reloaded_server_answers [OF example_control_ok r, of "example_server\<lparr>ss_control := c'\<rparr>"] r by fastforce
qed


lemma example_timed: "manifest_timed example_manifest"
  by (simp add: manifest_timed_def example_manifest_def example_upstream_def)

lemma example_run:
  "\<exists>c s w1. run example_plane (\<lambda>_. Inr []) None (\<lambda>_. Inr example_manifest) (\<lambda>_. Some (Some 8080)) example_lib (\<lambda>_ _. False) (\<lambda>_. None)
     [''plecto.toml''] () = Some (Inr (c, s, None, None), w1)"
proof -
  obtain c' w' where "swap_in example_plane example_control example_manifest () = Some (Inr (), c', w')" using example_swap by blast
  then obtain ac reg where b: "build_active example_plane example_manifest UpstreamRegistry_new () = Some (Inr ac, reg, ())"
    by (auto simp: swap_in_def example_control_def split: option.splits prod.splits sum.splits)
  have h: "build_host example_plane (\<lambda>_. Inr []) None example_manifest = Inr example_plane"
    by (simp add: build_host_def example_manifest_def example_plane_def)
  have "pl_tls example_plane (m_tls example_manifest) = Inr None" by (simp add: example_plane_def)
  then have q: "ac_quic_tls ac = None"
    using b by (auto simp: build_active_def split: option.splits prod.splits sum.splits if_splits)
  show ?thesis
    by (simp add: run_def from_manifest_path_def h control_new_def b serve_start_def q alt_svc_of_def admin_listener_def
        control_admin_addr_def Let_def)
qed


end
